(* ===== verification/Prelude.thy ===== *)
theory Prelude
  imports Main "HOL-Library.Char_ord" "HOL-Library.List_Lexorder" "HOL-Library.Sublist"
begin

text \<open>
  Shared vocabulary of the development: results that may be an error, the
  Python string operations the tools use, and generic list lemmas.

  Strings are \<open>char list\<close>: every text the theater tools handle is read with
  \<open>encoding="latin-1"\<close>, so a Python code point and a HOL \<open>char\<close> are the same
  thing (0 to 255).  For the tools that read UTF-8 the model covers the texts
  whose code points are in that range.
\<close>

named_theorems result_simps "rewriting of results that may be an error"
named_theorems py_defs "definitions of the Python string operations"

section \<open>Results\<close>

text \<open>A raised exception is \<open>Inl\<close>, a returned value \<open>Inr\<close>.\<close>

definition rbind :: "'e + 'a \<Rightarrow> ('a \<Rightarrow> 'e + 'b) \<Rightarrow> 'e + 'b" where
  "rbind r f = (case r of Inl e \<Rightarrow> Inl e | Inr x \<Rightarrow> f x)"

lemma rbind_simps [simp]:
  "rbind (Inl e) f = Inl e"
  "rbind (Inr x) f = f x"
  by (simp_all add: rbind_def)

lemma rbind_cong [fundef_cong]:
  "r = r' \<Longrightarrow> (\<And>x. r' = Inr x \<Longrightarrow> f x = f' x) \<Longrightarrow> rbind r f = rbind r' f'"
  by (simp add: rbind_def split: sum.split)

lemma rbind_eq_Inr [result_simps]: "rbind r f = Inr y \<longleftrightarrow> (\<exists>x. r = Inr x \<and> f x = Inr y)"
  by (simp add: rbind_def split: sum.split)

lemma rbind_eq_Inl [result_simps]:
  "rbind r f = Inl e \<longleftrightarrow> r = Inl e \<or> (\<exists>x. r = Inr x \<and> f x = Inl e)"
  by (simp add: rbind_def split: sum.split)

lemma rbind_assoc: "rbind (rbind r f) g = rbind r (\<lambda>x. rbind (f x) g)"
  by (simp add: rbind_def split: sum.split)

text \<open>Run an operation over a list, stopping at the first error.\<close>

fun rmap :: "('a \<Rightarrow> 'e + 'b) \<Rightarrow> 'a list \<Rightarrow> 'e + 'b list" where
  "rmap f [] = Inr []"
| "rmap f (x # xs) = rbind (f x) (\<lambda>y. rbind (rmap f xs) (\<lambda>ys. Inr (y # ys)))"

lemma rmap_cong [fundef_cong]:
  "xs = ys \<Longrightarrow> (\<And>x. x \<in> set ys \<Longrightarrow> f x = g x) \<Longrightarrow> rmap f xs = rmap g ys"
proof (induction xs arbitrary: ys)
  case Nil
  then show ?case by simp
next
  case (Cons x xs)
  then show ?case by (cases ys) auto
qed

lemma rmap_eq_InrI: "(\<And>x. x \<in> set xs \<Longrightarrow> f x = Inr (g x)) \<Longrightarrow> rmap f xs = Inr (map g xs)"
  by (induction xs) auto

lemma rmap_Inr_iff: "rmap f xs = Inr ys \<longleftrightarrow> list_all2 (\<lambda>x y. f x = Inr y) xs ys"
  by (induction xs arbitrary: ys) (auto simp: result_simps list_all2_Cons1)

lemma rmap_mem: "rmap f xs = Inr ys \<Longrightarrow> x \<in> set xs \<Longrightarrow> \<exists>y \<in> set ys. f x = Inr y"
  by (induction xs arbitrary: ys) (auto simp: result_simps)

lemma rmap_mem_conv: "rmap f xs = Inr ys \<Longrightarrow> y \<in> set ys \<Longrightarrow> \<exists>x \<in> set xs. f x = Inr y"
  by (induction xs arbitrary: ys) (auto simp: result_simps)

lemma rmap_concat_mem:
  assumes "rbind (rmap f xs) (\<lambda>ls. Inr (concat ls)) = Inr out" and "l \<in> set out"
  obtains x ls where "x \<in> set xs" "f x = Inr ls" "l \<in> set ls"
proof -
  from assms(1) obtain lss where lss: "rmap f xs = Inr lss" "out = concat lss" by (auto simp: result_simps)
  with assms(2) obtain ls where "ls \<in> set lss" "l \<in> set ls" by auto
  with rmap_mem_conv [OF lss(1)] that show thesis by blast
qed

lemma rmap_total: "(\<And>x. x \<in> set xs \<Longrightarrow> \<exists>y. f x = Inr y) \<Longrightarrow> \<exists>ys. rmap f xs = Inr ys"
proof (induction xs)
  case Nil
  then show ?case by simp
next
  case (Cons x xs)
  then obtain y ys where "f x = Inr y" "rmap f xs = Inr ys" by fastforce
  then show ?case by simp
qed

lemma list_all2_map_fst: "list_all2 (\<lambda>x y. fst x = fst y) xs ys \<longleftrightarrow> map fst xs = map fst ys"
  by (induction xs arbitrary: ys) (auto simp: list_all2_Cons1 Cons_eq_map_conv)

lemma takeWhile_until [simp]:
  "x \<notin> set s \<Longrightarrow> takeWhile (\<lambda>y. y \<noteq> x) (s @ x # t) = s"
  "x \<notin> set s \<Longrightarrow> dropWhile (\<lambda>y. y \<noteq> x) (s @ x # t) = x # t"
  by (induction s) auto

section \<open>Python characters and strings\<close>

abbreviation newline :: char where "newline \<equiv> CHR 0x0A"
abbreviation tab :: char where "tab \<equiv> CHR 0x09"
abbreviation dquote :: char where "dquote \<equiv> CHR 0x22"
abbreviation backslash :: char where "backslash \<equiv> CHR 0x5C"

text \<open>\<open>str.isspace\<close> and \<open>str.lower\<close> on code points below 256.\<close>

definition py_isspace :: "char \<Rightarrow> bool" where
  "py_isspace c \<longleftrightarrow>
     (let n = of_char c :: nat
      in 9 \<le> n \<and> n \<le> 13 \<or> 28 \<le> n \<and> n \<le> 32 \<or> n = 133 \<or> n = 160)"

definition lower_char :: "char \<Rightarrow> char" where
  "lower_char c =
     (let n = of_char c :: nat
      in if 65 \<le> n \<and> n \<le> 90 \<or> 192 \<le> n \<and> n \<le> 222 \<and> n \<noteq> 215 then char_of (n + 32) else c)"

definition py_lower :: "string \<Rightarrow> string" where
  "py_lower s = map lower_char s"

lemma lower_char_idem [simp]: "lower_char (lower_char c) = lower_char c"
proof -
  have "(of_char c :: nat) < 256" by simp
  then show ?thesis by (auto simp: lower_char_def Let_def)
qed

lemma py_lower_idem [simp]: "py_lower (py_lower s) = py_lower s"
  by (simp add: py_lower_def)

lemma length_py_lower [simp]: "length (py_lower s) = length s"
  by (simp add: py_lower_def)

lemma py_lower_Nil [simp]: "py_lower [] = []"
  by (simp add: py_lower_def)

lemma py_lower_append [simp]: "py_lower (s @ t) = py_lower s @ py_lower t"
  by (simp add: py_lower_def)

lemma newline_isspace [simp]: "py_isspace newline"
  by (simp add: py_isspace_def)

lemma tab_isspace [simp]: "py_isspace tab"
  by (simp add: py_isspace_def)

section \<open>Paths\<close>

text \<open>\<open>os.path.join\<close> of two components, as POSIX has it.\<close>

definition py_join :: "string \<Rightarrow> string \<Rightarrow> string" where
  "py_join d name =
     (if prefix ''/'' name then name
      else if d = [] \<or> last d = CHR ''/'' then d @ name
      else d @ ''/'' @ name)"

section \<open>Interfaces shared by the tools\<close>

text \<open>
  Layering: an operation lays one value over another, and a view reads a value
  at a position.  The law is that what the upper value shows stays shown.  The
  theater loader folds such an operation over the files a theater is based on.
\<close>

locale layering =
  fixes lay :: "'a \<Rightarrow> 'a \<Rightarrow> 'a"
    and view :: "'a \<Rightarrow> 'p \<Rightarrow> 'v option"
  assumes lay_keeps: "view t p = Some x \<Longrightarrow> view (lay t b) p = Some x"
begin

lemma fold_keeps: "view t p = Some x \<Longrightarrow> view (foldl lay t bs) p = Some x"
  by (induction bs arbitrary: t) (auto simp: lay_keeps)

lemma fold_prefix_keeps:
  "view (foldl lay t bs) p = Some x \<Longrightarrow> view (foldl lay t (bs @ cs)) p = Some x"
  by (simp add: fold_keeps)

end

text \<open>
  A codec: an encoder and a decoder, both of which may fail, such that decoding
  what was encoded gives the value back.  Printing a theater and encoding a
  file name are codecs.
\<close>

locale codec =
  fixes enc :: "'a \<Rightarrow> 'e + 'b"
    and dec :: "'b \<Rightarrow> 'f + 'a"
  assumes dec_enc: "enc x = Inr s \<Longrightarrow> dec s = Inr x"
begin

lemma enc_inj: "enc x = Inr s \<Longrightarrow> enc y = Inr s \<Longrightarrow> x = y"
  using dec_enc [of x s] dec_enc [of y s] by simp

lemma enc_eq_iff: "enc x = Inr s \<Longrightarrow> enc y = Inr t \<Longrightarrow> s = t \<longleftrightarrow> x = y"
  using enc_inj by auto

lemma dec_rmap: "rmap enc xs = Inr ss \<Longrightarrow> rmap dec ss = Inr xs"
  by (induction xs arbitrary: ss) (auto simp: result_simps dec_enc)

end

end
