(* ===== verification/KeyValues.thy ===== *)
theory KeyValues
  imports Prelude
begin

text \<open>
  The KeyValues reader and writer of \<open>tools/theater-build/build.py\<close>: the node
  type, the tokenizer, the recursive-descent parser over its token stream, and
  the printer.  The lemmas show that the parser inverts the token fringe of a
  tree exactly, and that reading a printed tree gives the tree back.
\<close>

section \<open>Nodes, errors and tokens\<close>

text \<open>
  A \<open>KV\<close> object has either a string \<open>value\<close> (a leaf) or a list of
  \<open>children\<close> (a block); the constructor never sets both.
\<close>

datatype kv = Leaf string string | Block string "kv list"

primrec kv_name :: "kv \<Rightarrow> string" where
  "kv_name (Leaf n v) = n"
| "kv_name (Block n cs) = n"

text \<open>\<open>kv.children or ()\<close>\<close>

primrec kv_children :: "kv \<Rightarrow> kv list" where
  "kv_children (Leaf n v) = []"
| "kv_children (Block n cs) = cs"

primrec is_block :: "kv \<Rightarrow> bool" where
  "is_block (Leaf n v) = False"
| "is_block (Block n cs) = True"

definition lname :: "kv \<Rightarrow> string" where
  "lname k = py_lower (kv_name k)"

lemma lname_simps [simp]:
  "lname (Leaf n v) = py_lower n"
  "lname (Block n cs) = py_lower n"
  by (simp_all add: lname_def)

text \<open>
  \<open>KeyValuesError\<close> with the file and line its message names, one constructor
  per \<open>raise\<close>.  \<open>NoneNotIterable\<close> is the \<open>TypeError\<close> of iterating over the
  \<open>None\<close> children of a leaf, \<open>RecursionLimit\<close> the \<open>RecursionError\<close> of an
  unbounded \<open>#base\<close> chain.
\<close>

datatype kv_error =
    UnterminatedString string nat
  | ConditionalNotModelled string nat
  | UnexpectedEOF string
  | UnmatchedBrace string nat
  | BlockWithNoName string nat
  | KeyHasNoValue string nat string
  | KeyThenBrace string nat string
  | BaseNotFound string "string list"
  | StrayKeys string "string list"
  | TopLevelBlocks string nat
  | BaseNameMismatch string string string string
  | CannotQuote string
  | NoneNotIterable
  | RecursionLimit

datatype token = LBrace nat | RBrace nat | Str string nat

text \<open>
  The tokenizer is a generator that the parser advances with \<open>next\<close>, so a
  tokenizing error is raised only when the parser reaches it.  A stream is
  therefore exhausted, fails, or yields a token and goes on.
\<close>

datatype tstream = TEnd | TFail kv_error | TNext token tstream

definition bare_char :: "char \<Rightarrow> bool" where
  "bare_char c \<longleftrightarrow> \<not> py_isspace c \<and> c \<notin> {CHR ''{'', CHR ''}'', dquote}"

function tokens :: "string \<Rightarrow> string \<Rightarrow> nat \<Rightarrow> tstream" where
  "tokens path [] line = TEnd"
| "tokens path (c # cs) line =
     (if c = newline then tokens path cs (line + 1)
      else if py_isspace c then tokens path cs line
      else if prefix ''//'' (c # cs) then tokens path (dropWhile (\<lambda>x. x \<noteq> newline) cs) line
      else if c = CHR ''{'' then TNext (LBrace line) (tokens path cs line)
      else if c = CHR ''}'' then TNext (RBrace line) (tokens path cs line)
      else if c = dquote then
        (let s = takeWhile (\<lambda>x. x \<noteq> dquote) cs; rest = dropWhile (\<lambda>x. x \<noteq> dquote) cs
         in if rest = [] then TFail (UnterminatedString path line)
            else TNext (Str s line) (tokens path (tl rest) (line + count_list s newline)))
      else if c = CHR ''['' then TFail (ConditionalNotModelled path line)
      else TNext (Str (c # takeWhile bare_char cs) line)
             (tokens path (dropWhile bare_char cs) line))"
  by pat_completeness auto
termination
  by (relation "measure (\<lambda>(path, text, line). length text)")
     (auto simp: less_Suc_eq_le length_dropWhile_le
           intro: order_trans [OF diff_le_self length_dropWhile_le])

declare tokens.simps(2) [simp del]

section \<open>The parser\<close>

function parse_children :: "string \<Rightarrow> bool \<Rightarrow> tstream \<Rightarrow> kv_error + (kv list \<times> tstream)" where
  "parse_children path closing TEnd =
     (if closing then Inl (UnexpectedEOF path) else Inr ([], TEnd))"
| "parse_children path closing (TFail e) = Inl e"
| "parse_children path closing (TNext (RBrace line) ts) =
     (if closing then Inr ([], ts) else Inl (UnmatchedBrace path line))"
| "parse_children path closing (TNext (LBrace line) ts) = Inl (BlockWithNoName path line)"
| "parse_children path closing (TNext (Str key line) TEnd) = Inl (KeyHasNoValue path line key)"
| "parse_children path closing (TNext (Str key line) (TFail e)) = Inl e"
| "parse_children path closing (TNext (Str key line) (TNext (RBrace l) ts)) =
     Inl (KeyThenBrace path line key)"
| "parse_children path closing (TNext (Str key line) (TNext (Str v l) ts)) =
     rbind (parse_children path closing ts) (\<lambda>(out, ts'). Inr (Leaf key v # out, ts'))"
| "parse_children path closing (TNext (Str key line) (TNext (LBrace l) ts)) =
     rbind (parse_children path True ts) (\<lambda>(cs, ts').
       rbind (parse_children path closing ts') (\<lambda>(out, ts''). Inr (Block key cs # out, ts'')))"
  by pat_completeness auto

lemma parse_children_shrinks:
  "parse_children_dom (path, closing, ts) \<Longrightarrow>
   parse_children path closing ts = Inr (out, ts') \<Longrightarrow> size ts' \<le> size ts"
proof (induction path closing ts arbitrary: out ts' rule: parse_children.pinduct)
  case (8 path closing key line v l ts)
  then show ?case
    by (fastforce simp: parse_children.psimps result_simps)
next
  case (9 path closing key line l ts)
  from "9.prems" "9.hyps" obtain cs t1 out1
    where a: "parse_children path True ts = Inr (cs, t1)"
      and b: "parse_children path closing t1 = Inr (out1, ts')"
    by (auto simp: parse_children.psimps result_simps split_def)
  from "9.IH"(1) [OF a] "9.IH"(2) [OF a refl b] show ?case by simp
qed (auto simp: parse_children.psimps split: if_splits)

termination parse_children
proof (relation "measure (\<lambda>(path, closing, ts). size ts)")
  fix path closing key line l ts x cs ts'
  assume "parse_children_dom (path, True, ts)" "parse_children path True ts = Inr x" "(cs, ts') = x"
  then have "size ts' \<le> size ts"
    using parse_children_shrinks by metis
  then show "((path, closing, ts'), path, closing, TNext (Str key line) (TNext (LBrace l) ts))
      \<in> measure (\<lambda>(path, closing, ts). size ts)"
    by simp
qed simp_all


section \<open>The token fringe of a tree\<close>

text \<open>
  Parsing does not depend on the line numbers, so the language the parser reads
  is a language of tokens without them.  \<open>strip\<close> forgets the lines of a stream
  and is \<open>None\<close> for one that fails.
\<close>

datatype ktok = KOpen | KClose | KStr string

primrec unline :: "token \<Rightarrow> ktok" where
  "unline (LBrace l) = KOpen"
| "unline (RBrace l) = KClose"
| "unline (Str s l) = KStr s"

primrec strip :: "tstream \<Rightarrow> ktok list option" where
  "strip TEnd = Some []"
| "strip (TFail e) = None"
| "strip (TNext t ts) = map_option (Cons (unline t)) (strip ts)"

fun fringe :: "kv \<Rightarrow> ktok list" where
  "fringe (Leaf n v) = [KStr n, KStr v]"
| "fringe (Block n cs) = KStr n # KOpen # concat (map fringe cs) @ [KClose]"

abbreviation fringes :: "kv list \<Rightarrow> ktok list" where
  "fringes cs \<equiv> concat (map fringe cs)"

definition lex :: "string \<Rightarrow> string \<Rightarrow> ktok list option" where
  "lex path text = strip (tokens path text 1)"

lemma map_option_Cons_eq_Some:
  "map_option (Cons x) z = Some (y # ys) \<longleftrightarrow> x = y \<and> z = Some ys"
  by (cases z) auto

lemma unline_eq [simp]:
  "unline t = KOpen \<longleftrightarrow> (\<exists>l. t = LBrace l)"
  "unline t = KClose \<longleftrightarrow> (\<exists>l. t = RBrace l)"
  "unline t = KStr s \<longleftrightarrow> (\<exists>l. t = Str s l)"
  by (cases t; simp)+

lemma strip_eq_Cons:
  "strip ts = Some (k # ks) \<longleftrightarrow> (\<exists>t ts'. ts = TNext t ts' \<and> unline t = k \<and> strip ts' = Some ks)"
  by (cases ts) (auto simp: map_option_Cons_eq_Some)

lemma strip_eq_Nil: "strip ts = Some [] \<longleftrightarrow> ts = TEnd"
  by (cases ts) auto

text \<open>What the parser returns is what the tokens it consumed spell.\<close>

lemma parse_children_sound:
  "parse_children path closing ts = Inr (out, ts') \<Longrightarrow>
   strip ts = map_option (\<lambda>ks. fringes out @ (if closing then KClose # ks else ks)) (strip ts')
   \<and> (\<not> closing \<longrightarrow> ts' = TEnd)"
proof (induction path closing ts arbitrary: out ts' rule: parse_children.induct)
  case (8 path closing key line v l ts)
  then show ?case
    by (fastforce simp: result_simps option.map_comp o_def)
next
  case (9 path closing key line l ts)
  from "9.prems" obtain cs t1 out1
    where a: "parse_children path True ts = Inr (cs, t1)"
      and b: "parse_children path closing t1 = Inr (out1, ts')"
      and c: "out = Block key cs # out1"
    by (auto simp: result_simps split_def)
  from "9.IH"(1) [OF a] "9.IH"(2) [OF a refl b] c show ?case
    by (auto simp: option.map_comp o_def)
qed (auto split: if_splits simp: map_option_case split: option.splits)

text \<open>Conversely every spelling of a list of trees is parsed to that list.\<close>

lemma parse_children_complete_block:
  "strip ts = Some (fringes out @ KClose # ks) \<Longrightarrow>
   \<exists>ts'. parse_children path True ts = Inr (out, ts') \<and> strip ts' = Some ks"
proof (induction "size_list size out" arbitrary: out ts ks rule: less_induct)
  case less
  show ?case
  proof (cases out)
    case Nil
    with less.prems show ?thesis by (auto simp: strip_eq_Cons)
  next
    case (Cons k rest)
    show ?thesis
    proof (cases k)
      case (Leaf n v)
      with less.prems Cons obtain l l' t1
        where ts: "ts = TNext (Str n l) (TNext (Str v l') t1)"
          and t1: "strip t1 = Some (fringes rest @ KClose # ks)"
        by (auto simp: strip_eq_Cons)
      have "size_list size rest < size_list size out" using Cons by simp
      from less.hyps [OF this t1] ts Cons Leaf show ?thesis by auto
    next
      case (Block n cs)
      with less.prems Cons obtain l l' t1
        where ts: "ts = TNext (Str n l) (TNext (LBrace l') t1)"
          and t1: "strip t1 = Some (fringes cs @ KClose # fringes rest @ KClose # ks)"
        by (auto simp: strip_eq_Cons)
      have "size_list size cs < size_list size out" using Cons Block by simp
      from less.hyps [OF this t1] obtain t2
        where a: "parse_children path True t1 = Inr (cs, t2)"
          and t2: "strip t2 = Some (fringes rest @ KClose # ks)" by blast
      have "size_list size rest < size_list size out" using Cons by simp
      from less.hyps [OF this t2] a ts Cons Block show ?thesis by auto
    qed
  qed
qed

lemma parse_children_complete_top:
  "strip ts = Some (fringes out) \<Longrightarrow> parse_children path False ts = Inr (out, TEnd)"
proof (induction out arbitrary: ts)
  case Nil
  then show ?case by (simp add: strip_eq_Nil)
next
  case (Cons k out)
  show ?case
  proof (cases k)
    case (Leaf n v)
    with Cons show ?thesis by (auto simp: strip_eq_Cons)
  next
    case (Block n cs)
    with Cons.prems obtain l l' t1
      where ts: "ts = TNext (Str n l) (TNext (LBrace l') t1)"
        and t1: "strip t1 = Some (fringes cs @ KClose # fringes out)"
      by (auto simp: strip_eq_Cons)
    from parse_children_complete_block [OF t1] obtain t2
      where "parse_children path True t1 = Inr (cs, t2)" "strip t2 = Some (fringes out)" by blast
    with Cons.IH ts Block show ?thesis by simp
  qed
qed

text \<open>
  \<open>parse_children(tokens(text, path), path, False)\<close>, as \<open>Loader.load\<close> calls it: the
  stream is empty when it returns.
\<close>

definition parse_text :: "string \<Rightarrow> string \<Rightarrow> kv_error + kv list" where
  "parse_text path text =
     rbind (parse_children path False (tokens path text 1)) (\<lambda>(out, ts). Inr out)"

lemma parse_text_iff_spells:
  "parse_text path text = Inr out \<longleftrightarrow> lex path text = Some (fringes out)"
proof
  assume "parse_text path text = Inr out"
  then obtain ts where "parse_children path False (tokens path text 1) = Inr (out, ts)"
    by (auto simp: parse_text_def result_simps)
  from parse_children_sound [OF this] show "lex path text = Some (fringes out)"
    by (simp add: lex_def)
next
  assume "lex path text = Some (fringes out)"
  then show "parse_text path text = Inr out"
    by (simp add: parse_text_def lex_def parse_children_complete_top)
qed

section \<open>The lexer on text\<close>

text \<open>The same lexer without the line counter: lines do not influence the tokens.\<close>

function lex_text :: "string \<Rightarrow> ktok list option" where
  "lex_text [] = Some []"
| "lex_text (c # cs) =
     (if py_isspace c then lex_text cs
      else if prefix ''//'' (c # cs) then lex_text (dropWhile (\<lambda>x. x \<noteq> newline) cs)
      else if c = CHR ''{'' then map_option (Cons KOpen) (lex_text cs)
      else if c = CHR ''}'' then map_option (Cons KClose) (lex_text cs)
      else if c = dquote then
        (let s = takeWhile (\<lambda>x. x \<noteq> dquote) cs; rest = dropWhile (\<lambda>x. x \<noteq> dquote) cs
         in if rest = [] then None else map_option (Cons (KStr s)) (lex_text (tl rest)))
      else if c = CHR ''['' then None
      else map_option (Cons (KStr (c # takeWhile bare_char cs))) (lex_text (dropWhile bare_char cs)))"
  by pat_completeness auto
termination
  by (relation "measure length")
     (auto simp: less_Suc_eq_le length_dropWhile_le
           intro: order_trans [OF diff_le_self length_dropWhile_le])

declare lex_text.simps(2) [simp del]

lemma strip_tokens: "strip (tokens path text line) = lex_text text"
proof (induction path "text" line rule: tokens.induct)
  case (1 path line)
  show ?case by simp
next
  case (2 path c cs line)
  show ?case
  proof (cases "c = newline")
    case True
    with 2 show ?thesis by (simp add: tokens.simps(2) lex_text.simps(2))
  next
    case False
    with 2 show ?thesis
      by (auto simp: tokens.simps(2) lex_text.simps(2) Let_def simp del: prefix_code)
  qed
qed

lemma lex_eq: "lex path text = lex_text text"
  by (simp add: lex_def strip_tokens)

lemma lex_text_space: "py_isspace c \<Longrightarrow> lex_text (c # t) = lex_text t"
  by (simp add: lex_text.simps(2))

lemma lex_newline [simp]: "lex_text (newline # t) = lex_text t"
  by (simp add: lex_text_space)

lemma lex_tab [simp]: "lex_text (tab # t) = lex_text t"
  by (simp add: lex_text_space)

lemma lex_tabs [simp]: "lex_text (replicate n tab @ t) = lex_text t"
  by (induction n) simp_all

lemma not_space_punct [simp]:
  "\<not> py_isspace dquote" "\<not> py_isspace CHR ''{''" "\<not> py_isspace CHR ''}''" "\<not> py_isspace CHR ''/''"
  by (simp_all add: py_isspace_def)

lemma lex_brace [simp]:
  "lex_text (CHR ''{'' # t) = map_option (Cons KOpen) (lex_text t)"
  "lex_text (CHR ''}'' # t) = map_option (Cons KClose) (lex_text t)"
  by (simp_all add: lex_text.simps(2))

lemma lex_quoted [simp]:
  "dquote \<notin> set s \<Longrightarrow> lex_text (dquote # s @ dquote # t) = map_option (Cons (KStr s)) (lex_text t)"
  by (simp add: lex_text.simps(2) Let_def)

lemma lex_comment [simp]:
  "newline \<notin> set s \<Longrightarrow> lex_text (CHR ''/'' # CHR ''/'' # s @ newline # t) = lex_text t"
  by (simp add: lex_text.simps(2))

section \<open>The printer\<close>

definition quote :: "string \<Rightarrow> kv_error + string" where
  "quote s = (if dquote \<in> set s then Inl (CannotQuote s) else Inr (dquote # s @ [dquote]))"

fun write_kv :: "kv \<Rightarrow> nat \<Rightarrow> kv_error + string"
  and write_kvs :: "kv list \<Rightarrow> nat \<Rightarrow> kv_error + string" where
  "write_kv (Leaf n v) depth =
     rbind (quote n) (\<lambda>qn. rbind (quote v) (\<lambda>qv.
       Inr (replicate depth tab @ qn @ [tab] @ qv @ [newline])))"
| "write_kv (Block n cs) depth =
     rbind (quote n) (\<lambda>qn. rbind (write_kvs cs (depth + 1)) (\<lambda>body.
       Inr (replicate depth tab @ qn @ [newline] @ replicate depth tab @ ''{'' @ [newline]
            @ body @ replicate depth tab @ ''}'' @ [newline])))"
| "write_kvs [] depth = Inr []"
| "write_kvs (c # cs) depth =
     rbind (write_kv c depth) (\<lambda>s. rbind (write_kvs cs depth) (\<lambda>t. Inr (s @ t)))"

text \<open>A tree that can be printed: no name and no value holds a double quote.\<close>

fun quotable :: "kv \<Rightarrow> bool" where
  "quotable (Leaf n v) \<longleftrightarrow> dquote \<notin> set n \<and> dquote \<notin> set v"
| "quotable (Block n cs) \<longleftrightarrow> dquote \<notin> set n \<and> (\<forall>c \<in> set cs. quotable c)"

lemma write_total:
  "quotable k \<Longrightarrow> \<exists>s. write_kv k depth = Inr s"
  "\<forall>c \<in> set cs. quotable c \<Longrightarrow> \<exists>s. write_kvs cs depth = Inr s"
  by (induction k depth and cs depth rule: write_kv_write_kvs.induct) (auto simp: quote_def)

lemma lex_write:
  "write_kv k depth = Inr s \<Longrightarrow> lex_text (s @ t) = map_option ((@) (fringe k)) (lex_text t)"
  "write_kvs cs depth = Inr s \<Longrightarrow> lex_text (s @ t) = map_option ((@) (fringes cs)) (lex_text t)"
proof (induction k depth and cs depth arbitrary: s t and s t rule: write_kv_write_kvs.induct)
  case (4 c cs depth)
  then show ?case
    by (auto simp: result_simps option.map_comp o_def)
qed (auto simp: quote_def result_simps map_option_case split: if_splits option.splits)

lemma write_quotable:
  "write_kv k depth = Inr s \<Longrightarrow> quotable k"
  "write_kvs cs depth = Inr s \<Longrightarrow> \<forall>c \<in> set cs. quotable c"
  by (induction k depth and cs depth arbitrary: s and s rule: write_kv_write_kvs.induct)
     (auto simp: quote_def result_simps split: if_splits)

lemma write_Inr_iff: "(\<exists>s. write_kv k depth = Inr s) \<longleftrightarrow> quotable k"
  using write_total(1) write_quotable(1) by blast

text \<open>Everything the tokenizer produces can be printed.\<close>

primrec ktok_quotable :: "ktok \<Rightarrow> bool" where
  "ktok_quotable KOpen = True"
| "ktok_quotable KClose = True"
| "ktok_quotable (KStr s) = (dquote \<notin> set s)"

lemma bare_no_dquote: "dquote \<notin> set (takeWhile bare_char cs)"
  by (auto dest!: set_takeWhileD simp: bare_char_def)

lemma until_dquote: "dquote \<notin> set (takeWhile (\<lambda>x. x \<noteq> dquote) cs)"
  by (auto dest!: set_takeWhileD)

lemma lex_text_quotable: "lex_text text = Some ks \<Longrightarrow> \<forall>k \<in> set ks. ktok_quotable k"
proof (induction "text" arbitrary: ks rule: lex_text.induct)
  case 1
  then show ?case by simp
next
  case (2 c cs)
  then show ?case
    by (auto simp: lex_text.simps(2) Let_def bare_no_dquote until_dquote
        simp del: prefix_code split: if_splits)
qed

lemma fringe_quotable: "(\<forall>t \<in> set (fringe k). ktok_quotable t) \<longleftrightarrow> quotable k"
  by (induction k) auto

lemma parse_text_quotable: "parse_text path text = Inr out \<Longrightarrow> \<forall>k \<in> set out. quotable k"
proof
  fix k assume "parse_text path text = Inr out" "k \<in> set out"
  then have "\<forall>t \<in> set (fringes out). ktok_quotable t"
    using lex_text_quotable by (simp add: parse_text_iff_spells lex_eq)
  with \<open>k \<in> set out\<close> show "quotable k" by (auto simp flip: fringe_quotable)
qed

lemma parse_write: "write_kv k depth = Inr s \<Longrightarrow> parse_text path s = Inr [k]"
  using lex_write(1) [of k depth s "[]"] by (simp add: parse_text_iff_spells lex_eq)

text \<open>
  Printing and parsing form a codec, so two different trees never print to the
  same text.
\<close>

definition parse_single :: "string \<Rightarrow> string \<Rightarrow> kv_error + kv" where
  "parse_single path text =
     rbind (parse_text path text) (\<lambda>tops.
       case tops of [k] \<Rightarrow> Inr k | _ \<Rightarrow> Inl (TopLevelBlocks path (length tops)))"

interpretation kv_codec: codec "\<lambda>k. write_kv k depth" "parse_single path" for depth path
  by unfold_locales (simp add: parse_single_def parse_write)

section \<open>Properties\<close>

text \<open>
  C3. The parser is exactly the inverse of the token fringe: a text parses to a
  list of trees if and only if its tokens spell that list.  Parsing is therefore
  unambiguous, accepts every spelling of every tree, and rejects every text
  whose tokens spell no list of trees.
\<close>
theorem parse_inverts_spelling:
  "parse_text path text = Inr out \<longleftrightarrow> lex path text = Some (fringes out)"
  by (rule parse_text_iff_spells)


text \<open>
  C5. Whatever the parser accepts can be printed again: every name and value of
  a parsed tree is free of double quotes, so the \<open>cannot write\<close> error is never
  raised on what was read.
\<close>
theorem parsed_is_printable:
  assumes "parse_text path text = Inr out" and "k \<in> set out"
  shows "\<exists>s. write_kv k depth = Inr s"
  using assms parse_text_quotable write_Inr_iff by blast

theorem parsed_is_printable_witness:
  "\<exists>s. write_kv (Leaf ''a'' ''b'') 0 = Inr s"
  by (rule parsed_is_printable [of "''f''" "''a b // c''" "[Leaf ''a'' ''b'']"]) code_simp+

end
