(* ===== verification/TheaterMerge.thy ===== *)
theory TheaterMerge
  imports KeyValues
begin

text \<open>
  \<open>merge\<close> of \<open>tools/theater-build/build.py\<close>: the children of a base theater are
  merged into a derived one, first same-named match first, the derived side
  winning; in the sections of \<open>BASE_ORDER_SECTIONS\<close> the result takes the order
  of the base.
\<close>

definition BASE_ORDER_SECTIONS :: "string list" where
  "BASE_ORDER_SECTIONS = [''weapon_upgrades'']"

text \<open>
  The index of the first child with this (lower-case) name.  The Python code
  keeps \<open>id(d)\<close> of the objects it placed; children are only ever appended to the
  list during the loop, so the index of a child identifies the object.
\<close>

fun find_named :: "string \<Rightarrow> kv list \<Rightarrow> nat option" where
  "find_named l [] = None"
| "find_named l (c # cs) = (if lname c = l then Some 0 else map_option Suc (find_named l cs))"

text \<open>
  \<open>placed + [d for d in this.children if id(d) not in seen]\<close>
\<close>

definition reorder :: "nat list \<Rightarrow> kv list \<Rightarrow> kv list" where
  "reorder placed cs =
     map (\<lambda>i. cs ! i) placed
     @ map (\<lambda>i. cs ! i) (filter (\<lambda>i. i \<notin> set placed) [0..<length cs])"

text \<open>
  The loop of \<open>merge\<close> over the children of the base.  \<open>placed\<close> collects the
  indices of the children reached, each once, in the order of the base.
  \<open>copy()\<close> is a deep copy; a HOL tree is its own copy.
\<close>

fun merge :: "nat \<Rightarrow> kv \<Rightarrow> kv \<Rightarrow> kv"
  and merge_loop :: "nat \<Rightarrow> bool \<Rightarrow> kv list \<Rightarrow> nat list \<Rightarrow> kv list \<Rightarrow> kv list \<times> nat list" where
  "merge depth (Leaf n v) base = Leaf n v"
| "merge depth (Block n cs) (Leaf bn bv) = Block n cs"
| "merge depth (Block n cs) (Block bn bs) =
     (let base_order = (depth = 1 \<and> py_lower n \<in> set BASE_ORDER_SECTIONS);
          (cs', placed) = merge_loop depth base_order cs [] bs
      in Block n (if base_order then reorder placed cs' else cs'))"
| "merge_loop depth base_order cs placed [] = (cs, placed)"
| "merge_loop depth base_order cs placed (b # bs) =
     (let (cs', i) = (case find_named (lname b) cs of
                        Some i \<Rightarrow> (cs[i := merge (depth + 1) (cs ! i) b], i)
                      | None \<Rightarrow> (cs @ [b], length cs));
          placed' = (if base_order \<and> i \<notin> set placed then placed @ [i] else placed)
      in merge_loop depth base_order cs' placed' bs)"

section \<open>The first child of a name\<close>

definition child_named :: "string \<Rightarrow> kv list \<Rightarrow> kv option" where
  "child_named l cs = find (\<lambda>c. lname c = l) cs"

lemma child_named_simps [simp]:
  "child_named l [] = None"
  "child_named l (c # cs) = (if lname c = l then Some c else child_named l cs)"
  by (simp_all add: child_named_def)

lemma child_named_append:
  "child_named l (xs @ ys) =
     (case child_named l xs of Some c \<Rightarrow> Some c | None \<Rightarrow> child_named l ys)"
  by (induction xs) auto

lemma child_named_None: "child_named l cs = None \<longleftrightarrow> (\<forall>c \<in> set cs. lname c \<noteq> l)"
  by (induction cs) auto

lemma child_named_lname: "child_named l cs = Some c \<Longrightarrow> lname c = l \<and> c \<in> set cs"
  by (induction cs) (auto split: if_splits)

lemma find_named_None: "find_named l cs = None \<longleftrightarrow> (\<forall>c \<in> set cs. lname c \<noteq> l)"
  by (induction cs) auto

lemma find_named_Some:
  "find_named l cs = Some i \<longleftrightarrow>
     i < length cs \<and> lname (cs ! i) = l \<and> (\<forall>j < i. lname (cs ! j) \<noteq> l)"
proof (induction cs arbitrary: i)
  case Nil
  then show ?case by simp
next
  case (Cons c cs)
  then show ?case
    by (cases i) (auto simp: nth_Cons' All_less_Suc2)
qed

lemma child_named_find: "child_named l cs = map_option (\<lambda>i. cs ! i) (find_named l cs)"
  by (induction cs) (auto simp: option.map_comp o_def)

lemma find_named_cong: "map lname cs = map lname cs' \<Longrightarrow> find_named l cs = find_named l cs'"
proof (induction cs arbitrary: cs')
  case Nil
  then show ?case by simp
next
  case (Cons c cs)
  then obtain d ds where "cs' = d # ds" "lname c = lname d" "map lname cs = map lname ds"
    by (cases cs') auto
  with Cons.IH [of ds] show ?case by simp
qed

lemma child_named_update:
  assumes "find_named l' cs = Some i" and "lname d = l'"
  shows "child_named l (cs[i := d]) = (if l = l' then Some d else child_named l cs)"
  using assms
  by (induction cs arbitrary: i) (auto split: if_splits nat.splits)

lemma kv_name_merge [simp]: "kv_name (merge depth t b) = kv_name t"
  by (cases t; cases b) (auto simp: split_def Let_def)

lemma lname_merge [simp]: "lname (merge depth t b) = lname t"
  by (simp add: lname_def)

lemma is_block_merge [simp]: "is_block (merge depth t b) = is_block t"
  by (cases t; cases b) (auto simp: split_def Let_def)

section \<open>What the loop does to the children\<close>

text \<open>
  All the base children of one name end up in one child of the result: the
  derived side's first child of that name with every one of them merged in, or
  the first of them copied and the others merged into the copy.
\<close>

fun absorb_all :: "nat \<Rightarrow> kv option \<Rightarrow> kv list \<Rightarrow> kv option" where
  "absorb_all depth x [] = x"
| "absorb_all depth None (b # bs) = absorb_all depth (Some b) bs"
| "absorb_all depth (Some x) (b # bs) = absorb_all depth (Some (merge (depth + 1) x b)) bs"

lemma loop_child_named:
  "child_named l (fst (merge_loop depth bo cs placed bs)) =
     absorb_all depth (child_named l cs) (filter (\<lambda>b. lname b = l) bs)"
proof (induction bs arbitrary: cs placed)
  case Nil
  then show ?case by simp
next
  case (Cons b bs)
  show ?case
  proof (cases "find_named (lname b) cs")
    case None
    then have "child_named (lname b) cs = None" by (simp add: child_named_find)
    with None Cons show ?thesis
      by (auto simp: child_named_append split: option.split)
  next
    case (Some i)
    then have "child_named (lname b) cs = Some (cs ! i)" "lname (cs ! i) = lname b"
      by (auto simp: child_named_find find_named_Some)
    with Some Cons show ?thesis by (auto simp: child_named_update)
  qed
qed

text \<open>
  The indices placed are first matches; that is why reordering by them does not
  change which child a name finds.
\<close>

definition placed_ok :: "kv list \<Rightarrow> nat list \<Rightarrow> bool" where
  "placed_ok cs placed \<longleftrightarrow> distinct placed \<and> (\<forall>i \<in> set placed. find_named (lname (cs ! i)) cs = Some i)"

lemma placed_ok_Nil [simp]: "placed_ok cs []"
  by (simp add: placed_ok_def)

lemma placed_ok_less: "placed_ok cs placed \<Longrightarrow> i \<in> set placed \<Longrightarrow> i < length cs"
  by (auto simp: placed_ok_def find_named_Some)

lemma map_lname_update: "lname d = lname (cs ! i) \<Longrightarrow> map lname (cs[i := d]) = map lname cs"
  by (cases "i < length cs") (simp_all add: map_update list_update_same_conv list_update_beyond)

lemma placed_ok_step:
  assumes ok: "placed_ok cs placed" and step: "(cs', i) = (case find_named (lname b) cs of
      Some i \<Rightarrow> (cs[i := merge (depth + 1) (cs ! i) b], i) | None \<Rightarrow> (cs @ [b], length cs))"
  shows "placed_ok cs' (if bo \<and> i \<notin> set placed then placed @ [i] else placed)"
proof (cases "find_named (lname b) cs")
  case None
  with step have [simp]: "cs' = cs @ [b]" "i = length cs" by auto
  from ok have "find_named (lname (cs' ! j)) cs' = Some j" if "j \<in> set placed" for j
    using that by (auto simp: placed_ok_def find_named_Some nth_append)
  moreover from None have "find_named (lname b) cs' = Some (length cs)"
    by (auto simp: find_named_Some find_named_None nth_append)
  ultimately show ?thesis using ok by (auto simp: placed_ok_def)
next
  case (Some k)
  with step have [simp]: "cs' = cs[i := merge (depth + 1) (cs ! i) b]" "k = i" by auto
  have same: "map lname cs' = map lname cs" by (simp add: map_lname_update)
  then have fn: "find_named l cs' = find_named l cs" for l by (rule find_named_cong)
  from Some have i: "i < length cs" "lname (cs ! i) = lname b" by (auto simp: find_named_Some)
  have "lname (cs' ! j) = lname (cs ! j)" if "j < length cs" for j
    using that by (cases "j = i") (simp_all add: nth_list_update)
  with ok i Some fn placed_ok_less [OF ok] show ?thesis by (auto simp: placed_ok_def)
qed

lemma placed_ok_loop:
  "placed_ok cs placed \<Longrightarrow> merge_loop depth bo cs placed bs = (cs', placed') \<Longrightarrow> placed_ok cs' placed'"
proof (induction bs arbitrary: cs placed)
  case Nil
  then show ?case by simp
next
  case (Cons b bs)
  let ?next = "\<lambda>i. if bo \<and> i \<notin> set placed then placed @ [i] else placed"
  show ?case
  proof (cases "find_named (lname b) cs")
    case None
    with Cons.prems(2) have "merge_loop depth bo (cs @ [b]) (?next (length cs)) bs = (cs', placed')"
      by simp
    with Cons.IH placed_ok_step [OF Cons.prems(1), of "cs @ [b]" "length cs" b depth bo] None
    show ?thesis by simp
  next
    case (Some i)
    let ?cs = "cs[i := merge (depth + 1) (cs ! i) b]"
    from Some Cons.prems(2) have "merge_loop depth bo ?cs (?next i) bs = (cs', placed')"
      by simp
    with Cons.IH placed_ok_step [OF Cons.prems(1), of ?cs i b depth bo] Some
    show ?thesis by simp
  qed
qed

lemma child_named_map_nth:
  assumes only: "\<And>j. j \<in> set is \<Longrightarrow> lname (cs ! j) = l \<Longrightarrow> j = i"
  shows "child_named l (map (\<lambda>i. cs ! i) is) = (if i \<in> set is \<and> lname (cs ! i) = l then Some (cs ! i) else None)"
proof (cases "child_named l (map (\<lambda>i. cs ! i) is)")
  case None
  then show ?thesis by (auto simp: child_named_None)
next
  case (Some c)
  from child_named_lname [OF Some]
  obtain j where "j \<in> set is" "c = cs ! j" "lname (cs ! j) = l" by auto
  with only [of j] Some show ?thesis by auto
qed

lemma child_named_reorder:
  assumes ok: "placed_ok cs placed"
  shows "child_named l (reorder placed cs) = child_named l cs"
proof (cases "find_named l cs")
  case None
  then have "\<forall>c \<in> set cs. lname c \<noteq> l" by (simp add: find_named_None)
  moreover from ok have "set (reorder placed cs) \<subseteq> set cs"
    by (auto simp: reorder_def dest: placed_ok_less)
  ultimately have "\<forall>c \<in> set (reorder placed cs). lname c \<noteq> l" by blast
  with None show ?thesis by (metis child_named_None find_named_None)
next
  case (Some i)
  then have i: "i < length cs" "lname (cs ! i) = l" "\<And>j. j < i \<Longrightarrow> lname (cs ! j) \<noteq> l"
    by (auto simp: find_named_Some)
  from Some have found: "child_named l cs = Some (cs ! i)" by (simp add: child_named_find)
  have "j = i" if "j \<in> set placed" "lname (cs ! j) = l" for j
    using ok Some that by (auto simp: placed_ok_def)
  note pl = child_named_map_nth [of placed cs l i, OF this]
  show ?thesis
  proof (cases "i \<in> set placed")
    case True
    with pl i(2) found show ?thesis by (simp add: reorder_def child_named_append)
  next
    case False
    let ?f = "\<lambda>is. map (\<lambda>i. cs ! i) (filter (\<lambda>i. i \<notin> set placed) is)"
    have "[0..<length cs] = [0..<i] @ [i..<length cs]"
      using upt_add_eq_append [of 0 i "length cs - i"] i(1) by simp
    with i(1) have split: "[0..<length cs] = [0..<i] @ i # [Suc i..<length cs]"
      by (simp add: upt_conv_Cons)
    have "child_named l (?f [0..<i]) = None"
      using i(3) by (auto simp: child_named_None)
    with False have "child_named l (?f [0..<length cs]) = Some (cs ! i)"
      using i(2) by (simp add: split child_named_append)
    with False pl found show ?thesis
      by (simp add: reorder_def child_named_append)
  qed
qed

lemma merge_child_named:
  "child_named l (kv_children (merge depth (Block n cs) (Block bn bs))) =
     absorb_all depth (child_named l cs) (filter (\<lambda>b. lname b = l) bs)"
proof -
  let ?bo = "depth = 1 \<and> py_lower n \<in> set BASE_ORDER_SECTIONS"
  obtain cs' placed where loop: "merge_loop depth ?bo cs [] bs = (cs', placed)"
    by (cases "merge_loop depth ?bo cs [] bs")
  from placed_ok_loop [OF placed_ok_Nil loop] have "placed_ok cs' placed" .
  moreover from loop have
    "child_named l cs' = absorb_all depth (child_named l cs) (filter (\<lambda>b. lname b = l) bs)"
    using loop_child_named [of l depth ?bo cs "[]" bs] by simp
  ultimately show ?thesis using loop by (simp add: child_named_reorder)
qed

section \<open>Paths, and the derived side winning\<close>

text \<open>
  \<open>lookup\<close> follows the first child of each name, which is how a definition is
  found; \<open>shape\<close> is what a path leads to: nothing, a block, or a value.
\<close>

fun lookup :: "kv \<Rightarrow> string list \<Rightarrow> kv option" where
  "lookup k [] = Some k"
| "lookup k (l # ls) =
     (case child_named l (kv_children k) of None \<Rightarrow> None | Some c \<Rightarrow> lookup c ls)"

primrec node_value :: "kv \<Rightarrow> string option" where
  "node_value (Leaf n v) = Some v"
| "node_value (Block n cs) = None"

definition shape :: "kv \<Rightarrow> string list \<Rightarrow> string option option" where
  "shape k p = map_option node_value (lookup k p)"

lemma shape_simps [simp]:
  "shape k [] = Some (node_value k)"
  "shape k (l # ls) =
     (case child_named l (kv_children k) of None \<Rightarrow> None | Some c \<Rightarrow> shape c ls)"
  by (simp_all add: shape_def split: option.split)

lemma node_value_merge [simp]: "node_value (merge depth t b) = node_value t"
  by (cases t; cases b) (auto simp: split_def Let_def)

lemma absorb_all_append:
  "absorb_all depth x (bs @ cs) = absorb_all depth (absorb_all depth x bs) cs"
proof (induction bs arbitrary: x)
  case Nil
  then show ?case by simp
next
  case (Cons b bs)
  then show ?case by (cases x) simp_all
qed

text \<open>Whatever merging keeps is kept by merging in all the children of a name.\<close>

lemma absorb_all_inv:
  assumes "P c" and "\<And>x b. b \<in> set bs \<Longrightarrow> P x \<Longrightarrow> P (merge (depth + 1) x b)"
  shows "\<exists>c'. absorb_all depth (Some c) bs = Some c' \<and> P c'"
  using assms by (induction bs arbitrary: c) auto

lemma shape_merge_keeps: "shape t p = Some x \<Longrightarrow> shape (merge depth t b) p = Some x"
proof (induction p arbitrary: t b depth)
  case Nil
  then show ?case by simp
next
  case (Cons l ls)
  from Cons.prems obtain n cs c
    where t: "t = Block n cs" and c: "child_named l cs = Some c" "shape c ls = Some x"
    by (cases t) (auto split: option.splits)
  show ?case
  proof (cases b)
    case (Leaf bn bv)
    with t Cons.prems show ?thesis by simp
  next
    case (Block bn bs)
    have "\<exists>c'. absorb_all depth (Some c) (filter (\<lambda>b. lname b = l) bs) = Some c' \<and> shape c' ls = Some x"
      by (rule absorb_all_inv) (use c Cons.IH in auto)
    with t c Block show ?thesis
      by (auto simp: merge_child_named simp del: merge.simps)
  qed
qed

interpretation theater_layers: layering "merge depth" shape for depth
  by unfold_locales (rule shape_merge_keeps)

section \<open>Refinement: merging is laying one tree of paths over another\<close>

text \<open>
  The abstract contract.  A path that exists on the derived side keeps what it
  had; a path below a derived value does not exist; every other path is the
  base's.  The contract speaks of one child per name, so the base is one whose
  names are distinct at every level.
\<close>

definition shadowed :: "(string list \<Rightarrow> string option option) \<Rightarrow> string list \<Rightarrow> bool" where
  "shadowed A p \<longleftrightarrow> list_ex (\<lambda>q. case A q of Some (Some v) \<Rightarrow> True | _ \<Rightarrow> False) (prefixes p)"

definition overlay ::
  "(string list \<Rightarrow> string option option) \<Rightarrow> (string list \<Rightarrow> string option option) \<Rightarrow>
   string list \<Rightarrow> string option option" where
  "overlay A B p = (case A p of Some x \<Rightarrow> Some x | None \<Rightarrow> if shadowed A p then None else B p)"

fun distinct_names :: "kv \<Rightarrow> bool" where
  "distinct_names (Leaf n v) = True"
| "distinct_names (Block n cs) = (distinct (map lname cs) \<and> (\<forall>c \<in> set cs. distinct_names c))"

lemma filter_named_distinct:
  "distinct (map lname bs) \<Longrightarrow>
   filter (\<lambda>b. lname b = l) bs = (case child_named l bs of None \<Rightarrow> [] | Some b \<Rightarrow> [b])"
proof (induction bs)
  case Nil
  then show ?case by simp
next
  case (Cons b bs)
  then have "lname b \<notin> lname ` set bs" by simp
  then have "child_named (lname b) bs = None" by (metis child_named_None image_eqI)
  with Cons show ?case by auto
qed

lemma shadowed_Cons:
  "shadowed (shape t) (l # ls) \<longleftrightarrow>
     \<not> is_block t \<or> (case child_named l (kv_children t) of None \<Rightarrow> False | Some c \<Rightarrow> shadowed (shape c) ls)"
  by (cases t) (auto simp: shadowed_def list_ex_iff split: option.splits)

lemma shape_merge_overlay:
  "distinct_names b \<Longrightarrow> shape (merge depth t b) p = overlay (shape t) (shape b) p"
proof (induction p arbitrary: t b depth)
  case Nil
  then show ?case by (simp add: overlay_def)
next
  case (Cons l ls)
  show ?case
  proof (cases t)
    case (Leaf n v)
    then show ?thesis by (simp add: overlay_def shadowed_Cons)
  next
    case t: (Block n cs)
    show ?thesis
    proof (cases b)
      case (Leaf bn bv)
      with t show ?thesis by (simp add: overlay_def split: option.split)
    next
      case b: (Block bn bs)
      with Cons.prems have fl: "filter (\<lambda>b. lname b = l) bs = (case child_named l bs of None \<Rightarrow> [] | Some b \<Rightarrow> [b])"
        by (simp add: filter_named_distinct)
      have IH: "shape (merge depth c b') ls = overlay (shape c) (shape b') ls"
        if "child_named l bs = Some b'" for depth c b'
        using Cons.prems b that by (auto intro!: Cons.IH dest: child_named_lname)
      show ?thesis
        using t b fl IH
        by (auto simp: merge_child_named overlay_def shadowed_Cons simp del: merge.simps
            split: option.split)
    qed
  qed
qed

section \<open>Reaching a file twice\<close>

text \<open>
  A tree covers another when every node of the other is already there.  Merging
  makes the result cover the base, later merges keep it so, and merging a
  covered tree changes no path.  Repeated keys are allowed as long as a block
  is the first of its name (the \<open>"weapon" "x"\<close> lists of a theater are values).
\<close>

fun covers :: "kv \<Rightarrow> kv \<Rightarrow> bool" where
  "covers x (Leaf n v) = True"
| "covers x (Block n bs) =
     (is_block x \<longrightarrow> (\<forall>b \<in> set bs. case child_named (lname b) (kv_children x) of
                                None \<Rightarrow> False | Some c \<Rightarrow> covers c b))"

fun tidy :: "kv \<Rightarrow> bool" where
  "tidy (Leaf n v) = True"
| "tidy (Block n cs) =
     (\<forall>c \<in> set cs. tidy c \<and> (is_block c \<longrightarrow> child_named (lname c) cs = Some c))"

lemma covers_merge_mono: "covers x b \<Longrightarrow> covers (merge depth x c) b"
proof (induction b arbitrary: x c depth)
  case (Leaf n v)
  then show ?case by simp
next
  case (Block bn bs)
  show ?case
  proof (cases x)
    case (Leaf n v)
    then show ?thesis by simp
  next
    case x: (Block n cs)
    show ?thesis
    proof (cases c)
      case (Leaf cn cv)
      with x Block.prems show ?thesis by simp
    next
      case c: (Block cn ds)
      have "\<exists>e'. child_named (lname b) (kv_children (merge depth x c)) = Some e' \<and> covers e' b"
        if b: "b \<in> set bs" for b
      proof -
        from Block.prems x b obtain e where e: "child_named (lname b) cs = Some e" "covers e b"
          by (auto split: option.splits)
        have "\<exists>e'. absorb_all depth (Some e) (filter (\<lambda>d. lname d = lname b) ds) = Some e' \<and> covers e' b"
          by (rule absorb_all_inv) (use e b Block.IH in auto)
        with x c e show ?thesis by (simp add: merge_child_named del: merge.simps)
      qed
      then show ?thesis by (fastforce simp del: merge.simps split: option.splits)
    qed
  qed
qed

lemma covers_refl: "tidy b \<Longrightarrow> covers b b"
proof (induction b)
  case (Leaf n v)
  then show ?case by simp
next
  case (Block n cs)
  have "\<exists>e. child_named (lname c) cs = Some e \<and> covers e c" if c: "c \<in> set cs" for c
  proof (cases c)
    case (Leaf m v)
    with c show ?thesis
      using child_named_None [of "lname c" cs] by (cases "child_named (lname c) cs") auto
  next
    case (Block m ds)
    with c Block.prems Block.IH [OF c] show ?thesis by auto
  qed
  then show ?case by (fastforce split: option.splits)
qed

lemma covers_merge: "tidy b \<Longrightarrow> covers (merge depth t b) b"
proof (induction b arbitrary: t depth)
  case (Leaf n v)
  then show ?case by simp
next
  case (Block bn bs)
  show ?case
  proof (cases t)
    case (Leaf n v)
    then show ?thesis by simp
  next
    case t: (Block n cs)
    have "\<exists>e. child_named (lname b) (kv_children (merge depth t (Block bn bs))) = Some e \<and> covers e b"
      if b: "b \<in> set bs" for b
    proof -
      from b have "b \<in> set (filter (\<lambda>d. lname d = lname b) bs)" by simp
      then obtain us vs where split: "filter (\<lambda>d. lname d = lname b) bs = us @ b # vs"
        by (meson split_list)
      obtain e where e: "absorb_all depth (child_named (lname b) cs) (us @ [b]) = Some e" "covers e b"
        using Block.IH [OF b] covers_refl [of b] Block.prems b
        by (cases "absorb_all depth (child_named (lname b) cs) us")
           (auto simp: absorb_all_append)
      have "\<exists>e'. absorb_all depth (Some e) vs = Some e' \<and> covers e' b"
        by (rule absorb_all_inv) (use e covers_merge_mono in auto)
      with e split t show ?thesis
        using absorb_all_append [of depth "child_named (lname b) cs" "us @ [b]" vs]
        by (simp add: merge_child_named del: merge.simps)
    qed
    then show ?thesis by (fastforce simp del: merge.simps split: option.splits)
  qed
qed

lemma covers_foldl_merge: "covers x b \<Longrightarrow> covers (foldl (merge depth) x cs) b"
  by (induction cs arbitrary: x) (auto simp: covers_merge_mono)

lemma shape_merge_covered: "covers x b \<Longrightarrow> shape (merge depth x b) p = shape x p"
proof (induction p arbitrary: x b depth)
  case Nil
  then show ?case by simp
next
  case (Cons l ls)
  show ?case
  proof (cases "is_block x \<and> is_block b")
    case False
    then show ?thesis by (cases x; cases b) auto
  next
    case True
    then obtain n cs bn bs where x: "x = Block n cs" and b: "b = Block bn bs"
      by (cases x; cases b) auto
    let ?ms = "filter (\<lambda>d. lname d = l) bs"
    show ?thesis
    proof (cases ?ms)
      case Nil
      with x b show ?thesis by (simp add: merge_child_named del: merge.simps)
    next
      case (Cons m ms)
      then have "m \<in> set ?ms" by simp
      then have "m \<in> set bs" "lname m = l" by auto
      with Cons.prems x b obtain e where e: "child_named l cs = Some e"
        by (fastforce split: option.splits)
      have cov: "covers e d" if "d \<in> set ?ms" for d
        using Cons.prems x b e that by (auto split: option.splits)
      have "\<exists>e'. absorb_all depth (Some e) ?ms = Some e' \<and>
          shape e' ls = shape e ls \<and> (\<forall>d \<in> set ?ms. covers e' d)"
        by (rule absorb_all_inv) (use cov Cons.IH covers_merge_mono in auto)
      with x b e show ?thesis by (auto simp: merge_child_named simp del: merge.simps)
    qed
  qed
qed

section \<open>The order of the children\<close>

text \<open>
  The names of a list that were not seen before it, each at its first place.
\<close>

fun new_names :: "string list \<Rightarrow> string list \<Rightarrow> string list" where
  "new_names seen [] = []"
| "new_names seen (l # ls) =
     (if l \<in> set seen then new_names seen ls else l # new_names (seen @ [l]) ls)"

lemma new_names_distinct_eq: "distinct ls \<Longrightarrow> set ls \<inter> set seen = {} \<Longrightarrow> new_names seen ls = ls"
  by (induction ls arbitrary: seen) auto

lemma set_new_names: "set (new_names seen ls) = set ls - set seen"
  by (induction ls arbitrary: seen) auto

lemma distinct_new_names: "distinct seen \<Longrightarrow> distinct (seen @ new_names seen ls)"
proof (induction ls arbitrary: seen)
  case Nil
  then show ?case by simp
next
  case (Cons l ls)
  then show ?case using Cons.IH [of "seen @ [l]"] by auto
qed

lemma find_named_in_names: "find_named l cs = None \<longleftrightarrow> l \<notin> set (map lname cs)"
  by (auto simp: find_named_None)

lemma loop_names:
  "map lname (fst (merge_loop depth bo cs placed bs)) =
     map lname cs @ new_names (map lname cs) (map lname bs)"
proof (induction bs arbitrary: cs placed)
  case Nil
  then show ?case by simp
next
  case (Cons b bs)
  show ?case
  proof (cases "find_named (lname b) cs")
    case None
    then have "lname b \<notin> set (map lname cs)" by (simp only: find_named_in_names not_False_eq_True)
    with None Cons show ?thesis by simp
  next
    case (Some i)
    then have "lname (merge (Suc depth) (cs ! i) b) = lname (cs ! i)" by simp
    note names = map_lname_update [OF this]
    from Some have "lname b \<in> set (map lname cs)" by (metis find_named_in_names option.distinct(1))
    with Some Cons names show ?thesis by simp
  qed
qed

lemma placed_names_iff:
  assumes "placed_ok cs placed" and "find_named l cs = Some i"
  shows "i \<in> set placed \<longleftrightarrow> l \<in> set (map (\<lambda>i. lname (cs ! i)) placed)"
proof
  assume "i \<in> set placed"
  with assms show "l \<in> set (map (\<lambda>i. lname (cs ! i)) placed)" by (force simp: find_named_Some)
next
  assume "l \<in> set (map (\<lambda>i. lname (cs ! i)) placed)"
  then obtain j where "j \<in> set placed" "lname (cs ! j) = l" by auto
  with assms show "i \<in> set placed" by (auto simp: placed_ok_def)
qed

lemma loop_placed_names:
  "placed_ok cs placed \<Longrightarrow> merge_loop depth True cs placed bs = (cs', placed') \<Longrightarrow>
   map (\<lambda>i. lname (cs' ! i)) placed' =
     map (\<lambda>i. lname (cs ! i)) placed @ new_names (map (\<lambda>i. lname (cs ! i)) placed) (map lname bs)"
proof (induction bs arbitrary: cs placed)
  case Nil
  then show ?case by simp
next
  case (Cons b bs)
  let ?next = "\<lambda>i. if i \<notin> set placed then placed @ [i] else placed"
  show ?case
  proof (cases "find_named (lname b) cs")
    case None
    let ?cs = "cs @ [b]"
    from None Cons.prems(2) have loop: "merge_loop depth True ?cs (?next (length cs)) bs = (cs', placed')"
      by simp
    from placed_ok_step [OF Cons.prems(1), of ?cs "length cs" b depth True] None
    have ok: "placed_ok ?cs (?next (length cs))" by simp
    have fresh: "length cs \<notin> set placed" using placed_ok_less [OF Cons.prems(1)] by blast
    have names: "map (\<lambda>i. lname (?cs ! i)) placed = map (\<lambda>i. lname (cs ! i)) placed"
      using placed_ok_less [OF Cons.prems(1)] by (auto simp: nth_append)
    have "lname b \<notin> set (map (\<lambda>i. lname (cs ! i)) placed)"
      using None placed_ok_less [OF Cons.prems(1)] by (force simp: find_named_None)
    with Cons.IH [OF ok loop] fresh names show ?thesis by simp
  next
    case (Some i)
    let ?cs = "cs[i := merge (depth + 1) (cs ! i) b]"
    from Some Cons.prems(2) have loop: "merge_loop depth True ?cs (?next i) bs = (cs', placed')"
      by simp
    from placed_ok_step [OF Cons.prems(1), of ?cs i b depth True] Some
    have ok: "placed_ok ?cs (?next i)" by simp
    have "lname (?cs ! j) = lname (cs ! j)" if "j < length cs" for j
      using that by (cases "j = i") simp_all
    then have names: "map (\<lambda>i. lname (?cs ! i)) placed = map (\<lambda>i. lname (cs ! i)) placed"
      "lname (?cs ! i) = lname b"
      using placed_ok_less [OF Cons.prems(1)] Some by (auto simp: find_named_Some)
    with Cons.IH [OF ok loop] placed_names_iff [OF Cons.prems(1) Some] show ?thesis
      by (simp del: map_eq_conv)
  qed
qed

text \<open>Outside the base-ordered sections: the derived children, then the new names of the base.\<close>

lemma merge_names_engine_order:
  assumes "depth \<noteq> 1 \<or> py_lower n \<notin> set BASE_ORDER_SECTIONS"
  shows "map lname (kv_children (merge depth (Block n cs) (Block bn bs))) =
    map lname cs @ new_names (map lname cs) (map lname bs)"
proof -
  obtain cs' placed where loop: "merge_loop depth False cs [] bs = (cs', placed)"
    by (cases "merge_loop depth False cs [] bs")
  with loop_names [of depth False cs "[]" bs]
  have "map lname cs' = map lname cs @ new_names (map lname cs) (map lname bs)" by simp
  with assms loop show ?thesis by auto
qed

text \<open>In a base-ordered section: the base's names first, in the base's order.\<close>

lemma merge_names_base_order:
  assumes sec: "py_lower n \<in> set BASE_ORDER_SECTIONS"
    and dcs: "distinct (map lname cs)" and dbs: "distinct (map lname bs)"
  shows "map lname (kv_children (merge 1 (Block n cs) (Block bn bs))) =
    map lname bs @ filter (\<lambda>l. l \<notin> set (map lname bs)) (map lname cs)"
proof -
  obtain cs' placed where loop: "merge_loop 1 True cs [] bs = (cs', placed)"
    by (cases "merge_loop 1 True cs [] bs")
  have ok: "placed_ok cs' placed" using placed_ok_loop [OF placed_ok_Nil loop] .
  have names: "map lname cs' = map lname cs @ new_names (map lname cs) (map lname bs)"
    using loop_names [of 1 True cs "[]" bs] loop by simp
  have dcs': "distinct (map lname cs')"
    using distinct_new_names [OF dcs, of "map lname bs"] names by simp
  have placed: "map (\<lambda>i. lname (cs' ! i)) placed = map lname bs"
    using loop_placed_names [OF placed_ok_Nil loop] dbs by (simp add: new_names_distinct_eq)
  have mem: "i \<in> set placed \<longleftrightarrow> lname (cs' ! i) \<in> set (map lname bs)" if "i < length cs'" for i
  proof -
    have "find_named (lname (cs' ! i)) cs' = Some i"
      using that dcs' by (auto simp: find_named_Some distinct_conv_nth)
    from placed_names_iff [OF ok this] placed show ?thesis by simp
  qed
  have "map (\<lambda>i. lname (cs' ! i)) (filter (\<lambda>i. i \<notin> set placed) [0..<length cs']) =
      map (\<lambda>i. lname (cs' ! i)) (filter (\<lambda>i. lname (cs' ! i) \<notin> set (map lname bs)) [0..<length cs'])"
    by (rule arg_cong [where f = "map _"], rule filter_cong) (use mem in auto)
  also have "\<dots> = filter (\<lambda>l. l \<notin> set (map lname bs)) (map (\<lambda>i. lname (cs' ! i)) [0..<length cs'])"
    by (simp add: filter_map o_def)
  also have "map (\<lambda>i. lname (cs' ! i)) [0..<length cs'] = map lname cs'"
    by (rule nth_equalityI) simp_all
  also have "filter (\<lambda>l. l \<notin> set (map lname bs)) (map lname cs') =
      filter (\<lambda>l. l \<notin> set (map lname bs)) (map lname cs)"
    by (subst names) (simp add: filter_empty_conv set_new_names del: set_map)
  finally have "map lname (reorder placed cs') =
      map lname bs @ filter (\<lambda>l. l \<notin> set (map lname bs)) (map lname cs)"
    using placed by (simp add: reorder_def o_def)
  with sec loop show ?thesis by simp
qed

section \<open>Properties\<close>

text \<open>
  The derived side always wins: whatever a path leads to on the derived
  side, a value or a block, it leads to the same after merging any base in.
\<close>
lemma merge_derived_wins:
  assumes "shape t p = Some x"
  shows "shape (merge depth t b) p = Some x"
  using assms by (rule theater_layers.lay_keeps)

text \<open>
  C1. Refinement: for a base that names each child once, merging is laying the
  derived tree of paths over the base's.  Derived paths keep what they had,
  paths below a derived value do not exist, and all others are the base's, in
  the base-ordered sections as everywhere.
\<close>
theorem merge_refines_overlay:
  assumes "distinct_names b"
  shows "shape (merge depth t b) p = overlay (shape t) (shape b) p"
  using assms by (rule shape_merge_overlay)

theorem merge_refines_overlay_witness:
  "shape (merge 0 (Block ''theater'' [Block ''ammo'' []])
       (Block ''theater'' [Block ''AMMO'' [Leaf ''a'' ''1'']])) [''ammo'', ''a''] =
     overlay (shape (Block ''theater'' [Block ''ammo'' []]))
       (shape (Block ''theater'' [Block ''AMMO'' [Leaf ''a'' ''1'']])) [''ammo'', ''a'']"
  by (rule merge_refines_overlay) code_simp

text \<open>
  Diamonds: a file that was merged in once, with any files merged in after
  it, adds nothing when it is reached and merged in again.  No path changes.
\<close>
lemma merge_diamond_adds_nothing:
  assumes "tidy d"
  shows "shape (merge depth (foldl (merge depth) (merge depth t d) others) d) p =
    shape (foldl (merge depth) (merge depth t d) others) p"
  using assms by (intro shape_merge_covered covers_foldl_merge covers_merge)

text \<open>
  Item ids: in a base-ordered section the definitions of the base keep
  exactly their positions and the ones only the derived side has follow, in
  their own order, so restating an upgrade does not move it.
\<close>
lemma merge_keeps_base_positions:
  assumes "py_lower n \<in> set BASE_ORDER_SECTIONS"
    and "distinct (map lname cs)" and "distinct (map lname bs)"
  shows "map lname (kv_children (merge 1 (Block n cs) (Block bn bs))) =
    map lname bs @ filter (\<lambda>l. l \<notin> set (map lname bs)) (map lname cs)"
  using assms by (rule merge_names_base_order)

text \<open>
  C2. Everywhere else the order is the engine's: the derived children in their
  order, then the names only the base has, each once, in the base's order.
\<close>
theorem merge_engine_order:
  assumes "depth \<noteq> 1 \<or> py_lower n \<notin> set BASE_ORDER_SECTIONS"
  shows "map lname (kv_children (merge depth (Block n cs) (Block bn bs))) =
    map lname cs @ new_names (map lname cs) (map lname bs)"
  using assms by (rule merge_names_engine_order)

theorem merge_engine_order_witness:
  "map lname (kv_children (merge 1 (Block ''ammo'' [Block ''x'' []])
       (Block ''ammo'' [Block ''a'' [], Block ''X'' []]))) =
     map lname [Block ''x'' []] @ new_names (map lname [Block ''x'' []])
       (map lname [Block ''a'' [], Block ''X'' []])"
  by (rule merge_engine_order) code_simp

text \<open>
  A repeated key the derived block leaves out does not survive: of the
  base's list only its first entry is appended, because the second then matches
  it.  Only a block that is absent on the derived side is inherited whole.
\<close>
lemma merge_collapses_repeated_keys:
  "merge (depth + 2) (Block n []) (Block bn [Leaf k u, Leaf k v]) = Block n [Leaf k u]
   \<and> merge (depth + 2) (Block n []) (Block bn [Block m [Leaf k u, Leaf k v]]) =
       Block n [Block m [Leaf k u, Leaf k v]]"
  by simp

end
