(* ===== verification/TheaterLoad.thy ===== *)
theory TheaterLoad
  imports TheaterMerge
begin

text \<open>
  \<open>Loader\<close> of \<open>tools/theater-build/build.py\<close>: find a theater file, parse it,
  and merge in every file it \<open>#base\<close>s, each with its own chain.
\<close>

section \<open>Finding and splitting a file\<close>

text \<open>
  The disk is a map from the path of a file to its text: \<open>os.path.isfile\<close> is
  whether the path is mapped.
\<close>

type_synonym disk = "string \<Rightarrow> string option"

fun resolve_in :: "disk \<Rightarrow> string list \<Rightarrow> string \<Rightarrow> (string \<times> string) option" where
  "resolve_in disk [] name = None"
| "resolve_in disk (d # ds) name =
     (case disk (py_join d name) of
        Some text \<Rightarrow> Some (py_join d name, text)
      | None \<Rightarrow> resolve_in disk ds name)"

definition resolve :: "disk \<Rightarrow> string list \<Rightarrow> string \<Rightarrow> kv_error + (string \<times> string)" where
  "resolve disk dirs name =
     (case resolve_in disk dirs name of
        Some pt \<Rightarrow> Inr pt
      | None \<Rightarrow> Inl (BaseNotFound name dirs))"

definition is_base_key :: "kv \<Rightarrow> bool" where
  "is_base_key k \<longleftrightarrow> \<not> is_block k \<and> lname k = ''#base''"

text \<open>
  The three comprehensions of \<open>load\<close> over the top level of a file, and the two
  checks on them.
\<close>

definition split_top :: "string \<Rightarrow> kv list \<Rightarrow> kv_error + (string list \<times> kv)" where
  "split_top path tops =
     (let bases = [v. Leaf n v \<leftarrow> filter is_base_key tops];
          blocks = filter is_block tops;
          stray = [kv_name k. k \<leftarrow> tops, \<not> is_block k \<and> lname k \<noteq> ''#base'']
      in if stray \<noteq> [] then Inl (StrayKeys path stray)
         else if length blocks \<noteq> 1 then Inl (TopLevelBlocks path (length blocks))
         else Inr (bases, hd blocks))"

definition read_theater :: "disk \<Rightarrow> string list \<Rightarrow> string \<Rightarrow> kv_error + (string \<times> string list \<times> kv)" where
  "read_theater disk dirs name =
     rbind (resolve disk dirs name) (\<lambda>(path, text).
       rbind (parse_text path text) (\<lambda>tops.
         rbind (split_top path tops) (\<lambda>(bases, root). Inr (path, bases, root))))"

section \<open>Loading\<close>

text \<open>
  \<open>load\<close> recurses once per \<open>#base\<close>; nothing bounds the chain, so a file that
  bases itself recurses until Python raises \<open>RecursionError\<close>.  The fuel bounds
  the depth of the chain.  \<open>used\<close> is the loader's set of files read.
\<close>

function load :: "nat \<Rightarrow> disk \<Rightarrow> string list \<Rightarrow> string list \<Rightarrow> string \<Rightarrow> kv_error + (kv \<times> string list)"
  and load_bases :: "nat \<Rightarrow> disk \<Rightarrow> string list \<Rightarrow> string list \<Rightarrow> string \<Rightarrow> kv \<Rightarrow> string list \<Rightarrow>
    kv_error + (kv \<times> string list)" where
  "load 0 disk dirs used name = Inl RecursionLimit"
| "load (Suc fuel) disk dirs used name =
     rbind (read_theater disk dirs name) (\<lambda>(path, bases, root).
       load_bases fuel disk dirs (List.insert path used) path root bases)"
| "load_bases fuel disk dirs used path root [] = Inr (root, used)"
| "load_bases fuel disk dirs used path root (b # bs) =
     rbind (load fuel disk dirs used b) (\<lambda>(base, used').
       if lname base \<noteq> lname root
       then Inl (BaseNameMismatch path b (kv_name base) (kv_name root))
       else load_bases fuel disk dirs used' path (merge 0 root base) bs)"
  by pat_completeness auto
termination
  by (relation "measures [\<lambda>x. case x of Inl (f, _) \<Rightarrow> 2 * f | Inr (f, _) \<Rightarrow> Suc (2 * f),
                          \<lambda>x. case x of Inl _ \<Rightarrow> 0 | Inr (_, _, _, _, _, _, bs) \<Rightarrow> length bs]")
     auto

text \<open>
  The declarative counterpart, without fuel: what it means for a file to load
  to a tree.
\<close>

inductive loads :: "disk \<Rightarrow> string list \<Rightarrow> string \<Rightarrow> kv \<Rightarrow> bool"
  and loads_bases :: "disk \<Rightarrow> string list \<Rightarrow> kv \<Rightarrow> string list \<Rightarrow> kv \<Rightarrow> bool"
  for disk dirs where
  loads: "read_theater disk dirs name = Inr (path, bases, root) \<Longrightarrow>
     loads_bases disk dirs root bases result \<Longrightarrow> loads disk dirs name result"
| no_base: "loads_bases disk dirs root [] root"
| one_base: "loads disk dirs b base \<Longrightarrow> lname base = lname root \<Longrightarrow>
     loads_bases disk dirs (merge 0 root base) bs result \<Longrightarrow>
     loads_bases disk dirs root (b # bs) result"

inductive_cases loadsE: "loads disk dirs name result"
inductive_cases loads_bases_ConsE: "loads_bases disk dirs root (b # bs) result"
inductive_simps loads_bases_simps [simp]:
  "loads_bases disk dirs root [] result"

lemma load_sound:
  "load fuel disk dirs used name = Inr (result, used') \<Longrightarrow> loads disk dirs name result"
  "load_bases fuel disk dirs used path root bases = Inr (result, used') \<Longrightarrow>
   loads_bases disk dirs root bases result"
proof (induction fuel disk dirs used name and fuel disk dirs used path root bases
    arbitrary: result used' and result used' rule: load_load_bases.induct)
  case (2 fuel disk dirs used name)
  then show ?case by (fastforce simp: result_simps intro: loads_loads_bases.intros)
next
  case (4 fuel disk dirs used path root b bs)
  then show ?case
    by (fastforce simp: result_simps split: if_splits intro: loads_loads_bases.intros)
qed (auto intro: loads_loads_bases.intros)

text \<open>More fuel never changes a result.\<close>

lemma load_mono:
  "load fuel disk dirs used name = Inr r \<Longrightarrow> load (fuel + k) disk dirs used name = Inr r"
  "load_bases fuel disk dirs used path root bases = Inr r \<Longrightarrow>
   load_bases (fuel + k) disk dirs used path root bases = Inr r"
proof (induction fuel disk dirs used name and fuel disk dirs used path root bases
    arbitrary: r and r rule: load_load_bases.induct)
  case (4 fuel disk dirs used path root b bs)
  then obtain base u where "load fuel disk dirs used b = Inr (base, u)" "lname base = lname root"
    "load_bases fuel disk dirs u path (merge 0 root base) bs = Inr r"
    by (auto simp: result_simps split: if_splits)
  with 4 show ?case by (cases r) auto
qed (auto simp: result_simps)

lemma load_mono_le:
  "load fuel disk dirs used name = Inr r \<Longrightarrow> fuel \<le> fuel' \<Longrightarrow> load fuel' disk dirs used name = Inr r"
  "load_bases fuel disk dirs used path root bases = Inr r \<Longrightarrow> fuel \<le> fuel' \<Longrightarrow>
   load_bases fuel' disk dirs used path root bases = Inr r"
  using load_mono(1) [of fuel disk dirs used name r "fuel' - fuel"]
    load_mono(2) [of fuel disk dirs used path root bases r "fuel' - fuel"] by simp_all

lemma load_complete:
  "loads disk dirs name result \<Longrightarrow> \<forall>used. \<exists>fuel used'. load fuel disk dirs used name = Inr (result, used')"
  "loads_bases disk dirs root bases result \<Longrightarrow>
   \<forall>used path. \<exists>fuel used'. load_bases fuel disk dirs used path root bases = Inr (result, used')"
proof (induction rule: loads_loads_bases.inducts)
  case (loads name path bases root result)
  show ?case
  proof
    fix used
    from loads(3) obtain fuel used'
      where "load_bases fuel disk dirs (List.insert path used) path root bases = Inr (result, used')"
      by blast
    with loads(1) have "load (Suc fuel) disk dirs used name = Inr (result, used')" by simp
    then show "\<exists>fuel used'. load fuel disk dirs used name = Inr (result, used')" by blast
  qed
next
  case (no_base root)
  show ?case by simp
next
  case (one_base b base root bs result)
  show ?case
  proof (intro allI)
    fix used path
    from one_base(2) obtain f1 u1 where f1: "load f1 disk dirs used b = Inr (base, u1)" by blast
    from one_base(4) obtain f2 u2
      where f2: "load_bases f2 disk dirs u1 path (merge 0 root base) bs = Inr (result, u2)" by blast
    from f1 have "load (max f1 f2) disk dirs used b = Inr (base, u1)" by (rule load_mono_le(1)) simp
    moreover from f2 have "load_bases (max f1 f2) disk dirs u1 path (merge 0 root base) bs = Inr (result, u2)"
      by (rule load_mono_le(2)) simp
    ultimately have "load_bases (max f1 f2) disk dirs used path root (b # bs) = Inr (result, u2)"
      using one_base by simp
    then show "\<exists>fuel used'. load_bases fuel disk dirs used path root (b # bs) = Inr (result, used')"
      by blast
  qed
qed

lemma load_iff_loads:
  "(\<exists>fuel used'. load fuel disk dirs used name = Inr (result, used')) \<longleftrightarrow> loads disk dirs name result"
  using load_sound(1) load_complete(1) by blast

section \<open>Termination\<close>

text \<open>The names a file bases itself on, when it is found and well formed.\<close>

definition bases_of :: "disk \<Rightarrow> string list \<Rightarrow> string \<Rightarrow> string list" where
  "bases_of disk dirs name =
     (case read_theater disk dirs name of Inr (path, bases, root) \<Rightarrow> bases | Inl e \<Rightarrow> [])"

lemma load_bases_enough:
  "(\<And>b used. b \<in> set bases \<Longrightarrow> load fuel disk dirs used b \<noteq> Inl RecursionLimit) \<Longrightarrow>
   load_bases fuel disk dirs used path root bases \<noteq> Inl RecursionLimit"
proof (induction bases arbitrary: used root)
  case Nil
  then show ?case by simp
next
  case (Cons b bs)
  from Cons.prems [of b used] have "load fuel disk dirs used b \<noteq> Inl RecursionLimit" by simp
  with Cons show ?case
    by (auto simp: result_simps split: if_splits)
qed

text \<open>Reading a file never runs out of depth; only the chain of files does.\<close>

primrec stream_error :: "tstream \<Rightarrow> kv_error option" where
  "stream_error TEnd = None"
| "stream_error (TFail e) = Some e"
| "stream_error (TNext t ts) = stream_error ts"

lemma stream_error_tokens: "stream_error (tokens path text line) \<noteq> Some RecursionLimit"
proof (induction path "text" line rule: tokens.induct)
  case (1 path line)
  show ?case by simp
next
  case (2 path c cs line)
  then show ?case by (simp add: tokens.simps(2) Let_def del: prefix_code)
qed

lemma stream_error_parse:
  "parse_children path closing ts = Inr (out, ts') \<Longrightarrow> stream_error ts' = stream_error ts"
  by (induction path closing ts arbitrary: out ts' rule: parse_children.induct)
     (fastforce simp: result_simps split: if_splits)+

lemma parse_children_error:
  "parse_children path closing ts = Inl RecursionLimit \<Longrightarrow> stream_error ts = Some RecursionLimit"
proof (induction path closing ts rule: parse_children.induct)
  case (9 path closing key line l ts)
  then show ?case by (fastforce simp: result_simps dest: stream_error_parse)
qed (auto simp: result_simps split: if_splits)

lemma read_theater_no_limit: "read_theater disk dirs name \<noteq> Inl RecursionLimit"
  using parse_children_error stream_error_tokens
  by (fastforce simp: read_theater_def parse_text_def resolve_def split_top_def Let_def
      result_simps split: option.splits if_splits)

text \<open>A ranking of the file names that every \<open>#base\<close> decreases bounds the fuel.\<close>

lemma load_enough_fuel:
  assumes rank: "\<And>f b. b \<in> set (bases_of disk dirs f) \<Longrightarrow> rank b < rank f"
  shows "rank name < fuel \<Longrightarrow> load fuel disk dirs used name \<noteq> Inl RecursionLimit"
proof (induction fuel arbitrary: name used)
  case 0
  then show ?case by simp
next
  case (Suc fuel)
  show ?case
  proof (cases "read_theater disk dirs name")
    case (Inl e)
    then show ?thesis using read_theater_no_limit by auto
  next
    case (Inr t)
    obtain path bases root where t: "t = (path, bases, root)" by (cases t)
    have "load fuel disk dirs used' b \<noteq> Inl RecursionLimit" if "b \<in> set bases" for b used'
    proof (rule Suc.IH)
      from that Inr t have "b \<in> set (bases_of disk dirs name)" by (simp add: bases_of_def)
      with rank Suc.prems show "rank b < fuel" by fastforce
    qed
    then have "load_bases fuel disk dirs (List.insert path used) path root bases \<noteq> Inl RecursionLimit"
      by (rule load_bases_enough)
    with Inr t show ?thesis by simp
  qed
qed

lemma self_base_never_loads:
  assumes "read_theater disk dirs name = Inr (path, name # bs, root)"
  shows "load fuel disk dirs used name = Inl RecursionLimit"
  using assms by (induction fuel arbitrary: used) simp_all

section \<open>What a loaded theater is\<close>

lemma loop_keeps:
  assumes step: "\<And>b t. b \<in> B \<Longrightarrow> P t \<Longrightarrow> P (merge (Suc depth) t b)" and base: "\<forall>b \<in> B. P b"
  shows "set bs \<subseteq> B \<Longrightarrow> \<forall>c \<in> set cs. P c \<Longrightarrow>
    \<forall>c \<in> set (fst (merge_loop depth bo cs placed bs)). P c"
proof (induction bs arbitrary: cs placed)
  case Nil
  then show ?case by simp
next
  case (Cons b bs)
  then have bs: "set bs \<subseteq> B" and b: "b \<in> B" by auto
  show ?case
  proof (cases "find_named (lname b) cs")
    case None
    have "\<forall>c \<in> set (cs @ [b]). P c" using Cons.prems(2) base b by simp
    note Cons.IH [OF bs this]
    with None show ?thesis by simp
  next
    case (Some i)
    then have "i < length cs" by (simp add: find_named_Some)
    with Cons.prems(2) have "P (merge (Suc depth) (cs ! i) b)" using step b by simp
    with Cons.prems(2) have "\<forall>c \<in> set (cs[i := merge (Suc depth) (cs ! i) b]). P c"
      by (auto dest!: set_update_subset_insert [THEN subsetD])
    note Cons.IH [OF bs this]
    with Some show ?thesis by simp
  qed
qed

lemma set_reorder: "placed_ok cs placed \<Longrightarrow> set (reorder placed cs) \<subseteq> set cs"
  by (auto simp: reorder_def dest: placed_ok_less)

lemma merge_children_subset:
  "set (kv_children (merge depth (Block n cs) (Block bn bs))) \<subseteq>
     set (fst (merge_loop depth (depth = 1 \<and> py_lower n \<in> set BASE_ORDER_SECTIONS) cs [] bs))"
proof -
  let ?bo = "depth = 1 \<and> py_lower n \<in> set BASE_ORDER_SECTIONS"
  obtain cs' placed where loop: "merge_loop depth ?bo cs [] bs = (cs', placed)"
    by (cases "merge_loop depth ?bo cs [] bs")
  with set_reorder [OF placed_ok_loop [OF placed_ok_Nil loop]] show ?thesis by auto
qed

lemma merge_quotable: "quotable t \<Longrightarrow> quotable b \<Longrightarrow> quotable (merge depth t b)"
proof (induction b arbitrary: t depth)
  case (Leaf n v)
  then show ?case by (cases t) auto
next
  case (Block bn bs)
  show ?case
  proof (cases t)
    case (Leaf n v)
    with Block.prems show ?thesis by simp
  next
    case t: (Block n cs)
    let ?m = "merge depth t (Block bn bs)"
    have "\<forall>c \<in> set (fst (merge_loop depth bo cs [] bs)). quotable c" for bo
      by (rule loop_keeps [where B = "set bs"]) (use Block t in auto)
    with merge_children_subset [of depth n cs bn bs] t
    have "\<forall>c \<in> set (kv_children ?m). quotable c" by blast
    moreover have "dquote \<notin> set (kv_name ?m)" using Block.prems(1) t by (simp del: merge.simps)
    moreover have "is_block ?m" using t by (simp del: merge.simps)
    ultimately show ?thesis by (cases ?m) (auto simp del: merge.simps)
  qed
qed

lemma split_top_Inr:
  "split_top path tops = Inr (bases, root) \<Longrightarrow> root \<in> set tops \<and> is_block root"
  by (auto simp: split_top_def Let_def length_Suc_conv filter_eq_Cons_iff split: if_splits)

lemma read_theater_root:
  "read_theater disk dirs name = Inr (path, bases, root) \<Longrightarrow> quotable root \<and> is_block root"
  using parse_text_quotable split_top_Inr
  by (fastforce simp: read_theater_def result_simps)

lemma loads_quotable:
  "loads disk dirs name result \<Longrightarrow> quotable result \<and> is_block result"
  "loads_bases disk dirs root bases result \<Longrightarrow>
   quotable root \<and> is_block root \<longrightarrow> quotable result \<and> is_block result"
  by (induction rule: loads_loads_bases.inducts)
     (auto simp: merge_quotable dest: read_theater_root)

text \<open>
  The result is the file's own block with the loaded bases laid under it, in
  the order they are listed.
\<close>

lemma loads_bases_foldl:
  "loads_bases disk dirs root bases result \<Longrightarrow>
   \<exists>trees. list_all2 (loads disk dirs) bases trees \<and> result = foldl (merge 0) root trees"
proof (induction bases arbitrary: root)
  case Nil
  then show ?case by simp
next
  case (Cons b bs)
  then obtain base where "loads disk dirs b base"
    and rest: "loads_bases disk dirs (merge 0 root base) bs result"
    by (auto elim: loads_bases_ConsE)
  moreover from Cons.IH [OF rest] obtain trees
    where "list_all2 (loads disk dirs) bs trees" "result = foldl (merge 0) (merge 0 root base) trees"
    by blast
  ultimately show ?case by (intro exI [of _ "base # trees"]) simp
qed

lemma loads_keeps_own:
  assumes "loads disk dirs name result" and "read_theater disk dirs name = Inr (path, bases, root)"
    and "shape root p = Some x"
  shows "shape result p = Some x"
proof -
  from assms(1,2) have "loads_bases disk dirs root bases result" by (auto elim: loadsE)
  from loads_bases_foldl [OF this] obtain trees where "result = foldl (merge 0) root trees" by blast
  with assms(3) show ?thesis by (simp add: theater_layers.fold_keeps)
qed

section \<open>Properties\<close>

text \<open>
  C6. Loading is what it declares: with enough fuel \<open>load\<close> returns a tree
  exactly when the file and, recursively, every file it bases itself on can be
  read, their top-level blocks have the same name, and the tree is the file's
  block with the loaded bases merged in, in the order listed.
\<close>
theorem load_iff_declared:
  "(\<exists>fuel used'. load fuel disk dirs used name = Inr (result, used')) \<longleftrightarrow> loads disk dirs name result"
  by (rule load_iff_loads)

text \<open>
  C7. Loading terminates on every acyclic set of files: if a rank decreases
  along every \<open>#base\<close>, fuel above the rank of a file never runs out.
\<close>
theorem load_terminates_if_acyclic:
  assumes "\<And>f b. b \<in> set (bases_of disk dirs f) \<Longrightarrow> rank b < rank f" and "rank name < fuel"
  shows "load fuel disk dirs used name \<noteq> Inl RecursionLimit"
  using assms by (rule load_enough_fuel)

definition two_files :: disk where
  "two_files = map_of [(''s/x'', ''#base y t { a b }''), (''s/y'', ''t { A z c d }'')]"

lemma two_files_bases: "b \<in> set (bases_of two_files [''s''] f) \<Longrightarrow> f = ''x'' \<and> b = ''y''"
proof (cases "f = ''x'' \<or> f = ''y''")
  case True
  assume "b \<in> set (bases_of two_files [''s''] f)"
  moreover have "bases_of two_files [''s''] ''x'' = [''y'']" "bases_of two_files [''s''] ''y'' = []" by code_simp+
  ultimately show ?thesis using True by auto
next
  case False
  then have "two_files (py_join ''s'' f) = None" by (auto simp: two_files_def py_join_def)
  then have "bases_of two_files [''s''] f = []" by (simp add: bases_of_def read_theater_def resolve_def)
  then show "b \<in> set (bases_of two_files [''s''] f) \<Longrightarrow> f = ''x'' \<and> b = ''y''" by simp
qed

theorem load_terminates_if_acyclic_witness:
  "load 2 two_files [''s''] [] ''x'' \<noteq> Inl RecursionLimit"
  by (rule load_terminates_if_acyclic [of two_files "[''s'']" "\<lambda>f. if f = ''x'' then 1 else 0"])
     (auto dest: two_files_bases)

text \<open>
  A theater's own declarations survive its whole \<open>#base\<close> chain: what a path
  leads to in the file itself it leads to in the loaded theater.
\<close>
lemma load_keeps_own_declarations:
  assumes "load fuel disk dirs used name = Inr (result, used')"
    and "read_theater disk dirs name = Inr (path, bases, root)" and "shape root p = Some x"
  shows "shape result p = Some x"
  using loads_keeps_own [OF load_sound(1) [OF assms(1)] assms(2,3)] .

end
