(* ===== verification/TheaterOrphans.thy ===== *)
theory TheaterOrphans
  imports TheaterLoad
begin

text \<open>
  \<open>drop_orphan_attachments\<close> of \<open>tools/theater-build/build.py\<close>: an attachment
  whose \<open>weapons\<close> list names no registered weapon would be drawn on every
  weapon, so the build removes it and reports it.
\<close>

section \<open>Lookups and the registered weapons\<close>

definition ATTACHMENT_SECTIONS :: "string list" where
  "ATTACHMENT_SECTIONS = [''viewmodel_attachments'', ''world_attachments'']"

definition child :: "kv \<Rightarrow> string \<Rightarrow> kv option" where
  "child k name = child_named (py_lower name) (kv_children k)"

definition is_base :: "kv \<Rightarrow> bool" where
  "is_base k =
     (case child k ''IsBase'' of Some (Leaf n v) \<Rightarrow> v \<notin> {''0'', ''''} | _ \<Rightarrow> False)"

text \<open>
  The set comprehension over \<open>weapons.children\<close>: a \<open>weapons\<close> that is a value
  has no children to iterate over.
\<close>

definition registered :: "kv \<Rightarrow> kv_error + string list" where
  "registered root =
     (case child root ''weapons'' of
        None \<Rightarrow> Inr []
      | Some (Leaf n v) \<Rightarrow> Inl NoneNotIterable
      | Some (Block n ws) \<Rightarrow> Inr (map lname (filter (\<lambda>w. \<not> is_base w) ws)))"

definition weapon_names :: "kv \<Rightarrow> string list" where
  "weapon_names att =
     (if is_block att
      then (case child att ''weapons'' of
              None \<Rightarrow> []
            | Some ws \<Rightarrow> [py_lower v. Leaf n v \<leftarrow> kv_children ws])
      else [])"

definition orphan :: "string list \<Rightarrow> kv \<Rightarrow> bool" where
  "orphan reg att \<longleftrightarrow> weapon_names att \<noteq> [] \<and> \<not> list_ex (\<lambda>n. n \<in> set reg) (weapon_names att)"

section \<open>The walk\<close>

text \<open>What a removal reports: definition, section, attachment and its names.\<close>

type_synonym drop = "string \<times> string \<times> string \<times> string list"

definition drop_section :: "string list \<Rightarrow> string \<Rightarrow> string \<Rightarrow> kv list \<Rightarrow> kv list \<times> drop list" where
  "drop_section reg owner section atts =
     (filter (\<lambda>a. \<not> orphan reg a) atts,
      map (\<lambda>a. (owner, section, kv_name a, weapon_names a)) (filter (orphan reg) atts))"

fun walk :: "string list \<Rightarrow> string \<Rightarrow> kv \<Rightarrow> kv \<times> drop list"
  and walk_children :: "string list \<Rightarrow> string \<Rightarrow> kv list \<Rightarrow> kv list \<times> drop list" where
  "walk reg owner (Leaf n v) = (Leaf n v, [])"
| "walk reg owner (Block n cs) =
     (let (cs', dropped) = walk_children reg owner cs in (Block n cs', dropped))"
| "walk_children reg owner [] = ([], [])"
| "walk_children reg owner (Leaf n v # cs) =
     (let (cs', dropped) = walk_children reg owner cs in (Leaf n v # cs', dropped))"
| "walk_children reg owner (Block n atts # cs) =
     (let c = (if py_lower n \<in> set ATTACHMENT_SECTIONS
               then (let (keep, d) = drop_section reg owner n atts in (Block n keep, d))
               else walk reg owner (Block n atts));
          rest = walk_children reg owner cs
      in (fst c # fst rest, snd c @ snd rest))"

definition walk_definition :: "string list \<Rightarrow> kv \<Rightarrow> kv \<times> drop list" where
  "walk_definition reg k = (if is_block k then walk reg (kv_name k) k else (k, []))"

text \<open>\<open>for definition in section.children or (): ...\<close>\<close>

fun walk_section :: "string list \<Rightarrow> kv \<Rightarrow> kv \<times> drop list" where
  "walk_section reg (Leaf n v) = (Leaf n v, [])"
| "walk_section reg (Block n ds) =
     (Block n (map (\<lambda>d. fst (walk_definition reg d)) ds),
      concat (map (\<lambda>d. snd (walk_definition reg d)) ds))"

fun drop_orphans :: "string list \<Rightarrow> kv \<Rightarrow> kv \<times> drop list" where
  "drop_orphans reg (Leaf n v) = (Leaf n v, [])"
| "drop_orphans reg (Block n secs) =
     (Block n (map (\<lambda>s. fst (walk_section reg s)) secs),
      concat (map (\<lambda>s. snd (walk_section reg s)) secs))"

definition drop_orphan_attachments :: "kv \<Rightarrow> kv_error + (kv \<times> drop list)" where
  "drop_orphan_attachments root = rbind (registered root) (\<lambda>reg. Inr (drop_orphans reg root))"

section \<open>What the walk removes\<close>

text \<open>
  Two views of a theater tell the whole effect.  \<open>attachments\<close> lists every
  attachment the walk reaches, with the definition and section it is in;
  \<open>skeleton\<close> is the tree with the attachment sections emptied.
\<close>

fun attachments :: "string \<Rightarrow> kv \<Rightarrow> (string \<times> string \<times> kv) list"
  and attachments_in :: "string \<Rightarrow> kv list \<Rightarrow> (string \<times> string \<times> kv) list" where
  "attachments owner (Leaf n v) = []"
| "attachments owner (Block n cs) = attachments_in owner cs"
| "attachments_in owner [] = []"
| "attachments_in owner (Leaf n v # cs) = attachments_in owner cs"
| "attachments_in owner (Block n atts # cs) =
     (if py_lower n \<in> set ATTACHMENT_SECTIONS then map (\<lambda>a. (owner, n, a)) atts
      else attachments owner (Block n atts)) @ attachments_in owner cs"

fun skeleton :: "kv \<Rightarrow> kv" and skeleton_in :: "kv list \<Rightarrow> kv list" where
  "skeleton (Leaf n v) = Leaf n v"
| "skeleton (Block n cs) = Block n (skeleton_in cs)"
| "skeleton_in [] = []"
| "skeleton_in (Leaf n v # cs) = Leaf n v # skeleton_in cs"
| "skeleton_in (Block n atts # cs) =
     (if py_lower n \<in> set ATTACHMENT_SECTIONS then Block n [] else skeleton (Block n atts))
     # skeleton_in cs"

definition section_attachments :: "kv \<Rightarrow> (string \<times> string \<times> kv) list" where
  "section_attachments s = concat (map (\<lambda>d. attachments (kv_name d) d) (kv_children s))"

definition all_attachments :: "kv \<Rightarrow> (string \<times> string \<times> kv) list" where
  "all_attachments root =
     concat (map section_attachments (kv_children root))"

fun theater_skeleton :: "kv \<Rightarrow> kv" where
  "theater_skeleton (Leaf n v) = Leaf n v"
| "theater_skeleton (Block n secs) =
     Block n (map (\<lambda>s. case s of Leaf m v \<Rightarrow> Leaf m v | Block m ds \<Rightarrow> Block m (map skeleton ds)) secs)"

abbreviation orphan_at :: "string list \<Rightarrow> string \<times> string \<times> kv \<Rightarrow> bool" where
  "orphan_at reg x \<equiv> orphan reg (snd (snd x))"

definition report_of :: "string \<times> string \<times> kv \<Rightarrow> drop" where
  "report_of x = (case x of (owner, sec, a) \<Rightarrow> (owner, sec, kv_name a, weapon_names a))"

lemma walk_effect:
  "attachments owner (fst (walk reg owner k)) = filter (\<lambda>x. \<not> orphan_at reg x) (attachments owner k)
   \<and> snd (walk reg owner k) = map report_of (filter (orphan_at reg) (attachments owner k))
   \<and> skeleton (fst (walk reg owner k)) = skeleton k"
  "attachments_in owner (fst (walk_children reg owner cs)) =
     filter (\<lambda>x. \<not> orphan_at reg x) (attachments_in owner cs)
   \<and> snd (walk_children reg owner cs) = map report_of (filter (orphan_at reg) (attachments_in owner cs))
   \<and> skeleton_in (fst (walk_children reg owner cs)) = skeleton_in cs"
proof (induction reg owner k and reg owner cs rule: walk_walk_children.induct)
  case (5 reg owner n atts cs)
  show ?case
  proof (cases "py_lower n \<in> set ATTACHMENT_SECTIONS")
    case True
    with 5 show ?thesis
      by (auto simp: split_def Let_def drop_section_def filter_map o_def report_of_def)
  next
    case False
    have "is_block (fst (walk reg owner (Block n atts)))" "kv_name (fst (walk reg owner (Block n atts))) = n"
      by (simp_all add: split_def Let_def)
    then obtain atts' where "fst (walk reg owner (Block n atts)) = Block n atts'"
      by (cases "fst (walk reg owner (Block n atts))") auto
    with 5 False show ?thesis by (auto simp: split_def Let_def simp del: walk.simps)
  qed
qed (auto simp: split_def)

lemma walk_keeps_node [simp]:
  "is_block (fst (walk reg owner k)) = is_block k"
  "kv_name (fst (walk reg owner k)) = kv_name k"
  by (cases k; simp add: split_def Let_def)+

lemma walk_definition_keeps_node [simp]:
  "is_block (fst (walk_definition reg k)) = is_block k"
  "kv_name (fst (walk_definition reg k)) = kv_name k"
  by (simp_all add: walk_definition_def)

lemma walk_definition_effect:
  "attachments (kv_name k) (fst (walk_definition reg k)) =
     filter (\<lambda>x. \<not> orphan_at reg x) (attachments (kv_name k) k)"
  "snd (walk_definition reg k) = map report_of (filter (orphan_at reg) (attachments (kv_name k) k))"
  "skeleton (fst (walk_definition reg k)) = skeleton k"
  using walk_effect(1) [of "kv_name k" reg k]
  by (cases k; simp add: walk_definition_def)+

lemma walk_section_effect:
  "section_attachments (fst (walk_section reg s)) =
     filter (\<lambda>x. \<not> orphan_at reg x) (section_attachments s)"
  "snd (walk_section reg s) = map report_of (filter (orphan_at reg) (section_attachments s))"
  by (cases s; simp add: section_attachments_def walk_definition_effect filter_concat map_concat o_def)+

lemma drop_orphans_effect:
  "all_attachments (fst (drop_orphans reg root)) =
     filter (\<lambda>x. \<not> orphan_at reg x) (all_attachments root)"
  "snd (drop_orphans reg root) = map report_of (filter (orphan_at reg) (all_attachments root))"
  "theater_skeleton (fst (drop_orphans reg root)) = theater_skeleton root"
proof -
  show "all_attachments (fst (drop_orphans reg root)) =
      filter (\<lambda>x. \<not> orphan_at reg x) (all_attachments root)"
    by (cases root)
       (simp_all add: all_attachments_def walk_section_effect(1) filter_concat o_def)
  show "snd (drop_orphans reg root) = map report_of (filter (orphan_at reg) (all_attachments root))"
    by (cases root)
       (simp_all add: all_attachments_def walk_section_effect(2) filter_concat map_concat o_def)
  show "theater_skeleton (fst (drop_orphans reg root)) = theater_skeleton root"
    by (cases root)
       (auto simp: walk_definition_effect(3) split: kv.split)
qed

section \<open>The registered weapons do not change\<close>

text \<open>Node by node, the walk keeps the name, and keeps a value as it is.\<close>

definition similar :: "kv \<Rightarrow> kv \<Rightarrow> bool" where
  "similar a b \<longleftrightarrow> kv_name a = kv_name b \<and> is_block a = is_block b \<and> (\<not> is_block a \<longrightarrow> a = b)"

lemma similarI: "kv_name a = kv_name b \<Longrightarrow> is_block a \<Longrightarrow> is_block b \<Longrightarrow> similar a b"
  by (simp add: similar_def)

lemma similar_refl [simp]: "similar a a"
  by (simp add: similar_def)

lemma walk_children_similar: "list_all2 similar cs (fst (walk_children reg owner cs))"
proof (induction cs)
  case Nil
  then show ?case by simp
next
  case (Cons c cs)
  show ?case
  proof (cases c)
    case (Leaf n v)
    with Cons show ?thesis by (simp add: split_def Let_def)
  next
    case (Block n atts)
    let ?c = "if py_lower n \<in> set ATTACHMENT_SECTIONS
        then (let (keep, d) = drop_section reg owner n atts in (Block n keep, d))
        else walk reg owner (Block n atts)"
    have "similar c (fst ?c)"
      using Block by (auto intro!: similarI simp: split_def Let_def simp del: walk.simps)
    with Cons Block show ?thesis by (simp add: Let_def del: walk.simps)
  qed
qed

lemma child_named_similar:
  assumes "list_all2 similar cs cs'"
  shows "rel_option similar (child_named l cs) (child_named l cs')"
  using assms
proof (induction rule: list_all2_induct)
  case Nil
  then show ?case by simp
next
  case (Cons x xs y ys)
  then have "lname x = lname y" by (simp add: similar_def lname_def)
  with Cons show ?case by simp
qed

lemma is_base_walk_definition: "is_base (fst (walk_definition reg k)) = is_base k"
proof (cases k)
  case (Leaf n v)
  then show ?thesis by (simp add: walk_definition_def)
next
  case (Block n cs)
  have "rel_option similar (child_named l cs) (child_named l (fst (walk_children reg n cs)))" for l
    by (rule child_named_similar, rule walk_children_similar)
  from this [of "py_lower ''IsBase''"] Block show ?thesis
    by (auto simp: is_base_def child_def walk_definition_def split_def Let_def similar_def
        split: option.split kv.split elim: option.rel_cases)
qed

lemma walk_section_child:
  "child_named l (map (\<lambda>s. fst (walk_section reg s)) secs) =
     map_option (\<lambda>s. fst (walk_section reg s)) (child_named l secs)"
proof (induction secs)
  case Nil
  then show ?case by simp
next
  case (Cons s secs)
  have "lname (fst (walk_section reg s)) = lname s" by (cases s) simp_all
  with Cons show ?case by simp
qed

lemma registered_drop_orphans: "registered (fst (drop_orphans reg root)) = registered root"
proof (cases root)
  case (Leaf n v)
  then show ?thesis by simp
next
  case (Block n secs)
  have "map lname (filter (\<lambda>w. \<not> is_base w) (map (\<lambda>d. fst (walk_definition reg d)) ws)) =
      map lname (filter (\<lambda>w. \<not> is_base w) ws)" for ws
    by (simp add: filter_map o_def is_base_walk_definition lname_def)
  with Block show ?thesis
    by (auto simp: registered_def child_def walk_section_child split: option.split kv.split)
qed

section \<open>Running it again\<close>

lemma walk_id:
  "(\<forall>x \<in> set (attachments owner k). \<not> orphan_at reg x) \<Longrightarrow> walk reg owner k = (k, [])"
  "(\<forall>x \<in> set (attachments_in owner cs). \<not> orphan_at reg x) \<Longrightarrow> walk_children reg owner cs = (cs, [])"
proof (induction reg owner k and reg owner cs rule: walk_walk_children.induct)
  case (5 reg owner n atts cs)
  show ?case
  proof (cases "py_lower n \<in> set ATTACHMENT_SECTIONS")
    case True
    from True "5.prems" have "\<forall>a \<in> set atts. \<not> orphan reg a" by (simp add: ball_Un)
    with True 5 show ?thesis by (simp add: drop_section_def filter_empty_conv)
  next
    case False
    with 5 show ?thesis by (simp add: Let_def del: walk.simps)
  qed
qed auto

lemma drop_orphans_id:
  assumes "\<forall>x \<in> set (all_attachments root). \<not> orphan_at reg x"
  shows "drop_orphans reg root = (root, [])"
proof (cases root)
  case (Leaf n v)
  then show ?thesis by simp
next
  case (Block n secs)
  have "walk_section reg s = (s, [])" if s: "s \<in> set secs" for s
  proof (cases s)
    case (Leaf m v)
    then show ?thesis by simp
  next
    case ds: (Block m ds)
    have "walk_definition reg d = (d, [])" if "d \<in> set ds" for d
    proof -
      have "\<forall>x \<in> set (attachments (kv_name d) d). \<not> orphan_at reg x"
        using assms that s ds Block
        by (fastforce simp: all_attachments_def section_attachments_def)
      then show ?thesis by (simp add: walk_definition_def walk_id(1))
    qed
    with ds show ?thesis by (simp add: map_idI)
  qed
  with Block show ?thesis by (simp add: map_idI)
qed

lemma drop_orphan_attachments_effect:
  assumes "drop_orphan_attachments root = Inr (root', dropped)"
  obtains reg where "registered root = Inr reg" and "registered root' = Inr reg"
    and "all_attachments root' = filter (\<lambda>x. \<not> orphan_at reg x) (all_attachments root)"
    and "dropped = map report_of (filter (orphan_at reg) (all_attachments root))"
    and "theater_skeleton root' = theater_skeleton root"
proof -
  from assms obtain reg where "registered root = Inr reg" "drop_orphans reg root = (root', dropped)"
    by (auto simp: drop_orphan_attachments_def result_simps)
  with that [of reg] drop_orphans_effect [of reg root] registered_drop_orphans [of reg root]
  show thesis by simp
qed

lemma drop_twice:
  assumes "drop_orphan_attachments root = Inr (root', dropped)"
  shows "drop_orphan_attachments root' = Inr (root', [])"
proof -
  from assms obtain reg where "registered root' = Inr reg"
    and "all_attachments root' = filter (\<lambda>x. \<not> orphan_at reg x) (all_attachments root)"
    by (rule drop_orphan_attachments_effect)
  then show ?thesis by (simp add: drop_orphan_attachments_def drop_orphans_id)
qed

lemma drop_orphans_quotable: "quotable root \<Longrightarrow> quotable (fst (drop_orphans reg root))"
proof -
  have walk: "quotable k \<Longrightarrow> quotable (fst (walk reg owner k))"
    "\<forall>c \<in> set cs. quotable c \<Longrightarrow> \<forall>c \<in> set (fst (walk_children reg owner cs)). quotable c"
    for k cs owner
    by (induction reg owner k and reg owner cs rule: walk_walk_children.induct)
       (auto simp: split_def Let_def drop_section_def)
  then have "quotable d \<Longrightarrow> quotable (fst (walk_definition reg d))" for d
    by (simp add: walk_definition_def)
  then have "quotable s \<Longrightarrow> quotable (fst (walk_section reg s))" for s
    by (cases s) auto
  then show "quotable root \<Longrightarrow> quotable (fst (drop_orphans reg root))"
    by (cases root) auto
qed

section \<open>Properties\<close>



end
