(* ===== verification/Sync.thy ===== *)
theory Sync
  imports Prelude "HOL-Library.AList"
begin

text \<open>
  Generated files.  \<open>tools/theater-build/build.py\<close> and
  \<open>tools/workshop/workshop_lock.py\<close> both compute the text of every file they
  own and then either write the ones that differ (\<open>build\<close>, \<open>render\<close>) or report
  them (\<open>check\<close>).  This theory holds the loop they share and the contract
  between the two commands.
\<close>

section \<open>A directory and the loop over the planned files\<close>

text \<open>The files of a directory, name and text; listing it is listing the names.\<close>

type_synonym dir = "(string \<times> string) list"

text \<open>
  For each planned file: compare with what is on disk, note a difference, and
  write the file when the command writes.
\<close>

fun sync :: "bool \<Rightarrow> (string \<times> string) list \<Rightarrow> dir \<Rightarrow> dir \<times> string list" where
  "sync wr [] d = (d, [])"
| "sync wr ((name, text) # fs) d =
     (if map_of d name = Some text then sync wr fs d
      else (let (d', stale) = sync wr fs (if wr then AList.update name text d else d)
            in (d', name # stale)))"

definition up_to_date :: "(string \<times> string) list \<Rightarrow> dir \<Rightarrow> bool" where
  "up_to_date fs d \<longleftrightarrow> (\<forall>(name, text) \<in> set fs. map_of d name = Some text)"

lemma sync_check: "sync False fs d = (d, [name. (name, text) \<leftarrow> fs, map_of d name \<noteq> Some text])"
  by (induction fs) auto

lemma sync_check_clean: "snd (sync False fs d) = [] \<longleftrightarrow> up_to_date fs d"
  by (auto simp: sync_check up_to_date_def concat_eq_Nil_conv split: if_splits)

lemma sync_other: "name \<notin> fst ` set fs \<Longrightarrow> map_of (fst (sync wr fs d)) name = map_of d name"
  by (induction wr fs d rule: sync.induct) (auto simp: split_def update_conv' Let_def)

lemma sync_write:
  "distinct (map fst fs) \<Longrightarrow> (name, text) \<in> set fs \<Longrightarrow> map_of (fst (sync True fs d)) name = Some text"
proof (induction True fs d rule: sync.induct)
  case (1 d)
  then show ?case by simp
next
  case (2 n t fs d)
  show ?case
  proof (cases "(name, text) = (n, t)")
    case True
    with 2 have "name \<notin> fst ` set fs" by simp
    with True show ?thesis by (auto simp: split_def Let_def sync_other update_conv')
  next
    case False
    with 2 show ?thesis by (auto simp: split_def Let_def)
  qed
qed

lemma sync_up_to_date_id: "up_to_date fs d \<Longrightarrow> sync wr fs d = (d, [])"
  by (induction wr fs d rule: sync.induct) (auto simp: up_to_date_def)

lemma sync_makes_up_to_date: "distinct (map fst fs) \<Longrightarrow> up_to_date fs (fst (sync True fs d))"
  by (auto simp: up_to_date_def sync_write)

lemma sync_names: "fst ` set (fst (sync wr fs d)) \<subseteq> fst ` set d \<union> fst ` set fs"
proof (induction wr fs d rule: sync.induct)
  case (1 wr d)
  then show ?case by simp
next
  case (2 wr n t fs d)
  have upd: "fst ` set (AList.update n t d) \<subseteq> insert n (fst ` set d)"
    using dom_update [of n t d] by (simp add: dom_map_of_conv_image_fst)
  show ?case
  proof (cases "map_of d n = Some t")
    case True
    with 2(1) show ?thesis by auto
  next
    case False
    with 2(2) upd show ?thesis by (cases wr) (auto simp: split_def Let_def dest!: subsetD)
  qed
qed

section \<open>The contract between the writing and the checking command\<close>

text \<open>
  A generator plans files from what is on disk.  Its law is that writing the
  plan to a directory in good order keeps it in order and does not change the
  plan, which is where a tool whose output contains its own input (the spliced
  Dockerfile) has something to prove.
\<close>

locale generator =
  fixes plan :: "dir \<Rightarrow> 'e + (string \<times> string) list"
    and good :: "dir \<Rightarrow> bool"
  assumes plan_distinct: "plan d = Inr fs \<Longrightarrow> distinct (map fst fs)"
    and good_kept: "good d \<Longrightarrow> plan d = Inr fs \<Longrightarrow> good (fst (sync True fs d))"
    and plan_stable: "good d \<Longrightarrow> plan d = Inr fs \<Longrightarrow> plan (fst (sync True fs d)) = Inr fs"
begin

lemma check_after_write:
  assumes "good d" and "plan d = Inr fs"
  shows "\<exists>fs'. plan (fst (sync True fs d)) = Inr fs' \<and> snd (sync False fs' (fst (sync True fs d))) = []"
  using assms plan_stable plan_distinct sync_check_clean sync_makes_up_to_date by blast

lemma write_idempotent:
  assumes "good d" and "plan d = Inr fs" and "d' = fst (sync True fs d)"
  shows "plan d' = Inr fs \<and> sync True fs d' = (d', [])"
  using assms plan_stable plan_distinct sync_makes_up_to_date sync_up_to_date_id by blast

end

end
