(* ===== verification/TheaterBuild.thy ===== *)
theory TheaterBuild
  imports TheaterOrphans Sync
begin

text \<open>
  Rendering, \<open>build_all\<close> and the \<open>build\<close> and \<open>check\<close> commands of
  \<open>tools/theater-build/build.py\<close>, and what the flattened files are worth: they
  read back as the merged tree, need no other file, and building from them
  gives them again.
\<close>

section \<open>Rendering\<close>

definition comment_line :: "string \<Rightarrow> string" where
  "comment_line s = ''//'' @ s @ [newline]"

definition HEADER :: "string \<Rightarrow> string" where
  "HEADER name =
     comment_line '' GENERATED by tools/theater-build/build.py - do not edit.''
     @ comment_line ''''
     @ comment_line ('' Flattened from theaters/src/'' @ name @
         '' and the vendored TUG theaters it #bases (theaters/vendor/).'')
     @ comment_line '' Edit the source and run `make theater-build`; `make theater-check` fails while this is stale.''"

definition render :: "string \<Rightarrow> kv \<Rightarrow> kv_error + string" where
  "render name root = rbind (write_kv root 0) (\<lambda>body. Inr (HEADER name @ [newline] @ body))"

section \<open>Building every entry point\<close>

text \<open>
  \<open>os.listdir\<close> gives the names of a directory once each, in no order that
  matters: a set.
\<close>

definition entry_points :: "string set \<Rightarrow> string list" where
  "entry_points listing =
     sorted_list_of_set {f \<in> listing. suffix ''.theater'' f \<and> \<not> prefix ''_'' f}"

definition build_one :: "nat \<Rightarrow> disk \<Rightarrow> string list \<Rightarrow> string \<Rightarrow> kv_error + (string \<times> string \<times> drop list)" where
  "build_one fuel disk dirs name =
     rbind (load fuel disk dirs [] name) (\<lambda>(root, used).
       rbind (drop_orphan_attachments root) (\<lambda>(root', dropped).
         rbind (render name root') (\<lambda>text. Inr (name, text, dropped))))"

definition build_all ::
  "nat \<Rightarrow> disk \<Rightarrow> string \<Rightarrow> string \<Rightarrow> string set \<Rightarrow> kv_error + (string \<times> string \<times> drop list) list" where
  "build_all fuel disk src vendor listing =
     rmap (build_one fuel disk [src, vendor]) (entry_points listing)"

section \<open>The commands\<close>

datatype command = BuildCmd | CheckCmd

text \<open>
  How \<open>main\<close> ends.  \<open>Failed\<close> and \<open>NoEntryPoints\<close> exit before anything is
  written; \<open>Stale\<close> is the failing check, with the stale names and the ones with
  no source; \<open>Built\<close> lists every name with whether it was written, the drops it
  reports, and the names with no source.
\<close>

datatype outcome =
    Failed kv_error
  | NoEntryPoints
  | Stale "string list" "string list"
  | UpToDate
  | Built "(string \<times> bool) list" "drop list" "string list"

text \<open>\<open>min(report, key=len)\<close>: the first of the shortest names.\<close>

fun shortest :: "(string \<times> 'a) list \<Rightarrow> (string \<times> 'a) option" where
  "shortest [] = None"
| "shortest (x # xs) =
     (case shortest xs of
        None \<Rightarrow> Some x
      | Some y \<Rightarrow> if length (fst x) \<le> length (fst y) then Some x else Some y)"

definition theater_plan ::
  "nat \<Rightarrow> disk \<Rightarrow> string \<Rightarrow> string \<Rightarrow> string set \<Rightarrow> kv_error + (string \<times> string) list" where
  "theater_plan fuel disk src vendor listing =
     rbind (build_all fuel disk src vendor listing) (\<lambda>rs. Inr (map (\<lambda>(n, t, d). (n, t)) rs))"

definition theater_main ::
  "command \<Rightarrow> nat \<Rightarrow> disk \<Rightarrow> string \<Rightarrow> string \<Rightarrow> string set \<Rightarrow> dir \<Rightarrow> dir \<times> outcome" where
  "theater_main cmd fuel disk src vendor listing out =
     (case build_all fuel disk src vendor listing of
        Inl e \<Rightarrow> (out, Failed e)
      | Inr rs \<Rightarrow>
          if rs = [] then (out, NoEntryPoints)
          else
            let fs = map (\<lambda>(n, t, d). (n, t)) rs;
                (out', stale) = sync (cmd = BuildCmd) fs out;
                extra = sort (filter (\<lambda>f. suffix ''.theater'' f \<and> f \<notin> set (map fst fs)) (map fst out'));
                report = (case shortest (map (\<lambda>(n, t, d). (n, d)) rs) of None \<Rightarrow> [] | Some (n, d) \<Rightarrow> d)
            in (case cmd of
                  CheckCmd \<Rightarrow> (out', if stale \<noteq> [] \<or> extra \<noteq> [] then Stale stale extra else UpToDate)
                | BuildCmd \<Rightarrow> (out', Built (map (\<lambda>n. (n, n \<in> set stale)) (sort (map fst fs))) report extra)))"

section \<open>What a rendered theater reads back as\<close>

lemma lex_comment_line: "newline \<notin> set s \<Longrightarrow> lex_text (comment_line s @ t) = lex_text t"
  by (simp add: comment_line_def)

lemma lex_HEADER: "newline \<notin> set name \<Longrightarrow> lex_text (HEADER name @ t) = lex_text t"
  by (simp add: HEADER_def lex_comment_line)

lemma parse_render:
  assumes "newline \<notin> set name" and "render name root = Inr text"
  shows "parse_text path text = Inr [root]"
proof -
  from assms(2) obtain body where body: "write_kv root 0 = Inr body"
    and txt_eq: "text = HEADER name @ newline # body"
    by (auto simp: render_def result_simps)
  from lex_write(1) [OF body, of "[]"] have "lex_text body = Some (fringe root)" by simp
  with txt_eq assms(1) show ?thesis
    by (simp add: parse_text_iff_spells lex_eq lex_HEADER)
qed

lemma split_top_single: "is_block root \<Longrightarrow> split_top path [root] = Inr ([], root)"
  by (cases root) (simp_all add: split_top_def is_base_key_def)

text \<open>A file whose text is a rendered theater loads to that theater alone.\<close>

lemma load_rendered:
  assumes "newline \<notin> set name" and "is_block root" and "render name root = Inr text"
    and "resolve disk dirs file = Inr (path, text)"
  shows "load (Suc fuel) disk dirs used file = Inr (root, List.insert path used)"
  using assms
  by (simp add: read_theater_def parse_render split_top_single)

lemma build_one_parts:
  assumes "build_one fuel disk dirs name = Inr (name', text, dropped)"
  obtains root used root' where "name' = name" and "load fuel disk dirs [] name = Inr (root, used)"
    and "drop_orphan_attachments root = Inr (root', dropped)" and "render name root' = Inr text"
  using assms by (auto simp: build_one_def result_simps)

lemma drop_keeps_block: "drop_orphan_attachments root = Inr (root', d) \<Longrightarrow> is_block root' = is_block root"
  by (cases root) (auto simp: drop_orphan_attachments_def result_simps)

lemma load_block: "load fuel disk dirs used name = Inr (root, used') \<Longrightarrow> quotable root \<and> is_block root"
  using load_sound(1) loads_quotable(1) by blast

text \<open>Once a theater loads and its weapons are a block, rendering cannot fail.\<close>

lemma build_one_total:
  assumes "load fuel disk dirs [] name = Inr (root, used)" and "registered root = Inr reg"
  shows "\<exists>text dropped. build_one fuel disk dirs name = Inr (name, text, dropped)"
proof -
  let ?r = "drop_orphans reg root"
  from assms load_block have "quotable (fst ?r)" by (blast intro: drop_orphans_quotable)
  then obtain body where "write_kv (fst ?r) 0 = Inr body" using write_total(1) by blast
  with assms show ?thesis
    by (simp add: build_one_def drop_orphan_attachments_def render_def split_def)
qed

lemma build_one_again:
  assumes "newline \<notin> set name" and "build_one fuel disk dirs name = Inr (name, text, dropped)"
    and "resolve disk' dirs' name = Inr (path, text)"
  shows "build_one (Suc fuel') disk' dirs' name = Inr (name, text, [])"
proof -
  from assms(2) obtain root used root' where l: "load fuel disk dirs [] name = Inr (root, used)"
    and d: "drop_orphan_attachments root = Inr (root', dropped)" and r: "render name root' = Inr text"
    by (rule build_one_parts)
  from l d have "is_block root'" using load_block drop_keeps_block by blast
  from load_rendered [OF assms(1) this r assms(3)]
  have "load (Suc fuel') disk' dirs' [] name = Inr (root', List.insert path [])" .
  with drop_twice [OF d] r show ?thesis by (simp add: build_one_def)
qed

section \<open>Build, then check\<close>

lemma build_one_name: "build_one fuel disk dirs name = Inr (n, t, d) \<Longrightarrow> n = name"
  by (auto simp: build_one_def result_simps)

lemma build_all_names:
  "build_all fuel disk src vendor listing = Inr rs \<Longrightarrow> map fst rs = entry_points listing"
proof -
  have "rmap (build_one fuel disk dirs) ns = Inr rs \<Longrightarrow> map fst rs = ns" for ns dirs
    by (induction ns arbitrary: rs) (auto simp: result_simps dest: build_one_name)
  then show "build_all fuel disk src vendor listing = Inr rs \<Longrightarrow> map fst rs = entry_points listing"
    by (simp add: build_all_def)
qed

lemma theater_plan_names:
  "theater_plan fuel disk src vendor listing = Inr fs \<Longrightarrow> map fst fs = entry_points listing"
  by (auto simp: theater_plan_def result_simps split_def o_def dest: build_all_names)

lemma distinct_entry_points: "distinct (entry_points listing)"
  by (simp add: entry_points_def)

interpretation theater_gen:
  generator "\<lambda>out. theater_plan fuel disk src vendor listing" "\<lambda>out. True" for fuel disk src vendor listing
  by unfold_locales (auto dest: theater_plan_names simp: distinct_entry_points)

text \<open>The names in the output directory that have no source.\<close>

definition unsourced :: "string set \<Rightarrow> dir \<Rightarrow> string list" where
  "unsourced listing out =
     sort (filter (\<lambda>f. suffix ''.theater'' f \<and> f \<notin> set (entry_points listing)) (map fst out))"

lemma theater_main_cases:
  assumes "theater_plan fuel disk src vendor listing = Inr fs" and "fs \<noteq> []"
  shows "theater_main CheckCmd fuel disk src vendor listing out =
      (out, if snd (sync False fs out) \<noteq> [] \<or> unsourced listing out \<noteq> []
            then Stale (snd (sync False fs out)) (unsourced listing out) else UpToDate)"
    and "fst (theater_main BuildCmd fuel disk src vendor listing out) = fst (sync True fs out)"
    and "\<exists>written report. snd (theater_main BuildCmd fuel disk src vendor listing out) =
      Built written report (unsourced listing (fst (sync True fs out)))"
proof -
  from assms obtain rs where rs: "build_all fuel disk src vendor listing = Inr rs" "rs \<noteq> []"
    and fs: "fs = map (\<lambda>(n, t, d). (n, t)) rs"
    by (auto simp: theater_plan_def result_simps)
  from rs have names: "map fst fs = entry_points listing"
    by (auto simp: fs split_def o_def dest: build_all_names)
  show "theater_main CheckCmd fuel disk src vendor listing out =
      (out, if snd (sync False fs out) \<noteq> [] \<or> unsourced listing out \<noteq> []
            then Stale (snd (sync False fs out)) (unsourced listing out) else UpToDate)"
    using rs by (simp add: theater_main_def Let_def split_def unsourced_def flip: names fs [unfolded split_def])
      (simp add: sync_check)
  show "fst (theater_main BuildCmd fuel disk src vendor listing out) = fst (sync True fs out)"
    using rs by (simp add: theater_main_def Let_def split_def fs)
  show "\<exists>written report. snd (theater_main BuildCmd fuel disk src vendor listing out) =
      Built written report (unsourced listing (fst (sync True fs out)))"
    using rs by (simp add: theater_main_def Let_def split_def unsourced_def flip: names fs [unfolded split_def])
qed

lemma check_after_build:
  assumes plan: "theater_plan fuel disk src vendor listing = Inr fs" and ne: "fs \<noteq> []"
    and built: "theater_main BuildCmd fuel disk src vendor listing out = (out', Built w r extra)"
  shows "theater_main CheckCmd fuel disk src vendor listing out' =
    (out', if extra = [] then UpToDate else Stale [] extra)"
proof -
  from theater_main_cases(2,3) [OF plan ne, of out] built
  have out': "out' = fst (sync True fs out)" and extra: "extra = unsourced listing out'" by auto
  from theater_gen.check_after_write [OF TrueI plan, of out] plan out'
  have "snd (sync False fs out') = []" by auto
  with theater_main_cases(1) [OF plan ne, of out'] extra show ?thesis by simp
qed

section \<open>Properties\<close>

text \<open>
  C9. A flattened theater is self-contained and true to the merge: its text,
  comments included, reads back as one block and no \<open>#base\<close>, namely the loaded
  theater with its orphan attachments dropped, in which no orphan is left.
\<close>
theorem flattened_theater_reads_back:
  assumes "build_one fuel disk dirs name = Inr (name', text, dropped)" and "newline \<notin> set name"
  shows "\<exists>root used root'. load fuel disk dirs [] name = Inr (root, used)
    \<and> drop_orphan_attachments root = Inr (root', dropped)
    \<and> parse_text path text = Inr [root'] \<and> split_top path [root'] = Inr ([], root')
    \<and> drop_orphan_attachments root' = Inr (root', [])"
proof -
  from assms(1) obtain root used root' where l: "load fuel disk dirs [] name = Inr (root, used)"
    and d: "drop_orphan_attachments root = Inr (root', dropped)" and r: "render name root' = Inr text"
    by (rule build_one_parts)
  moreover from l d have "is_block root'" using load_block drop_keeps_block by blast
  then have "split_top path [root'] = Inr ([], root')" by (rule split_top_single)
  ultimately show ?thesis
    using parse_render [OF assms(2) r] drop_twice [OF d] by blast
qed

theorem flattened_theater_reads_back_witness:
  "\<exists>text. \<exists>root used root'.
     load 2 (map_of [(''s/x'', ''#base y t { a b }''), (''s/y'', ''t { A z c d }'')]) [''s''] [] ''x'' = Inr (root, used)
    \<and> drop_orphan_attachments root = Inr (root', [])
    \<and> parse_text ''x'' text = Inr [root'] \<and> split_top ''x'' [root'] = Inr ([], root')
    \<and> drop_orphan_attachments root' = Inr (root', [])"
proof -
  let ?disk = "map_of [(''s/x'', ''#base y t { a b }''), (''s/y'', ''t { A z c d }'')]"
  have l: "load 2 ?disk [''s''] [] ''x'' =
      Inr (Block ''t'' [Leaf ''a'' ''b'', Leaf ''c'' ''d''], [''s/y'', ''s/x''])" by code_simp
  have d: "drop_orphan_attachments (Block ''t'' [Leaf ''a'' ''b'', Leaf ''c'' ''d'']) =
      Inr (Block ''t'' [Leaf ''a'' ''b'', Leaf ''c'' ''d''], [])" by code_simp
  from build_one_total [OF l] d obtain body dropped
    where b: "build_one 2 ?disk [''s''] ''x'' = Inr (''x'', body, dropped)"
    by (auto simp: drop_orphan_attachments_def result_simps)
  with l d have "dropped = []" by (auto simp: build_one_def result_simps)
  with flattened_theater_reads_back [OF b, of "''x''"] show ?thesis by auto
qed

text \<open>
  A build never fails on what it loaded: once a theater loads and its
  weapons section, if it has one, is a block, rendering succeeds.
\<close>
lemma loaded_theater_builds:
  assumes "load fuel disk dirs [] name = Inr (root, used)" and "registered root = Inr reg"
  shows "\<exists>text dropped. build_one fuel disk dirs name = Inr (name, text, dropped)"
  using assms by (rule build_one_total)

text \<open>
  Flattening is idempotent: building from a flattened file, wherever it is
  found and whatever else is there, gives the same text and drops nothing.
\<close>
lemma flattening_is_idempotent:
  assumes "build_one fuel disk dirs name = Inr (name, text, dropped)" and "newline \<notin> set name"
    and "resolve disk' dirs' name = Inr (path, text)"
  shows "build_one (Suc fuel') disk' dirs' name = Inr (name, text, [])"
  using assms(2,1,3) by (rule build_one_again)

text \<open>
  \<open>check\<close> accepts what \<open>build\<close> wrote: after a build the check finds nothing
  stale, and fails only for the files without a source that the build warned
  about.
\<close>
lemma check_accepts_build:
  assumes "theater_plan fuel disk src vendor listing = Inr fs" and "fs \<noteq> []"
    and "theater_main BuildCmd fuel disk src vendor listing out = (out', Built w r extra)"
  shows "theater_main CheckCmd fuel disk src vendor listing out' =
    (out', if extra = [] then UpToDate else Stale [] extra)"
  using assms by (rule check_after_build)

end
