(* ===== verification/Bytes.thy ===== *)
theory Bytes
  imports Prelude "HOL-Library.Word"
begin

unbundle bit_operations_syntax

text \<open>
  Byte strings and what the VPK and BSP tools use of Python's library for them:
  text encodings, little-endian \<open>struct\<close> fields, NUL-terminated strings and
  CRC-32.
\<close>

type_synonym byte = "8 word"
type_synonym bytes = "byte list"

section \<open>Errors of the byte tools\<close>

datatype byte_error =
    StructError
  | NotVbsp
  | NoNulByte
  | BadUtf8
  | MissingKey
  | AssertFailed string
  | SystemExit string string

section \<open>Encodings\<close>

text \<open>
  \<open>str.encode()\<close> on code points below 256: one byte below 128, two above.  A
  lead byte above 0xC3 starts a code point the model's strings cannot hold and
  is treated as an error with the malformed sequences.
\<close>

definition encode_char :: "char \<Rightarrow> bytes" where
  "encode_char c =
     (let n = of_char c :: nat
      in if n < 128 then [word_of_nat n]
         else [word_of_nat (192 + n div 64), word_of_nat (128 + n mod 64)])"

definition utf8_encode :: "string \<Rightarrow> bytes" where
  "utf8_encode s = concat (map encode_char s)"

fun utf8_decode :: "bytes \<Rightarrow> byte_error + string" where
  "utf8_decode [] = Inr []"
| "utf8_decode (b # bs) =
     (if unat b < 128 then rbind (utf8_decode bs) (\<lambda>s. Inr (char_of (unat b) # s))
      else case bs of
        [] \<Rightarrow> Inl BadUtf8
      | c # cs \<Rightarrow>
          if unat b \<in> {194, 195} \<and> 128 \<le> unat c \<and> unat c < 192
          then rbind (utf8_decode cs) (\<lambda>s. Inr (char_of ((unat b - 192) * 64 + (unat c - 128)) # s))
          else Inl BadUtf8)"

definition latin1_decode :: "bytes \<Rightarrow> string" where
  "latin1_decode bs = map (\<lambda>b. char_of (unat b)) bs"

lemma of_char_less: "(of_char c :: nat) < 256"
  by simp

lemma unat_byte: "n < 256 \<Longrightarrow> unat (word_of_nat n :: byte) = n"
  by (simp add: unat_of_nat)

lemma div_64_cases: "n < 256 \<Longrightarrow> \<not> n < 128 \<Longrightarrow> n div 64 = 2 \<or> n div 64 = 3" for n :: nat
  by arith

lemma utf8_decode_char: "utf8_decode (encode_char c @ bs) = rbind (utf8_decode bs) (\<lambda>s. Inr (c # s))"
proof (cases "(of_char c :: nat) < 128")
  case True
  then show ?thesis by (simp add: encode_char_def Let_def unat_of_nat)
next
  case False
  let ?n = "of_char c :: nat"
  from False of_char_less [of c] have d: "?n div 64 \<in> {2, 3}" "?n div 64 * 64 + ?n mod 64 = ?n"
    using div_64_cases [of ?n] by auto
  have "unat (word_of_nat (192 + ?n div 64) :: byte) = 192 + ?n div 64"
    "unat (word_of_nat (128 + ?n mod 64) :: byte) = 128 + ?n mod 64"
    by (rule unat_byte; use d(1) in auto)+
  with False d show ?thesis by (auto simp: encode_char_def Let_def simp del: of_nat_add)
qed

lemma utf8_roundtrip: "utf8_decode (utf8_encode s) = Inr s"
  by (induction s) (simp_all add: utf8_encode_def utf8_decode_char)

interpretation utf8: codec "\<lambda>s. Inr (utf8_encode s)" utf8_decode
  by unfold_locales (auto simp: utf8_roundtrip)

lemma utf8_encode_Nil [simp]: "utf8_encode s = [] \<longleftrightarrow> s = []"
  by (cases s) (auto simp: utf8_encode_def encode_char_def Let_def)

lemma utf8_encode_empty [simp]: "utf8_encode [] = []"
  by simp

lemma latin1_decode_Nil [simp]: "latin1_decode bs = [] \<longleftrightarrow> bs = []"
  by (simp add: latin1_decode_def)

definition ascii :: "string \<Rightarrow> bool" where
  "ascii s \<longleftrightarrow> (\<forall>c \<in> set s. (of_char c :: nat) < 128)"

lemma latin1_of_utf8_ascii: "ascii s \<Longrightarrow> latin1_decode (utf8_encode s) = s"
  by (induction s)
     (auto simp: ascii_def utf8_encode_def encode_char_def Let_def latin1_decode_def unat_of_nat)

lemma byte_nonzero: "0 < n \<Longrightarrow> n < 256 \<Longrightarrow> (word_of_nat n :: byte) \<noteq> 0"
  using unat_byte [of n] by fastforce

lemma of_char_pos: "c \<noteq> CHR 0x00 \<Longrightarrow> 0 < (of_char c :: nat)"
proof (rule ccontr)
  assume c: "c \<noteq> CHR 0x00" and "\<not> 0 < (of_char c :: nat)"
  then have "of_char c = (of_char (CHR 0x00) :: nat)" by simp
  with c show False by (simp only: of_char_eq_iff)
qed

lemma nul_not_in_char:
  assumes "c \<noteq> CHR 0x00"
  shows "(0 :: byte) \<notin> set (encode_char c)"
proof -
  let ?n = "of_char c :: nat"
  have "(word_of_nat ?n :: byte) \<noteq> 0" using of_char_pos [OF assms] by (rule byte_nonzero) simp
  moreover have "?n div 64 < 4" using of_char_less [of c] by arith
  then have "(word_of_nat (192 + ?n div 64) :: byte) \<noteq> 0"
    by (intro byte_nonzero) auto
  moreover have "(word_of_nat (128 + ?n mod 64) :: byte) \<noteq> 0"
    by (intro byte_nonzero) auto
  ultimately show ?thesis by (auto simp: encode_char_def Let_def simp del: of_nat_add)
qed

lemma nul_not_in_utf8: "CHR 0x00 \<notin> set s \<Longrightarrow> (0 :: byte) \<notin> set (utf8_encode s)"
proof (induction s)
  case Nil
  then show ?case by (simp add: utf8_encode_def)
next
  case (Cons c s)
  then have "(0 :: byte) \<notin> set (encode_char c)" by (intro nul_not_in_char) auto
  with Cons show ?case by (simp add: utf8_encode_def)
qed

section \<open>Little-endian fields\<close>

definition le16 :: "int \<Rightarrow> bytes" where
  "le16 n = [word_of_int n, word_of_int (n div 256)]"

definition le32 :: "int \<Rightarrow> bytes" where
  "le32 n = [word_of_int n, word_of_int (n div 256), word_of_int (n div 65536), word_of_int (n div 16777216)]"

text \<open>\<open>struct.pack\<close> rejects a value its field cannot hold.\<close>

definition pack_u16 :: "int \<Rightarrow> byte_error + bytes" where
  "pack_u16 n = (if 0 \<le> n \<and> n < 65536 then Inr (le16 n) else Inl StructError)"

definition pack_u32 :: "int \<Rightarrow> byte_error + bytes" where
  "pack_u32 n = (if 0 \<le> n \<and> n < 4294967296 then Inr (le32 n) else Inl StructError)"

definition get_u16 :: "bytes \<Rightarrow> int" where
  "get_u16 bs = uint (bs ! 0) + 256 * uint (bs ! 1)"

definition get_u32 :: "bytes \<Rightarrow> int" where
  "get_u32 bs = uint (bs ! 0) + 256 * uint (bs ! 1) + 65536 * uint (bs ! 2) + 16777216 * uint (bs ! 3)"

lemma length_le [simp]: "length (le16 n) = 2" "length (le32 n) = 4"
  by (simp_all add: le16_def le32_def)

lemma uint_byte: "uint (word_of_int n :: byte) = n mod 256"
  by (simp add: uint_word_of_int)

lemma get_u16_le16: "0 \<le> n \<Longrightarrow> n < 65536 \<Longrightarrow> get_u16 (le16 n @ bs) = n"
  by (simp add: get_u16_def le16_def uint_byte)

lemma base_256_digits:
  fixes n :: int
  assumes "0 \<le> n" "n < 4294967296"
  shows "n mod 256 + 256 * (n div 256 mod 256) + 65536 * (n div 65536 mod 256)
    + 16777216 * (n div 16777216 mod 256) = n"
proof -
  define a b c where "a = n div 256" and "b = a div 256" and "c = b div 256"
  have ab: "n div 65536 = b" "n div 16777216 = c"
    unfolding a_def b_def c_def by (simp_all add: zdiv_zmult2_eq [symmetric])
  have "n = n mod 256 + 256 * a" "a = a mod 256 + 256 * b" "b = b mod 256 + 256 * c"
    unfolding a_def b_def c_def by (simp_all only: mod_mult_div_eq)
  moreover have "0 \<le> c" "c < 256" using assms unfolding ab(2) [symmetric] by simp_all
  then have "c mod 256 = c" by simp
  ultimately show ?thesis unfolding ab a_def [symmetric] by linarith
qed

lemma le32_nth:
  "(le32 n @ bs) ! 0 = word_of_int n" "(le32 n @ bs) ! 1 = word_of_int (n div 256)"
  "(le32 n @ bs) ! 2 = word_of_int (n div 65536)" "(le32 n @ bs) ! 3 = word_of_int (n div 16777216)"
  by (simp_all add: le32_def)

lemma get_u32_le32: "0 \<le> n \<Longrightarrow> n < 4294967296 \<Longrightarrow> get_u32 (le32 n @ bs) = n"
  using base_256_digits [of n] by (simp only: get_u32_def le32_nth uint_byte)

section \<open>NUL-terminated strings\<close>

text \<open>\<open>buf.index(b"\0", i)\<close>: the bytes up to the first NUL and the ones after it.\<close>

definition cut_nul :: "bytes \<Rightarrow> (bytes \<times> bytes) option" where
  "cut_nul bs =
     (case dropWhile (\<lambda>b. b \<noteq> 0) bs of
        [] \<Rightarrow> None
      | z # rest \<Rightarrow> Some (takeWhile (\<lambda>b. b \<noteq> 0) bs, rest))"

lemma cut_nul_append: "0 \<notin> set s \<Longrightarrow> cut_nul (s @ 0 # rest) = Some (s, rest)"
  by (simp add: cut_nul_def)

lemma cut_nul_Some: "cut_nul bs = Some (s, rest) \<longleftrightarrow> 0 \<notin> set s \<and> bs = s @ 0 # rest"
proof
  assume c: "cut_nul bs = Some (s, rest)"
  then obtain z where z: "dropWhile (\<lambda>b. b \<noteq> 0) bs = z # rest" "s = takeWhile (\<lambda>b. b \<noteq> 0) bs"
    by (auto simp: cut_nul_def split: list.splits)
  then have "z = 0" using hd_dropWhile [of "\<lambda>b. b \<noteq> 0" bs] by auto
  with z takeWhile_dropWhile_id [of "\<lambda>b. b \<noteq> 0" bs] show "0 \<notin> set s \<and> bs = s @ 0 # rest"
    by (auto dest: set_takeWhileD)
qed (auto simp: cut_nul_append)

lemma cut_nul_shorter: "cut_nul bs = Some (s, rest) \<Longrightarrow> length rest < length bs"
proof -
  assume "cut_nul bs = Some (s, rest)"
  then obtain z where "dropWhile (\<lambda>b. b \<noteq> 0) bs = z # rest"
    by (auto simp: cut_nul_def split: list.splits)
  with length_dropWhile_le [of "\<lambda>b. b \<noteq> 0" bs] show ?thesis by simp
qed

section \<open>CRC-32\<close>

text \<open>\<open>binascii.crc32\<close>: the reflected polynomial 0xEDB88320, one bit at a time.\<close>

definition crc_bit :: "32 word \<Rightarrow> 32 word" where
  "crc_bit c = (if c AND 1 = 1 then (drop_bit 1 c) XOR 0xEDB88320 else drop_bit 1 c)"

definition crc_byte :: "32 word \<Rightarrow> byte \<Rightarrow> 32 word" where
  "crc_byte c b =
     crc_bit (crc_bit (crc_bit (crc_bit (crc_bit (crc_bit (crc_bit (crc_bit (c XOR ucast b))))))))"

definition crc32 :: "bytes \<Rightarrow> 32 word" where
  "crc32 bs = NOT (foldl crc_byte 0xFFFFFFFF bs)"

end
