(* ===== verification/Dicts.thy ===== *)
theory Dicts
  imports Prelude "HOL-Library.AList" "HOL-Library.Multiset"
begin

text \<open>
  Python dictionaries in insertion order, as association lists, and the
  grouping loop \<open>d.setdefault(key, []).append(value)\<close> that several of the tools
  are built around.
\<close>

section \<open>Grouping\<close>

fun dict_append :: "'k \<Rightarrow> 'v \<Rightarrow> ('k \<times> 'v list) list \<Rightarrow> ('k \<times> 'v list) list" where
  "dict_append k v [] = [(k, [v])]"
| "dict_append k v ((k', vs) # d) =
     (if k = k' then (k', vs @ [v]) # d else (k', vs) # dict_append k v d)"

definition group_by :: "('a \<Rightarrow> 'k) \<Rightarrow> ('a \<Rightarrow> 'v) \<Rightarrow> 'a list \<Rightarrow> ('k \<times> 'v list) list" where
  "group_by key val xs = foldl (\<lambda>d x. dict_append (key x) (val x) d) [] xs"

lemma map_of_dict_append:
  "map_of (dict_append k v d) j =
     (if j = k then Some ((case map_of d k of None \<Rightarrow> [] | Some vs \<Rightarrow> vs) @ [v]) else map_of d j)"
  by (induction k v d rule: dict_append.induct) auto

lemma keys_dict_append:
  "map fst (dict_append k v d) = (if k \<in> fst ` set d then map fst d else map fst d @ [k])"
  by (induction k v d rule: dict_append.induct) auto

lemma distinct_dict_append: "distinct (map fst d) \<Longrightarrow> distinct (map fst (dict_append k v d))"
  by (simp add: keys_dict_append)

lemma group_by_snoc:
  "group_by key val (xs @ [x]) = dict_append (key x) (val x) (group_by key val xs)"
  by (simp add: group_by_def)

lemma map_of_group_by:
  "map_of (group_by key val xs) k =
     (if k \<in> key ` set xs then Some (map val (filter (\<lambda>x. key x = k) xs)) else None)"
proof (induction xs rule: rev_induct)
  case Nil
  then show ?case by (simp add: group_by_def)
next
  case (snoc x xs)
  have "filter (\<lambda>y. key y = k) xs = []" if "k \<notin> key ` set xs"
    using that by (auto simp: filter_empty_conv)
  with snoc show ?case by (auto simp: group_by_snoc map_of_dict_append)
qed

lemma distinct_keys_group_by: "distinct (map fst (group_by key val xs))"
proof (induction xs rule: rev_induct)
  case Nil
  then show ?case by (simp add: group_by_def)
next
  case (snoc x xs)
  then show ?case by (simp only: group_by_snoc distinct_dict_append)
qed

lemma keys_group_by: "fst ` set (group_by key val xs) = key ` set xs"
proof -
  have "dom (map_of (group_by key val xs)) = key ` set xs"
    by (auto simp: dom_def map_of_group_by split: if_splits)
  then show ?thesis by (simp add: dom_map_of_conv_image_fst)
qed

lemma mem_group_by:
  "(k, vs) \<in> set (group_by key val xs) \<longleftrightarrow>
     k \<in> key ` set xs \<and> vs = map val (filter (\<lambda>x. key x = k) xs)"
  by (auto simp: map_of_group_by simp flip: map_of_eq_Some_iff [OF distinct_keys_group_by]
      split: if_splits)

lemma mset_concat_perm: "mset xs = mset ys \<Longrightarrow> mset (concat (map g xs)) = mset (concat (map g ys))"
  by (simp add: mset_concat comp_def flip: sum_mset_sum_list)

lemma mset_dict_append:
  "mset (concat (map (\<lambda>(k, vs). map (f k) vs) (dict_append k v d))) =
     add_mset (f k v) (mset (concat (map (\<lambda>(k, vs). map (f k) vs) d)))"
  by (induction k v d rule: dict_append.induct) auto

text \<open>Grouping loses nothing and repeats nothing.\<close>

lemma mset_group_by:
  "mset (concat (map (\<lambda>(k, vs). map (f k) vs) (group_by key val xs))) =
     mset (map (\<lambda>x. f (key x) (val x)) xs)"
proof (induction xs rule: rev_induct)
  case Nil
  then show ?case by (simp add: group_by_def)
next
  case (snoc x xs)
  then show ?case by (simp add: group_by_snoc mset_dict_append)
qed

section \<open>Keeping the first of each\<close>

text \<open>\<open>[x for x in xs if not (x in seen or seen.add(x))]\<close>\<close>

fun dedupe :: "'a set \<Rightarrow> 'a list \<Rightarrow> 'a list" where
  "dedupe seen [] = []"
| "dedupe seen (x # xs) = (if x \<in> seen then dedupe seen xs else x # dedupe (insert x seen) xs)"

lemma set_dedupe: "set (dedupe seen xs) = set xs - seen"
  by (induction xs arbitrary: seen) auto

lemma distinct_dedupe: "distinct (dedupe seen xs)"
  by (induction xs arbitrary: seen) (auto simp: set_dedupe)

lemma subseq_dedupe: "subseq (dedupe seen xs) xs"
  by (induction xs arbitrary: seen) auto

section \<open>Iterating in key order\<close>

text \<open>\<open>for key in sorted(d)\<close>\<close>

definition sorted_keys :: "('k::linorder \<times> 'v) list \<Rightarrow> 'k list" where
  "sorted_keys d = sort (map fst d)"

lemma set_sorted_keys [simp]: "set (sorted_keys d) = fst ` set d"
  by (simp add: sorted_keys_def)

lemma distinct_sorted_keys [simp]: "distinct (map fst d) \<Longrightarrow> distinct (sorted_keys d)"
  by (simp add: sorted_keys_def)

lemma sorted_sorted_keys [simp]: "sorted (sorted_keys d)"
  by (simp add: sorted_keys_def)

end
