(* ===== verification/VpkTree.thy ===== *)
theory VpkTree
  imports Bytes Dicts
begin

text \<open>
  The directory tree of a VPK: extension, path and file name, each level a run
  of NUL-terminated strings closed by an empty one, with an eighteen-byte entry
  after each name.  Written by \<open>build\<close> of \<open>tools/workshop/pack_vpk.py\<close>; read by
  three loops of the same shape, in \<open>verify\<close> of the same file,
  \<open>vpk_names\<close> of \<open>fastdl/tools/mapvote_images.py\<close> and \<open>vpk_entries\<close> of
  \<open>tools/bspaudit/collect_content_index.py\<close>.
\<close>

section \<open>Writing the tree\<close>

record vpk_entry =
  e_ext :: string
  e_path :: string
  e_base :: string
  e_full :: string

definition entry_key :: "vpk_entry \<Rightarrow> string \<times> string \<times> string" where
  "entry_key e = (e_ext e, e_path e, e_base e)"

text \<open>CRC, offset into the archive and length of a file.\<close>

type_synonym meta = "int \<times> int \<times> int"

definition ARCHIVE_INDEX :: int where "ARCHIVE_INDEX = 0"
definition ENTRY_TERMINATOR :: int where "ENTRY_TERMINATOR = 65535"

definition entry_bytes :: "meta \<Rightarrow> byte_error + bytes" where
  "entry_bytes = (\<lambda>(crc, offset, len).
     rbind (pack_u32 crc) (\<lambda>c.
     rbind (pack_u32 offset) (\<lambda>o'.
     rbind (pack_u32 len) (\<lambda>l.
       Inr (c @ le16 0 @ le16 ARCHIVE_INDEX @ o' @ l @ le16 ENTRY_TERMINATOR)))))"

definition by_ext :: "vpk_entry list \<Rightarrow> (string \<times> (string \<times> string list) list) list" where
  "by_ext entries = map (\<lambda>(ext, es). (ext, group_by e_path e_base es)) (group_by e_ext id entries)"

definition name_bytes ::
  "(string \<times> string \<times> string \<Rightarrow> meta option) \<Rightarrow> string \<Rightarrow> string \<Rightarrow> string \<Rightarrow> byte_error + bytes" where
  "name_bytes meta ext path base =
     (case meta (ext, path, base) of
        None \<Rightarrow> Inl MissingKey
      | Some m \<Rightarrow> rbind (entry_bytes m) (\<lambda>b. Inr (utf8_encode base @ 0 # b)))"

definition path_bytes ::
  "(string \<times> string \<times> string \<Rightarrow> meta option) \<Rightarrow> string \<Rightarrow> string \<times> string list \<Rightarrow> byte_error + bytes" where
  "path_bytes meta ext = (\<lambda>(path, bases).
     rbind (rmap (name_bytes meta ext path) (sort bases))
       (\<lambda>bs. Inr (utf8_encode path @ 0 # concat bs @ [0])))"

definition ext_bytes ::
  "(string \<times> string \<times> string \<Rightarrow> meta option) \<Rightarrow> string \<times> (string \<times> string list) list
     \<Rightarrow> byte_error + bytes" where
  "ext_bytes meta = (\<lambda>(ext, paths).
     rbind (rmap (path_bytes meta ext) (sort_key fst paths))
       (\<lambda>bs. Inr (utf8_encode ext @ 0 # concat bs @ [0])))"

definition tree_bytes ::
  "(string \<times> string \<times> string \<Rightarrow> meta option) \<Rightarrow> (string \<times> (string \<times> string list) list) list
     \<Rightarrow> byte_error + bytes" where
  "tree_bytes meta d =
     rbind (rmap (ext_bytes meta) (sort_key fst d)) (\<lambda>bs. Inr (concat bs @ [0]))"

text \<open>The names in the order the tree stores them.\<close>

definition path_items :: "string \<Rightarrow> string \<times> string list \<Rightarrow> (string \<times> string \<times> string) list" where
  "path_items ext = (\<lambda>(path, bases). map (\<lambda>base. (ext, path, base)) (sort bases))"

definition ext_items :: "string \<times> (string \<times> string list) list \<Rightarrow> (string \<times> string \<times> string) list" where
  "ext_items = (\<lambda>(ext, paths). concat (map (path_items ext) (sort_key fst paths)))"

definition tree_items :: "(string \<times> (string \<times> string list) list) list \<Rightarrow> (string \<times> string \<times> string) list" where
  "tree_items d = concat (map ext_items (sort_key fst d))"

section \<open>Reading it\<close>

text \<open>
  Where the reader stands: before an extension, before a path, or before a file
  name.  What is read so far of the two outer levels is the position's data.
\<close>

datatype level = AtExt | AtPath string | AtName string string

type_synonym 'm item = "string \<times> string \<times> string \<times> 'm"

definition add_items :: "'m item list \<Rightarrow> 'm item list \<times> byte_error option \<Rightarrow> 'm item list \<times> byte_error option" where
  "add_items xs = (\<lambda>(ys, r). (xs @ ys, r))"

text \<open>
  The items read, and the exception that ended the loop if one did.  The decoder
  and what is taken from an entry (with the bytes to step over) are the reader's
  own.
\<close>

function (sequential) walk_tree ::
  "(bytes \<Rightarrow> byte_error + string) \<Rightarrow> (bytes \<Rightarrow> byte_error + 'm \<times> nat) \<Rightarrow> level \<Rightarrow> bytes
     \<Rightarrow> 'm item list \<times> byte_error option" where
  "walk_tree dec ent lv bs =
     (case cut_nul bs of
        None \<Rightarrow> ([], Some NoNulByte)
      | Some (raw, rest) \<Rightarrow>
          (case dec raw of
             Inl e \<Rightarrow> ([], Some e)
           | Inr s \<Rightarrow>
               (case lv of
                  AtExt \<Rightarrow>
                    if s = [] then ([], None) else walk_tree dec ent (AtPath s) rest
                | AtPath ext \<Rightarrow>
                    if s = [] then walk_tree dec ent AtExt rest
                    else walk_tree dec ent (AtName ext s) rest
                | AtName ext path \<Rightarrow>
                    if s = [] then walk_tree dec ent (AtPath ext) rest
                    else
                      (case ent rest of
                         Inl e \<Rightarrow> ([], Some e)
                       | Inr (m, skip) \<Rightarrow>
                           add_items [(ext, path, s, m)] (walk_tree dec ent lv (drop skip rest))))))"
  by pat_completeness auto
termination
  by (relation "measure (\<lambda>(dec, ent, lv, bs). length bs)") (auto dest: cut_nul_shorter)

declare walk_tree.simps [simp del]

lemma add_items_simps [simp]:
  "add_items xs (ys, r) = (xs @ ys, r)"
  "add_items [] p = p"
  "add_items xs (add_items ys p) = add_items (xs @ ys) p"
  "fst (add_items xs p) = xs @ fst p"
  by (auto simp: add_items_def split_def)

section \<open>What the three readers rely on\<close>

text \<open>
  A reader decodes what \<open>str.encode\<close> wrote, never to an empty string, and reads
  an entry it accepts without looking past its eighteen bytes.
\<close>

locale vpk_reader =
  fixes dec :: "bytes \<Rightarrow> byte_error + string"
    and ent :: "bytes \<Rightarrow> byte_error + 'm \<times> nat"
    and nm :: "string \<Rightarrow> string"
    and mt :: "meta \<Rightarrow> 'm"
    and ok :: "meta \<Rightarrow> bool"
  assumes dec_utf8: "dec (utf8_encode s) = Inr (nm s)"
    and nm_empty: "nm s = [] \<longleftrightarrow> s = []"
    and ent_entry: "ok m \<Longrightarrow> entry_bytes m = Inr b \<Longrightarrow> ent (b @ rest) = Inr (mt m, length b)"
begin

definition seen_as :: "(string \<times> string \<times> string \<Rightarrow> meta option) \<Rightarrow> string \<times> string \<times> string \<Rightarrow> 'm item" where
  "seen_as meta = (\<lambda>(ext, path, base). (nm ext, nm path, nm base, mt (the (meta (ext, path, base)))))"

definition readable :: "(string \<times> string \<times> string \<Rightarrow> meta option) \<Rightarrow> string \<times> string \<times> string \<Rightarrow> bool" where
  "readable meta = (\<lambda>(ext, path, base).
     ext \<noteq> [] \<and> path \<noteq> [] \<and> base \<noteq> [] \<and>
     CHR 0x00 \<notin> set ext \<and> CHR 0x00 \<notin> set path \<and> CHR 0x00 \<notin> set base \<and>
     (\<exists>m. meta (ext, path, base) = Some m \<and> ok m))"

lemma walk_cut:
  assumes "CHR 0x00 \<notin> set s"
  shows "cut_nul (utf8_encode s @ 0 # rest) = Some (utf8_encode s, rest)"
  using nul_not_in_utf8 [OF assms] by (rule cut_nul_append)

lemma cut_end: "cut_nul (0 # rest) = Some ([], rest)"
  using walk_cut [of "[]" rest] by simp

lemma dec_empty: "dec [] = Inr []"
  using dec_utf8 [of "[]"] nm_empty [of "[]"] by simp

lemma walk_ext:
  "s \<noteq> [] \<Longrightarrow> CHR 0x00 \<notin> set s \<Longrightarrow>
     walk_tree dec ent AtExt (utf8_encode s @ 0 # rest) = walk_tree dec ent (AtPath (nm s)) rest"
  by (subst walk_tree.simps) (simp add: walk_cut dec_utf8 nm_empty)

lemma walk_path:
  "s \<noteq> [] \<Longrightarrow> CHR 0x00 \<notin> set s \<Longrightarrow>
     walk_tree dec ent (AtPath ext) (utf8_encode s @ 0 # rest) = walk_tree dec ent (AtName ext (nm s)) rest"
  by (subst walk_tree.simps) (simp add: walk_cut dec_utf8 nm_empty)

lemma walk_end:
  "walk_tree dec ent AtExt (0 # rest) = ([], None)"
  "walk_tree dec ent (AtPath ext) (0 # rest) = walk_tree dec ent AtExt rest"
  "walk_tree dec ent (AtName ext path) (0 # rest) = walk_tree dec ent (AtPath ext) rest"
  by (subst walk_tree.simps, simp add: cut_end dec_empty)+

lemma walk_name:
  assumes "readable meta (ext, path, base)" and "name_bytes meta ext path base = Inr b"
  shows "walk_tree dec ent (AtName (nm ext) (nm path)) (b @ rest) =
    add_items [seen_as meta (ext, path, base)] (walk_tree dec ent (AtName (nm ext) (nm path)) rest)"
proof -
  from assms obtain m eb where m: "meta (ext, path, base) = Some m" "ok m"
    "entry_bytes m = Inr eb" "b = utf8_encode base @ 0 # eb"
    by (auto simp: readable_def name_bytes_def result_simps)
  with assms(1) show ?thesis
    by (subst walk_tree.simps)
       (simp add: readable_def walk_cut dec_utf8 nm_empty ent_entry seen_as_def)
qed

lemma walk_names:
  assumes "\<forall>base \<in> set bases. readable meta (ext, path, base)"
    and "rmap (name_bytes meta ext path) bases = Inr bs"
  shows "walk_tree dec ent (AtName (nm ext) (nm path)) (concat bs @ rest) =
    add_items (map (\<lambda>base. seen_as meta (ext, path, base)) bases)
      (walk_tree dec ent (AtName (nm ext) (nm path)) rest)"
  using assms
proof (induction bases arbitrary: bs)
  case Nil
  then show ?case by simp
next
  case (Cons base bases)
  then obtain b bs' where "name_bytes meta ext path base = Inr b"
    "rmap (name_bytes meta ext path) bases = Inr bs'" "bs = b # bs'"
    by (auto simp: result_simps)
  with Cons show ?case by (simp add: walk_name [of meta ext path base b])
qed

lemma walk_paths:
  assumes "\<forall>p \<in> set paths. \<forall>k \<in> set (path_items ext p). readable meta k"
    and "\<forall>p \<in> set paths. fst p \<noteq> [] \<and> CHR 0x00 \<notin> set (fst p)"
    and "rmap (path_bytes meta ext) paths = Inr bs"
  shows "walk_tree dec ent (AtPath (nm ext)) (concat bs @ rest) =
    add_items (map (seen_as meta) (concat (map (path_items ext) paths)))
      (walk_tree dec ent (AtPath (nm ext)) rest)"
  using assms
proof (induction paths arbitrary: bs)
  case Nil
  then show ?case by simp
next
  case (Cons p paths)
  obtain path bases where p: "p = (path, bases)" by fastforce
  from Cons.prems(3) p obtain ns bs' where
    b: "rmap (name_bytes meta ext path) (sort bases) = Inr ns"
    "rmap (path_bytes meta ext) paths = Inr bs'" "bs = (utf8_encode path @ 0 # concat ns @ [0]) # bs'"
    by (auto simp: result_simps path_bytes_def)
  from Cons.prems p have r: "\<forall>base \<in> set (sort bases). readable meta (ext, path, base)"
    "path \<noteq> []" "CHR 0x00 \<notin> set path"
    by (auto simp: path_items_def)
  show ?case
    using Cons.IH [of bs'] Cons.prems
    by (simp add: b walk_path r walk_names [OF r(1) b(1)] walk_end p path_items_def comp_def)
qed

lemma walk_exts:
  assumes "\<forall>x \<in> set d. \<forall>k \<in> set (ext_items x). readable meta k"
    and "\<forall>x \<in> set d. fst x \<noteq> [] \<and> CHR 0x00 \<notin> set (fst x)"
    and "\<forall>x \<in> set d. \<forall>p \<in> set (snd x). fst p \<noteq> [] \<and> CHR 0x00 \<notin> set (fst p)"
    and "rmap (ext_bytes meta) d = Inr bs"
  shows "walk_tree dec ent AtExt (concat bs @ rest) =
    add_items (map (seen_as meta) (concat (map ext_items d))) (walk_tree dec ent AtExt rest)"
  using assms
proof (induction d arbitrary: bs)
  case Nil
  then show ?case by simp
next
  case (Cons x d)
  obtain ext paths where x: "x = (ext, paths)" by fastforce
  from Cons.prems(4) x obtain ps bs' where
    b: "rmap (path_bytes meta ext) (sort_key fst paths) = Inr ps"
    "rmap (ext_bytes meta) d = Inr bs'" "bs = (utf8_encode ext @ 0 # concat ps @ [0]) # bs'"
    by (auto simp: result_simps ext_bytes_def)
  have r: "\<forall>p \<in> set (sort_key fst paths). \<forall>k \<in> set (path_items ext p). readable meta k"
    "\<forall>p \<in> set (sort_key fst paths). fst p \<noteq> [] \<and> CHR 0x00 \<notin> set (fst p)"
    "ext \<noteq> []" "CHR 0x00 \<notin> set ext"
    using Cons.prems(1-3) by (auto simp: x ext_items_def)
  show ?case
    using Cons.IH [of bs'] Cons.prems
    by (simp add: b walk_ext r walk_paths [OF r(1,2) b(1)] walk_end x ext_items_def)
qed

lemma walk_tree_bytes:
  assumes "\<forall>k \<in> set (tree_items d). readable meta k"
    and "\<forall>x \<in> set d. fst x \<noteq> [] \<and> CHR 0x00 \<notin> set (fst x)"
    and "\<forall>x \<in> set d. \<forall>p \<in> set (snd x). fst p \<noteq> [] \<and> CHR 0x00 \<notin> set (fst p)"
    and "tree_bytes meta d = Inr t"
  shows "walk_tree dec ent AtExt (t @ rest) = (map (seen_as meta) (tree_items d), None)"
proof -
  from assms(4) obtain bs where b: "rmap (ext_bytes meta) (sort_key fst d) = Inr bs" "t = concat bs @ [0]"
    by (auto simp: tree_bytes_def result_simps)
  show ?thesis
    using walk_exts [OF _ _ _ b(1), of "0 # rest"] assms(1-3)
    by (simp add: b(2) walk_end tree_items_def)
qed

end

text \<open>
  A reader that does not look past what it was given: an entry read from a
  shorter buffer is the entry of any longer one.  Reading a truncated tree then
  gives a beginning of the full list.
\<close>

locale truncatable_reader = vpk_reader +
  assumes ent_more: "ent b = Inr x \<Longrightarrow> ent (b @ b') = Inr x"
begin

lemma cut_nul_more: "cut_nul p = Some (raw, rest) \<Longrightarrow> cut_nul (p @ q) = Some (raw, rest @ q)"
  by (auto simp: cut_nul_Some)

lemma walk_prefix: "prefix (fst (walk_tree dec ent lv p)) (fst (walk_tree dec ent lv (p @ q)))"
proof (induction p arbitrary: lv q rule: measure_induct_rule [of length])
  case (less p)
  show ?case
  proof (cases "cut_nul p")
    case None
    then show ?thesis by (subst walk_tree.simps) simp
  next
    case (Some r)
    obtain raw rest where c: "cut_nul p = Some (raw, rest)" using Some by (cases r) auto
    note shorter = cut_nul_shorter [OF c]
    note IH = less.IH [OF shorter]
    show ?thesis
    proof (cases "dec raw")
      case (Inl e)
      then show ?thesis by (subst walk_tree.simps) (simp add: c)
    next
      case (Inr s)
      note unfold = walk_tree.simps [of dec ent lv p] walk_tree.simps [of dec ent lv "p @ q"]
      note cut = c cut_nul_more [OF c] Inr
      show ?thesis
      proof (cases lv)
        case AtExt
        then show ?thesis using IH unfolding unfold by (simp add: cut)
      next
        case (AtPath ext)
        then show ?thesis using IH unfolding unfold by (simp add: cut)
      next
        case (AtName ext path)
        show ?thesis
        proof (cases "s = [] \<or> (\<exists>e. ent rest = Inl e)")
          case True
          with AtName IH show ?thesis unfolding unfold by (auto simp: cut)
        next
          case False
          then obtain m skip where e: "ent rest = Inr (m, skip)" by (cases "ent rest") auto
          have "length (drop skip rest) < length p" using shorter by simp
          from less.IH [OF this, of lv "drop (skip - length rest) q"] False AtName
          show ?thesis unfolding unfold by (simp add: cut e ent_more [OF e])
        qed
      qed
    qed
  qed
qed

end

section \<open>The tree holds every entry once\<close>

lemma mset_sorted_items: "mset (concat (map g (sort_key f xs))) = mset (concat (map g xs))"
  by (rule mset_concat_perm) simp

lemma mset_path_items: "mset (path_items ext p) = mset (map (\<lambda>base. (ext, fst p, base)) (snd p))"
  by (simp add: path_items_def split_def)

lemma mset_concat_cong: "(\<And>x. x \<in> set xs \<Longrightarrow> mset (f x) = mset (g x)) \<Longrightarrow>
    mset (concat (map f xs)) = mset (concat (map g xs))"
  by (induction xs) auto

lemma mset_ext_items:
  "mset (ext_items (ext, group_by e_path e_base es)) = mset (map (\<lambda>e. (ext, e_path e, e_base e)) es)"
proof -
  have "mset (ext_items (ext, group_by e_path e_base es)) =
      mset (concat (map (path_items ext) (group_by e_path e_base es)))"
    by (simp add: ext_items_def mset_sorted_items)
  also have "\<dots> = mset (concat (map (\<lambda>(p, bs). map (\<lambda>base. (ext, p, base)) bs) (group_by e_path e_base es)))"
    by (rule mset_concat_cong) (simp add: mset_path_items split_def)
  also have "\<dots> = mset (map (\<lambda>e. (ext, e_path e, e_base e)) es)"
    using mset_group_by [of "\<lambda>p base. (ext, p, base)" e_path e_base es] by simp
  finally show ?thesis .
qed

lemma mset_tree_items: "mset (tree_items (by_ext entries)) = mset (map entry_key entries)"
proof -
  have "mset (tree_items (by_ext entries)) =
      mset (concat (map (\<lambda>(ext, es). map (\<lambda>e. (ext, e_path e, e_base e)) es) (group_by e_ext id entries)))"
    unfolding tree_items_def mset_sorted_items by_ext_def map_map
    by (rule mset_concat_cong) (simp add: mset_ext_items split_def)
  also have "\<dots> = mset (map (\<lambda>e. (e_ext e, e_path e, e_base e)) entries)"
    using mset_group_by [of "\<lambda>ext e. (ext, e_path e, e_base e)" e_ext id entries] by simp
  also have "(\<lambda>e. (e_ext e, e_path e, e_base e)) = entry_key"
    by (simp add: fun_eq_iff entry_key_def)
  finally show ?thesis .
qed

lemma set_tree_items: "set (tree_items (by_ext entries)) = entry_key ` set entries"
  using arg_cong [OF mset_tree_items, of set_mset, of entries] by simp

lemma fst_by_ext: "fst ` set (by_ext entries) = e_ext ` set entries"
  by (simp add: by_ext_def image_image split_def keys_group_by)

lemma paths_by_ext:
  assumes "x \<in> set (by_ext entries)" and "p \<in> set (snd x)"
  shows "fst p \<in> e_path ` set entries"
proof -
  from assms obtain ext es where e: "(ext, es) \<in> set (group_by e_ext id entries)"
    "p \<in> set (group_by e_path e_base es)"
    by (auto simp: by_ext_def)
  then have "fst p \<in> e_path ` set es" by (metis keys_group_by imageI)
  moreover from e(1) have "set es \<subseteq> set entries" by (auto simp: mem_group_by)
  ultimately show ?thesis by blast
qed

end
