(* ===== verification/Digests.thy ===== *)
theory Digests
  imports Bytes
begin

text \<open>
  The digests the tools take from Python's \<open>hashlib\<close>, written out after RFC 1321
  and FIPS 180-4: \<open>pack_vpk.py\<close> stores MD5 sums in a VPK and
  \<open>workshop_lock.py\<close> places an item by the SHA-256 of its id.  Words are 32 bits
  wide and wrap.
\<close>

section \<open>Blocks\<close>

fun blocks :: "bytes \<Rightarrow> bytes list" where
  "blocks bs = (if bs = [] then [] else take 64 bs # blocks (drop 64 bs))"

declare blocks.simps [simp del]

definition rotl :: "nat \<Rightarrow> 32 word \<Rightarrow> 32 word" where
  "rotl n w = push_bit n w OR drop_bit (32 - n) w"

text \<open>A one bit, zeros up to 56 modulo 64, then the length in bits.\<close>

definition zeros :: "nat \<Rightarrow> bytes" where
  "zeros len = 0x80 # replicate ((119 - len mod 64) mod 64) 0"

definition le64 :: "int \<Rightarrow> bytes" where
  "le64 n = le32 n @ le32 (n div 4294967296)"

section \<open>MD5\<close>

definition md5_sines :: "32 word list" where
  "md5_sines =
     [3614090360, 3905402710, 606105819, 3250441966, 4118548399, 1200080426, 2821735955, 4249261313,
      1770035416, 2336552879, 4294925233, 2304563134, 1804603682, 4254626195, 2792965006, 1236535329,
      4129170786, 3225465664, 643717713, 3921069994, 3593408605, 38016083, 3634488961, 3889429448,
      568446438, 3275163606, 4107603335, 1163531501, 2850285829, 4243563512, 1735328473, 2368359562,
      4294588738, 2272392833, 1839030562, 4259657740, 2763975236, 1272893353, 4139469664, 3200236656,
      681279174, 3936430074, 3572445317, 76029189, 3654602809, 3873151461, 530742520, 3299628645,
      4096336452, 1126891415, 2878612391, 4237533241, 1700485571, 2399980690, 4293915773, 2240044497,
      1873313359, 4264355552, 2734768916, 1309151649, 4149444226, 3174756917, 718787259, 3951481745]"

definition md5_shifts :: "nat list" where
  "md5_shifts = [7, 12, 17, 22, 5, 9, 14, 20, 4, 11, 16, 23, 6, 10, 15, 21]"

type_synonym md5_state = "32 word \<times> 32 word \<times> 32 word \<times> 32 word"

definition md5_step :: "bytes \<Rightarrow> nat \<Rightarrow> md5_state \<Rightarrow> md5_state" where
  "md5_step block i = (\<lambda>(a, b, c, d).
     let (f, g) =
           (if i < 16 then ((b AND c) OR (NOT b AND d), i)
            else if i < 32 then ((d AND b) OR (NOT d AND c), (5 * i + 1) mod 16)
            else if i < 48 then (b XOR c XOR d, (3 * i + 5) mod 16)
            else (c XOR (b OR NOT d), (7 * i) mod 16));
         m = word_of_int (get_u32 (drop (4 * g) block));
         s = md5_shifts ! (4 * (i div 16) + i mod 4)
     in (d, b + rotl s (f + a + md5_sines ! i + m), b, c))"

definition md5_block :: "md5_state \<Rightarrow> bytes \<Rightarrow> md5_state" where
  "md5_block st block =
     (let (a, b, c, d) = st; (a', b', c', d') = fold (md5_step block) [0..<64] st
      in (a + a', b + b', c + c', d + d'))"

definition md5 :: "bytes \<Rightarrow> bytes" where
  "md5 bs =
     (let (a, b, c, d) =
            foldl md5_block (0x67452301, 0xefcdab89, 0x98badcfe, 0x10325476)
              (blocks (bs @ zeros (length bs) @ le64 (8 * int (length bs))))
      in le32 (uint a) @ le32 (uint b) @ le32 (uint c) @ le32 (uint d))"

lemma length_md5 [simp]: "length (md5 bs) = 16"
  by (simp add: md5_def split_def Let_def)

section \<open>SHA-256\<close>

definition sha_roots :: "32 word list" where
  "sha_roots =
     [1116352408, 1899447441, 3049323471, 3921009573, 961987163, 1508970993, 2453635748, 2870763221,
      3624381080, 310598401, 607225278, 1426881987, 1925078388, 2162078206, 2614888103, 3248222580,
      3835390401, 4022224774, 264347078, 604807628, 770255983, 1249150122, 1555081692, 1996064986,
      2554220882, 2821834349, 2952996808, 3210313671, 3336571891, 3584528711, 113926993, 338241895,
      666307205, 773529912, 1294757372, 1396182291, 1695183700, 1986661051, 2177026350, 2456956037,
      2730485921, 2820302411, 3259730800, 3345764771, 3516065817, 3600352804, 4094571909, 275423344,
      430227734, 506948616, 659060556, 883997877, 958139571, 1322822218, 1537002063, 1747873779,
      1955562222, 2024104815, 2227730452, 2361852424, 2428436474, 2756734187, 3204031479, 3329325298]"

definition sha_init :: "32 word list" where
  "sha_init =
     [1779033703, 3144134277, 1013904242, 2773480762, 1359893119, 2600822924, 528734635, 1541459225]"

definition get_be32 :: "bytes \<Rightarrow> 32 word" where
  "get_be32 bs = word_of_int (get_u32 (rev (take 4 bs)))"

definition rotr :: "nat \<Rightarrow> 32 word \<Rightarrow> 32 word" where
  "rotr n w = rotl (32 - n) w"

text \<open>The message schedule, the sixteen words of the block extended to sixty-four.\<close>

definition sha_extend :: "32 word list \<Rightarrow> 32 word list" where
  "sha_extend w =
     (let i = length w; x = w ! (i - 15); y = w ! (i - 2);
          s0 = rotr 7 x XOR rotr 18 x XOR drop_bit 3 x;
          s1 = rotr 17 y XOR rotr 19 y XOR drop_bit 10 y
      in w @ [w ! (i - 16) + s0 + w ! (i - 7) + s1])"

definition sha_schedule :: "bytes \<Rightarrow> 32 word list" where
  "sha_schedule block =
     (sha_extend ^^ 48) (map (\<lambda>i. get_be32 (drop (4 * i) block)) [0..<16])"

fun sha_step :: "(32 word \<times> 32 word) \<Rightarrow> 32 word list \<Rightarrow> 32 word list" where
  "sha_step (k, w) [a, b, c, d, e, f, g, h] =
     (let s1 = rotr 6 e XOR rotr 11 e XOR rotr 25 e;
          ch = (e AND f) XOR (NOT e AND g);
          t1 = h + s1 + ch + k + w;
          s0 = rotr 2 a XOR rotr 13 a XOR rotr 22 a;
          maj = (a AND b) XOR (a AND c) XOR (b AND c)
      in [t1 + s0 + maj, a, b, c, d + t1, e, f, g])"
| "sha_step kw st = st"

definition sha_block :: "32 word list \<Rightarrow> bytes \<Rightarrow> 32 word list" where
  "sha_block st block =
     map2 (+) st (fold sha_step (zip sha_roots (sha_schedule block)) st)"

definition sha256 :: "bytes \<Rightarrow> 32 word list" where
  "sha256 bs =
     foldl sha_block sha_init
       (blocks (bs @ zeros (length bs) @ rev (le64 (8 * int (length bs)))))"

text \<open>The first eight digits of \<open>hexdigest()\<close>, read as a number.\<close>

definition sha256_prefix :: "bytes \<Rightarrow> int" where
  "sha256_prefix bs = uint (hd (sha256 bs))"

end
