(* ===== verification/PyText.thy ===== *)
theory PyText
  imports Prelude
begin

text \<open>
  The parts of Python's \<open>str\<close> and number formatting that the line-oriented
  tools use: lines, blanks, comments, decimal numbers and rounding.
\<close>

section \<open>Splitting and joining\<close>

text \<open>\<open>s.split(sep)\<close> and \<open>sep.join(parts)\<close> for a separator of one character.\<close>

fun split_on :: "char \<Rightarrow> string \<Rightarrow> string list" where
  "split_on sep [] = [[]]"
| "split_on sep (c # cs) =
     (if c = sep then [] # split_on sep cs
      else case split_on sep cs of [] \<Rightarrow> [[c]] | l # ls \<Rightarrow> (c # l) # ls)"

fun join_with :: "char \<Rightarrow> string list \<Rightarrow> string" where
  "join_with sep [] = []"
| "join_with sep [l] = l"
| "join_with sep (l # ls) = l @ sep # join_with sep ls"

abbreviation lines_of :: "string \<Rightarrow> string list" where
  "lines_of \<equiv> split_on newline"

abbreviation join_lines :: "string list \<Rightarrow> string" where
  "join_lines \<equiv> join_with newline"

abbreviation join_dash :: "string list \<Rightarrow> string" where
  "join_dash \<equiv> join_with (CHR ''-'')"

lemma join_with_Cons: "ls \<noteq> [] \<Longrightarrow> join_with sep (l # ls) = l @ sep # join_with sep ls"
  by (cases ls) auto

text \<open>Lines before a position, each with its end, and lines after it.\<close>

lemma join_with_mid:
  "join_with sep (pre @ l # post) =
     concat (map (\<lambda>x. x @ [sep]) pre) @ l @ concat (map (\<lambda>x. sep # x) post)"
proof -
  have "join_with sep (l # post) = l @ concat (map (\<lambda>x. sep # x) post)"
    by (induction post arbitrary: l) auto
  then show ?thesis by (induction pre) (auto simp: join_with_Cons)
qed

lemma split_on_not_Nil [simp]: "split_on sep s \<noteq> []"
  by (induction s) (auto split: list.splits)

lemma split_on_none: "sep \<notin> set l \<Longrightarrow> split_on sep l = [l]"
  by (induction l) auto

lemma split_on_sep: "sep \<notin> set l \<Longrightarrow> split_on sep (l @ sep # s) = l # split_on sep s"
  by (induction l) auto

lemma split_join:
  "ls \<noteq> [] \<Longrightarrow> \<forall>l \<in> set ls. sep \<notin> set l \<Longrightarrow> split_on sep (join_with sep ls) = ls"
  by (induction sep ls rule: join_with.induct) (auto simp: split_on_none split_on_sep)

lemma join_with_char: "join_with sep ((c # l) # ls) = c # join_with sep (l # ls)"
  by (cases ls) simp_all

lemma join_split: "join_with sep (split_on sep s) = s"
  by (induction s) (auto simp: join_with_Cons join_with_char split: list.splits dest: sym)

lemma split_on_parts: "l \<in> set (split_on sep s) \<Longrightarrow> sep \<notin> set l"
  by (induction s arbitrary: l) (auto split: list.splits if_splits)

lemma split_on_append_sep: "split_on sep (a @ sep # b) = split_on sep a @ split_on sep b"
  by (induction a) (auto split: list.splits)

lemma split_join_concat: "ls \<noteq> [] \<Longrightarrow> split_on sep (join_with sep ls) = concat (map (split_on sep) ls)"
  by (induction sep ls rule: join_with.induct) (auto simp: split_on_append_sep)

text \<open>\<open>s.rpartition(c)\<close>: before the last \<open>c\<close>, whether there is one, after it.\<close>

definition rpartition :: "char \<Rightarrow> string \<Rightarrow> string \<times> bool \<times> string" where
  "rpartition c s =
     (if c \<in> set s
      then (let after = rev (takeWhile (\<lambda>x. x \<noteq> c) (rev s))
            in (take (length s - length after - 1) s, True, after))
      else ([], False, s))"

lemma rpartition_split: "c \<notin> set b \<Longrightarrow> rpartition c (a @ c # b) = (a, True, b)"
  by (simp add: rpartition_def Let_def)

lemma rpartition_none: "c \<notin> set s \<Longrightarrow> rpartition c s = ([], False, s)"
  by (simp add: rpartition_def)

lemma rpartition_True: "rpartition c s = (a, True, b) \<Longrightarrow> s = a @ c # b \<and> c \<notin> set b"
proof -
  assume r: "rpartition c s = (a, True, b)"
  then have "c \<in> set s" by (auto simp: rpartition_def split: if_splits)
  then obtain u v where "s = u @ c # v" "c \<notin> set v" by (metis split_list_last)
  with rpartition_split [of c v u] r show ?thesis by simp
qed

text \<open>\<open>sep.join(parts)\<close> for any separator, and \<open>os.path.splitext\<close> of a file name.\<close>

definition join_by :: "string \<Rightarrow> string list \<Rightarrow> string" where
  "join_by sep parts = (if parts = [] then [] else concat (map (\<lambda>p. p @ sep) (butlast parts)) @ last parts)"

definition splitext :: "string \<Rightarrow> string \<times> string" where
  "splitext f =
     (if CHR ''.'' \<in> set (dropWhile (\<lambda>c. c = CHR ''.'') f)
      then (let (stem, _, ext) = rpartition (CHR ''.'') f in (stem, CHR ''.'' # ext)) else (f, []))"

section \<open>Slices and substrings\<close>

text \<open>\<open>xs[i:j]\<close>, where a negative index counts from the end.\<close>

definition slice_index :: "nat \<Rightarrow> int \<Rightarrow> nat" where
  "slice_index n i = (if i < 0 then nat (i + int n) else min (nat i) n)"

definition py_slice :: "'a list \<Rightarrow> int \<Rightarrow> int \<Rightarrow> 'a list" where
  "py_slice xs i j =
     (let a = slice_index (length xs) i; b = slice_index (length xs) j in take (b - a) (drop a xs))"

text \<open>\<open>s.replace("\\", "/")\<close>\<close>

definition posix :: "string \<Rightarrow> string" where
  "posix s = map (\<lambda>c. if c = backslash then CHR ''/'' else c) s"

lemma posix_simps [simp]: "posix [] = []" "posix (s @ t) = posix s @ posix t" "posix (posix s) = posix s"
  by (simp_all add: posix_def)

text \<open>\<open>s.split(needle, 1)\<close> when the needle is there: what is before and after its first occurrence.\<close>

fun cut_at :: "string \<Rightarrow> string \<Rightarrow> (string \<times> string) option" where
  "cut_at n [] = (if n = [] then Some ([], []) else None)"
| "cut_at n (c # cs) =
     (if prefix n (c # cs) then Some ([], drop (length n) (c # cs))
      else case cut_at n cs of None \<Rightarrow> None | Some (h, t) \<Rightarrow> Some (c # h, t))"

lemma cut_at_None: "cut_at n s = None \<longleftrightarrow> \<not> sublist n s"
  by (induction s) (auto simp: sublist_Cons_right split: option.splits)

lemma cut_at_here: "cut_at n (n @ s) = Some ([], s)"
proof (cases n)
  case Nil
  then show ?thesis by (cases s) auto
next
  case (Cons c cs)
  have "prefix n (n @ s)" "drop (length n) (n @ s) = s" by simp_all
  with Cons show ?thesis by simp
qed

section \<open>Blanks and comments\<close>

definition py_strip :: "string \<Rightarrow> string" where
  "py_strip s = rev (dropWhile py_isspace (rev (dropWhile py_isspace s)))"

lemma py_strip_id: "s \<noteq> [] \<Longrightarrow> \<not> py_isspace (hd s) \<Longrightarrow> \<not> py_isspace (last s) \<Longrightarrow> py_strip s = s"
proof -
  assume s: "s \<noteq> []" "\<not> py_isspace (hd s)" "\<not> py_isspace (last s)"
  then have "dropWhile py_isspace s = s" by (cases s) simp_all
  moreover from s have "dropWhile py_isspace (rev s) = rev s" by (cases s rule: rev_cases) simp_all
  ultimately show ?thesis by (simp add: py_strip_def)
qed

text \<open>\<open>re.sub(r"//.*", "", line)\<close> on a single line.\<close>

fun cut_comment :: "string \<Rightarrow> string" where
  "cut_comment [] = []"
| "cut_comment (c # cs) =
     (if c = CHR ''/'' \<and> (case cs of [] \<Rightarrow> False | d # ds \<Rightarrow> d = CHR ''/'') then []
      else c # cut_comment cs)"

text \<open>\<open>str.split()\<close>: the runs of non-blanks.\<close>

fun words_from :: "string \<Rightarrow> string \<Rightarrow> string list" where
  "words_from acc [] = (if acc = [] then [] else [rev acc])"
| "words_from acc (c # cs) =
     (if py_isspace c then (if acc = [] then words_from [] cs else rev acc # words_from [] cs)
      else words_from (c # acc) cs)"

definition py_words :: "string \<Rightarrow> string list" where
  "py_words s = words_from [] s"

lemma cut_comment_prefix: "prefix (cut_comment s) s"
  by (induction s) auto

lemma words_from_word:
  "\<forall>c \<in> set acc. \<not> py_isspace c \<Longrightarrow> w \<in> set (words_from acc s) \<Longrightarrow>
     w \<noteq> [] \<and> (\<forall>c \<in> set w. \<not> py_isspace c)"
proof (induction s arbitrary: acc)
  case Nil
  then show ?case by (simp split: if_splits)
next
  case (Cons c cs)
  show ?case
  proof (cases "py_isspace c")
    case False
    with Cons.prems Cons.IH [of "c # acc"] show ?thesis by simp
  next
    case True
    with Cons.prems consider "w \<in> set (words_from [] cs)" | "w = rev acc" "acc \<noteq> []"
      by (simp split: if_splits) blast+
    then show ?thesis using Cons.IH [of "[]"] Cons.prems(1) by cases simp_all
  qed
qed

lemma py_words_word: "w \<in> set (py_words s) \<Longrightarrow> w \<noteq> [] \<and> (\<forall>c \<in> set w. \<not> py_isspace c)"
  using words_from_word [of "[]" w s] by (simp add: py_words_def)

section \<open>Numbers\<close>

definition digit_value :: "char \<Rightarrow> int" where
  "digit_value c = of_char c - 48"

definition ascii_digit :: "char \<Rightarrow> bool" where
  "ascii_digit c \<longleftrightarrow> 0 \<le> digit_value c \<and> digit_value c \<le> 9"

text \<open>
  \<open>str.isdigit\<close> below 256: the ASCII digits and the superscripts 1, 2 and 3,
  which \<open>int\<close> does not read.
\<close>

definition py_isdigit :: "string \<Rightarrow> bool" where
  "py_isdigit s \<longleftrightarrow> s \<noteq> [] \<and> (\<forall>c \<in> set s. ascii_digit c \<or> c \<in> {CHR 0xB2, CHR 0xB3, CHR 0xB9})"

text \<open>\<open>int(s)\<close> for strings of digits; \<open>None\<close> is \<open>ValueError\<close>.\<close>

definition int_of_digits :: "string \<Rightarrow> int" where
  "int_of_digits s = foldl (\<lambda>n c. 10 * n + digit_value c) 0 s"

definition py_int :: "string \<Rightarrow> int option" where
  "py_int s = (if s \<noteq> [] \<and> (\<forall>c \<in> set s. ascii_digit c) then Some (int_of_digits s) else None)"

text \<open>\<open>str(n)\<close> and \<open>"%d" % n\<close>.\<close>

definition digit_char :: "int \<Rightarrow> char" where
  "digit_char n = char_of (48 + nat n)"

function digits :: "int \<Rightarrow> string" where
  "digits n = (if n < 10 then [digit_char n] else digits (n div 10) @ [digit_char (n mod 10)])"
  by pat_completeness auto
termination by (relation "measure nat") auto

declare digits.simps [simp del]

definition int_str :: "int \<Rightarrow> string" where
  "int_str n = (if n < 0 then CHR ''-'' # digits (- n) else digits n)"

lemma digit_char_value:
  assumes "0 \<le> n" "n \<le> 9"
  shows "digit_value (digit_char n) = n" "ascii_digit (digit_char n)"
proof -
  have "(of_char (digit_char n) :: int) = int (of_char (digit_char n))" by (rule of_nat_of_char [symmetric])
  also have "\<dots> = 48 + n" using assms by (simp add: digit_char_def)
  finally have "of_char (digit_char n) = 48 + n" .
  then show "digit_value (digit_char n) = n" by (simp add: digit_value_def)
  with assms show "ascii_digit (digit_char n)" by (simp add: ascii_digit_def)
qed

lemma digits_ok: "0 \<le> n \<Longrightarrow> digits n \<noteq> [] \<and> (\<forall>c \<in> set (digits n). ascii_digit c) \<and> int_of_digits (digits n) = n"
proof (induction n rule: digits.induct)
  case (1 n)
  show ?case
  proof (cases "n < 10")
    case True
    with 1 show ?thesis by (subst (1 2 3) digits.simps) (simp add: digit_char_value int_of_digits_def)
  next
    case False
    with 1 show ?thesis
      by (subst (1 2 3) digits.simps) (auto simp: digit_char_value int_of_digits_def)
  qed
qed

lemma py_int_str: "0 \<le> n \<Longrightarrow> py_int (int_str n) = Some n"
  using digits_ok [of n] by (simp add: py_int_def int_str_def)

lemma py_isdigit_int_str: "0 \<le> n \<Longrightarrow> py_isdigit (int_str n)"
  using digits_ok [of n] by (simp add: py_isdigit_def int_str_def)

text \<open>\<open>"%02d" % n\<close>\<close>

definition pad2 :: "int \<Rightarrow> string" where
  "pad2 n = (let s = int_str n in if length s < 2 then CHR ''0'' # s else s)"

text \<open>
  \<open>round(n / d)\<close> and \<open>"%.0f" % (n / d)\<close> for a power of two \<open>d\<close>: the quotient is
  exact in a double, and Python rounds halves to the even neighbour.
\<close>

definition round_div :: "int \<Rightarrow> int \<Rightarrow> int" where
  "round_div n d =
     (let q = n div d; r = n mod d
      in if 2 * r < d \<or> 2 * r = d \<and> even q then q else q + 1)"

lemma round_div_near: "0 < d \<Longrightarrow> \<bar>2 * (d * round_div n d - n)\<bar> \<le> d"
proof -
  assume "0 < d"
  then have "n = d * (n div d) + n mod d" "0 \<le> n mod d" "n mod d < d" by simp_all
  moreover define q r where "q = n div d" and "r = n mod d"
  ultimately have n: "n = d * q + r" "0 \<le> r" "r < d" by simp_all
  have "d * round_div n d - n = (if 2 * r < d \<or> 2 * r = d \<and> even q then - r else d - r)"
    unfolding round_div_def Let_def q_def [symmetric] r_def [symmetric]
    by (simp add: n(1) algebra_simps)
  with n(2,3) show ?thesis by auto
qed

end
