(* ===== verification/Vpk.thy ===== *)
theory Vpk
  imports VpkTree Digests PyText
begin

text \<open>
  Packing a directory into a VPK (\<open>tools/workshop/pack_vpk.py\<close>): collecting the
  files, laying their bytes out in the archive, writing the directory file with
  its three checksums, and reading both files back.
\<close>

section \<open>Collecting the files\<close>

text \<open>
  A content directory: what \<open>os.walk\<close> yields, each directory by its path below
  the root (empty for the root) with its file names, and what a file holds.
\<close>

record content =
  walk_dirs :: "(string \<times> string list) list"
  read_file :: "string \<Rightarrow> bytes"

definition rel_path :: "string \<Rightarrow> string \<Rightarrow> string" where
  "rel_path dir f = (if dir = [] then f else dir @ CHR ''/'' # f)"

definition all_paths :: "content \<Rightarrow> string list" where
  "all_paths c = concat (map (\<lambda>(dir, files). map (rel_path dir) (sort files)) (walk_dirs c))"

definition collect_file :: "string \<Rightarrow> byte_error + vpk_entry" where
  "collect_file rel =
     (let (path, _, base) = rpartition (CHR ''/'') rel;
          (name, dot, ext) = rpartition (CHR ''.'') base
      in if \<not> dot then Inl (SystemExit ''file has no extension, cannot be packed: '' rel)
         else Inr \<lparr>e_ext = ext, e_path = (if path = [] then '' '' else path), e_base = name,
                   e_full = rel\<rparr>)"

definition collect :: "content \<Rightarrow> byte_error + vpk_entry list" where
  "collect c =
     rbind (rmap collect_file (all_paths c))
       (\<lambda>out. if out = [] then Inl (SystemExit ''no files found under '' []) else Inr out)"

section \<open>Building\<close>

text \<open>The archive so far and the \<open>meta\<close> dictionary, one file added.\<close>

definition store_file ::
  "(string \<Rightarrow> bytes) \<Rightarrow> bytes \<times> (string \<times> string \<times> string \<Rightarrow> meta option) \<Rightarrow> vpk_entry
     \<Rightarrow> bytes \<times> (string \<times> string \<times> string \<Rightarrow> meta option)" where
  "store_file read = (\<lambda>(archive, meta) e.
     let data = read (e_full e)
     in (archive @ data,
         meta(entry_key e \<mapsto> (uint (crc32 data), int (length archive), int (length data)))))"

definition layout ::
  "(string \<Rightarrow> bytes) \<Rightarrow> vpk_entry list \<Rightarrow> bytes \<times> (string \<times> string \<times> string \<Rightarrow> meta option)" where
  "layout read entries = foldl (store_file read) ([], Map.empty) entries"

definition VPK_SIGNATURE :: int where "VPK_SIGNATURE = 0x55AA1234"
definition VPK_VERSION :: int where "VPK_VERSION = 2"
definition HEADER_SIZE :: nat where "HEADER_SIZE = 28"

definition vpk_header :: "bytes \<Rightarrow> byte_error + bytes" where
  "vpk_header tree =
     rbind (pack_u32 (int (length tree)))
       (\<lambda>n. Inr (le32 VPK_SIGNATURE @ le32 VPK_VERSION @ n @ le32 0 @ le32 0 @ le32 48 @ le32 0))"

definition seal :: "bytes \<Rightarrow> bytes \<Rightarrow> bytes" where
  "seal header tree =
     (let body = (header @ tree) @ md5 tree @ md5 [] in body @ md5 body)"

definition build :: "content \<Rightarrow> byte_error + bytes \<times> bytes \<times> vpk_entry list" where
  "build c =
     rbind (collect c) (\<lambda>entries.
       let (archive, meta) = layout (read_file c) entries
       in rbind (tree_bytes meta (by_ext entries)) (\<lambda>tree.
          rbind (vpk_header tree) (\<lambda>header. Inr (seal header tree, archive, entries))))"

section \<open>Verifying\<close>

definition verify_entry :: "bytes \<Rightarrow> bytes \<Rightarrow> byte_error + bytes \<times> nat" where
  "verify_entry arc b =
     (if length b < 18 then Inl StructError
      else let crc = get_u32 b; pre = get_u16 (drop 4 b);
               eoff = get_u32 (drop 8 b); elen = get_u32 (drop 12 b);
               data = take (nat elen) (drop (nat eoff) arc)
           in if uint (crc32 data) = crc then Inr (data, 18 + nat pre)
              else Inl (AssertFailed ''CRC mismatch''))"

definition vpk_key :: "string \<Rightarrow> string \<Rightarrow> string \<Rightarrow> string" where
  "vpk_key ext path base = (if path = '' '' then [] else path @ ''/'') @ base @ CHR ''.'' # ext"

definition seen_files :: "bytes item list \<Rightarrow> (string \<times> bytes) list" where
  "seen_files items =
     foldl (\<lambda>seen (ext, path, base, data). AList.update (vpk_key ext path base) data seen) [] items"

definition check_entry :: "(string \<Rightarrow> bytes) \<Rightarrow> (string \<times> bytes) list \<Rightarrow> vpk_entry \<Rightarrow> byte_error + unit" where
  "check_entry read seen e =
     (let key = vpk_key (e_ext e) (e_path e) (e_base e)
      in case map_of seen key of
           None \<Rightarrow> Inl (AssertFailed (''missing from VPK: '' @ key))
         | Some data \<Rightarrow>
             if data = read (e_full e) then Inr () else Inl (AssertFailed (''content differs: '' @ key)))"

definition verify_files ::
  "(string \<Rightarrow> bytes) \<Rightarrow> vpk_entry list \<Rightarrow> bytes item list \<times> byte_error option \<Rightarrow> byte_error + nat" where
  "verify_files read entries = (\<lambda>(items, stop).
     case stop of
       Some e \<Rightarrow> Inl e
     | None \<Rightarrow>
         let seen = seen_files items
         in rbind (rmap (check_entry read seen) entries) (\<lambda>_. Inr (length seen)))"

definition verify ::
  "(string \<Rightarrow> bytes) \<Rightarrow> bytes \<Rightarrow> bytes \<Rightarrow> vpk_entry list \<Rightarrow> byte_error + nat" where
  "verify read b arc entries =
     (if length b < 28 then Inl StructError
      else let sig = get_u32 b; ver = get_u32 (drop 4 b);
               tree_size = nat (get_u32 (drop 8 b)); data_sz = nat (get_u32 (drop 12 b));
               amd5 = nat (get_u32 (drop 16 b));
               off = HEADER_SIZE + tree_size + data_sz + amd5
           in if \<not> (sig = VPK_SIGNATURE \<and> ver = VPK_VERSION)
              then Inl (AssertFailed ''bad signature/version'')
              else if md5 (take tree_size (drop HEADER_SIZE b)) \<noteq> take 16 (drop off b)
              then Inl (AssertFailed ''tree MD5'')
              else if md5 (take (off + 32) b) \<noteq> take 16 (drop (off + 32) b)
              then Inl (AssertFailed ''whole-file MD5'')
              else verify_files read entries
                     (walk_tree utf8_decode (verify_entry arc) AtExt (drop HEADER_SIZE b)))"

text \<open>
  \<open>main\<close>: the two files that are on the disk when the command ends, if any, and
  the count it prints or the error it ends with.
\<close>

definition pack_main :: "content \<Rightarrow> (bytes \<times> bytes) option \<times> (byte_error + nat)" where
  "pack_main c =
     (case build c of
        Inl e \<Rightarrow> (None, Inl e)
      | Inr (b, arc, entries) \<Rightarrow> (Some (b, arc), verify (read_file c) b arc entries))"

section \<open>Names\<close>

text \<open>
  A file the format can hold: a name with something on both sides of its last
  dot, no slash and no NUL in it, in a directory that is not the placeholder
  for the root.
\<close>

definition packable_name :: "string \<Rightarrow> bool" where
  "packable_name f \<longleftrightarrow>
     (let (name, dot, ext) = rpartition (CHR ''.'') f
      in dot \<and> name \<noteq> [] \<and> ext \<noteq> [] \<and> CHR ''/'' \<notin> set f \<and> CHR 0x00 \<notin> set f)"

definition packable :: "content \<Rightarrow> bool" where
  "packable c \<longleftrightarrow>
     distinct (all_paths c) \<and>
     (\<forall>(dir, files) \<in> set (walk_dirs c).
        dir \<noteq> '' '' \<and> CHR 0x00 \<notin> set dir \<and> (\<forall>f \<in> set files. packable_name f))"

lemma collect_packable_file:
  assumes "packable_name f" and "dir \<noteq> '' ''" and "CHR 0x00 \<notin> set dir"
    and "collect_file (rel_path dir f) = Inr e"
  shows "e_ext e \<noteq> [] \<and> e_base e \<noteq> [] \<and> e_path e \<noteq> [] \<and>
    CHR 0x00 \<notin> set (e_ext e) \<and> CHR 0x00 \<notin> set (e_base e) \<and> CHR 0x00 \<notin> set (e_path e) \<and>
    vpk_key (e_ext e) (e_path e) (e_base e) = rel_path dir f \<and> e_full e = rel_path dir f"
proof -
  obtain name ext where f: "rpartition (CHR ''.'') f = (name, True, ext)" "name \<noteq> []" "ext \<noteq> []"
    "CHR ''/'' \<notin> set f" "CHR 0x00 \<notin> set f"
    using assms(1) by (auto simp: packable_name_def split: prod.splits)
  then have name: "f = name @ CHR ''.'' # ext" by (auto dest: rpartition_True)
  have rel: "rpartition (CHR ''/'') (rel_path dir f) = (dir, dir \<noteq> [], f)"
    using f(4) by (simp add: rel_path_def rpartition_split rpartition_none)
  from assms(4) rel f show ?thesis
    using assms(2,3) name by (auto simp: collect_file_def vpk_key_def rel_path_def)
qed

lemma collect_file_full: "collect_file rel = Inr e \<Longrightarrow> e_full e = rel"
  by (auto simp: collect_file_def Let_def split: prod.splits if_splits)

lemma collect_fulls: "rmap collect_file rels = Inr es \<Longrightarrow> map e_full es = rels"
  by (induction rels arbitrary: es) (auto simp: result_simps collect_file_full)

lemma collect_packable:
  assumes "packable c" and "collect c = Inr entries" and "e \<in> set entries"
  shows "e_ext e \<noteq> [] \<and> e_base e \<noteq> [] \<and> e_path e \<noteq> [] \<and>
    CHR 0x00 \<notin> set (e_ext e) \<and> CHR 0x00 \<notin> set (e_base e) \<and> CHR 0x00 \<notin> set (e_path e) \<and>
    vpk_key (e_ext e) (e_path e) (e_base e) = e_full e"
proof -
  from assms(2) have all: "rmap collect_file (all_paths c) = Inr entries"
    by (auto simp: collect_def result_simps split: if_splits)
  with assms(3) obtain rel where rel: "rel \<in> set (all_paths c)" "collect_file rel = Inr e"
    by (metis (mono_tags, lifting) rmap_Inr_iff list_all2_conv_all_nth in_set_conv_nth)
  then obtain dir files f where "(dir, files) \<in> set (walk_dirs c)" "f \<in> set files" "rel = rel_path dir f"
    by (auto simp: all_paths_def)
  with assms(1) rel(2) collect_packable_file [of f dir e] show ?thesis
    by (fastforce simp: packable_def)
qed

lemma collect_distinct:
  assumes "packable c" and "collect c = Inr entries"
  shows "distinct (map e_full entries)"
  using assms collect_fulls by (fastforce simp: collect_def packable_def result_simps split: if_splits)

lemma collect_distinct_keys:
  assumes "packable c" and "collect c = Inr entries"
  shows "distinct (map entry_key entries)"
proof -
  have "map e_full entries = map ((\<lambda>(x, p, b). vpk_key x p b) \<circ> entry_key) entries"
    using collect_packable [OF assms] by (auto simp: entry_key_def)
  with collect_distinct [OF assms] show ?thesis by (metis distinct_map map_map)
qed

section \<open>The archive\<close>

lemma layout_snoc: "layout read (es @ [e]) = store_file read (layout read es) e"
  by (simp add: layout_def)

lemma layout_archive: "fst (layout read es) = concat (map (read \<circ> e_full) es)"
  by (induction es rule: rev_induct) (auto simp: layout_def store_file_def Let_def split_def)

definition in_archive :: "bytes \<Rightarrow> meta \<Rightarrow> bool" where
  "in_archive arc = (\<lambda>(crc, off, len).
     uint (crc32 (take (nat len) (drop (nat off) arc))) = crc)"

definition stored :: "bytes \<Rightarrow> meta \<Rightarrow> bytes" where
  "stored arc = (\<lambda>(crc, off, len). take (nat len) (drop (nat off) arc))"

lemma layout_meta:
  assumes "distinct (map entry_key es)" and "e \<in> set es"
  shows "\<exists>m. snd (layout read es) (entry_key e) = Some m \<and>
    stored (fst (layout read es) @ after) m = read (e_full e) \<and>
    in_archive (fst (layout read es) @ after) m"
  using assms
proof (induction es arbitrary: after rule: rev_induct)
  case Nil
  then show ?case by simp
next
  case (snoc x es)
  obtain arc meta where l: "layout read es = (arc, meta)" by fastforce
  show ?case
  proof (cases "e = x")
    case True
    then show ?thesis
      by (simp add: layout_snoc l store_file_def Let_def stored_def in_archive_def)
  next
    case False
    with snoc.prems have e: "e \<in> set es" "distinct (map entry_key es)"
      "entry_key x \<notin> entry_key ` set es" by auto
    then have ne: "entry_key e \<noteq> entry_key x" by (metis imageI)
    with ne snoc.IH [OF e(2) e(1), of "read (e_full x) @ after"] show ?thesis
      by (simp add: layout_snoc l store_file_def Let_def)
  qed
qed

section \<open>Reading back\<close>

lemma pack_u32_eq: "pack_u32 n = Inr b \<longleftrightarrow> 0 \<le> n \<and> n < 4294967296 \<and> b = le32 n"
  by (auto simp: pack_u32_def)

lemma entry_bytes_eq:
  "entry_bytes (crc, off, len) = Inr b \<longleftrightarrow>
     0 \<le> crc \<and> crc < 4294967296 \<and> 0 \<le> off \<and> off < 4294967296 \<and> 0 \<le> len \<and> len < 4294967296 \<and>
     b = le32 crc @ le16 0 @ le16 ARCHIVE_INDEX @ le32 off @ le32 len @ le16 ENTRY_TERMINATOR"
  by (auto simp: entry_bytes_def result_simps pack_u32_eq)

lemma length_entry_bytes: "entry_bytes m = Inr b \<Longrightarrow> length b = 18"
  by (cases m) (auto simp: entry_bytes_eq)

interpretation verify_reader: vpk_reader utf8_decode "verify_entry arc" "\<lambda>s. s" "stored arc" "in_archive arc"
  for arc
proof unfold_locales
  fix m b rest
  assume ok: "in_archive arc m" and b: "entry_bytes m = Inr b"
  obtain crc off len where m: "m = (crc, off, len)" by (cases m) auto
  from b show "verify_entry arc (b @ rest) = Inr (stored arc m, length b)"
    using ok unfolding m
    by (auto simp: entry_bytes_eq verify_entry_def get_u32_le32 get_u16_le16 stored_def
        in_archive_def Let_def)
qed (simp_all add: utf8_roundtrip)

lemma seen_files_snoc:
  "seen_files (items @ [(x, p, b, data)]) = AList.update (vpk_key x p b) data (seen_files items)"
  by (simp add: seen_files_def)

definition item_file :: "bytes item \<Rightarrow> string \<times> bytes" where
  "item_file = (\<lambda>(x, p, b, data). (vpk_key x p b, data))"

lemma update_new: "k \<notin> fst ` set d \<Longrightarrow> AList.update k v d = d @ [(k, v)]"
  by (induction d) auto

lemma seen_files_keys: "distinct (map (fst \<circ> item_file) items) \<Longrightarrow> seen_files items = map item_file items"
proof (induction items rule: rev_induct)
  case Nil
  then show ?case by (simp add: seen_files_def)
next
  case (snoc it items)
  obtain x p b data where it: "it = (x, p, b, data)" by (cases it) auto
  have new: "vpk_key x p b \<notin> fst ` set (map item_file items)"
    using snoc.prems by (auto simp: it item_file_def image_image)
  have "seen_files items = map item_file items" using snoc by simp
  then show ?case
    by (simp only: it seen_files_snoc update_new [OF new]) (simp add: item_file_def)
qed

lemma header_fields:
  assumes "vpk_header tree = Inr h"
  shows "length h = 28" "get_u32 (h @ rest) = VPK_SIGNATURE" "get_u32 (drop 4 (h @ rest)) = VPK_VERSION"
    "get_u32 (drop 8 (h @ rest)) = int (length tree)" "get_u32 (drop 12 (h @ rest)) = 0"
    "get_u32 (drop 16 (h @ rest)) = 0"
  using assms
  by (auto simp: vpk_header_def result_simps pack_u32_eq get_u32_le32 VPK_SIGNATURE_def VPK_VERSION_def)

lemma verify_sealed:
  assumes "vpk_header tree = Inr h"
  shows "verify read (seal h tree) arc entries =
    verify_files read entries
      (walk_tree utf8_decode (verify_entry arc) AtExt (tree @ drop (28 + length tree) (seal h tree)))"
proof -
  note h = header_fields [OF assms]
  define s where "s = seal h tree"
  have s: "s = h @ tree @ md5 tree @ md5 [] @ md5 ((h @ tree) @ md5 tree @ md5 [])"
    by (simp add: s_def seal_def Let_def)
  then have d: "drop (28 + length tree) s = md5 tree @ md5 [] @ md5 ((h @ tree) @ md5 tree @ md5 [])"
    "drop 28 s = tree @ drop (28 + length tree) s"
    "drop (28 + length tree + 32) s = md5 ((h @ tree) @ md5 tree @ md5 [])"
    "take (28 + length tree + 32) s = (h @ tree) @ md5 tree @ md5 []"
    "28 \<le> length s"
    by (simp_all add: h(1))
  have f: "get_u32 s = VPK_SIGNATURE" "get_u32 (drop 4 s) = VPK_VERSION"
    "get_u32 (drop 8 s) = int (length tree)" "get_u32 (drop 12 s) = 0" "get_u32 (drop 16 s) = 0"
    using h(2-6) unfolding s by blast+
  have "take (length tree) (drop 28 s) = tree" "take 16 (drop (28 + length tree) s) = md5 tree"
    "take 16 (drop (28 + length tree + 32) s) = md5 (take (28 + length tree + 32) s)"
    using d by simp_all
  then show ?thesis
    using d(2,5) unfolding verify_def s_def [symmetric] Let_def f HEADER_SIZE_def by simp
qed

section \<open>What a build contains\<close>

lemma build_parts:
  assumes "build c = Inr (b, arc, entries)"
  obtains meta tree h where "collect c = Inr entries" "layout (read_file c) entries = (arc, meta)"
    "tree_bytes meta (by_ext entries) = Inr tree" "vpk_header tree = Inr h" "b = seal h tree"
proof -
  from assms obtain es where es: "collect c = Inr es"
    "(let (archive, meta) = layout (read_file c) es
      in rbind (tree_bytes meta (by_ext es)) (\<lambda>tree.
         rbind (vpk_header tree) (\<lambda>header. Inr (seal header tree, archive, es)))) = Inr (b, arc, entries)"
    by (auto simp: build_def result_simps)
  obtain archive meta where l: "layout (read_file c) es = (archive, meta)" by fastforce
  from es(2) obtain tree h where "tree_bytes meta (by_ext es) = Inr tree" "vpk_header tree = Inr h"
    "b = seal h tree" "arc = archive" "entries = es"
    by (auto simp: l result_simps)
  with es(1) l that show thesis by simp
qed

lemma tree_readable:
  assumes "packable c" and "collect c = Inr entries" and "layout (read_file c) entries = (arc, meta)"
    and "k \<in> set (tree_items (by_ext entries))"
  shows "vpk_reader.readable (in_archive arc) meta k"
proof -
  from assms(4) obtain e where e: "e \<in> set entries" "k = entry_key e"
    by (auto simp: set_tree_items)
  with layout_meta [OF collect_distinct_keys [OF assms(1,2)] e(1), of "read_file c" "[]"] assms(3)
  have "\<exists>m. meta (entry_key e) = Some m \<and> in_archive arc m" by auto
  with collect_packable [OF assms(1,2) e(1)] show ?thesis
    by (simp add: verify_reader.readable_def e(2) entry_key_def)
qed

lemma entry_levels:
  assumes "packable c" and "collect c = Inr entries"
  shows "\<forall>x \<in> set (by_ext entries). fst x \<noteq> [] \<and> CHR 0x00 \<notin> set (fst x)"
    and "\<forall>x \<in> set (by_ext entries). \<forall>p \<in> set (snd x). fst p \<noteq> [] \<and> CHR 0x00 \<notin> set (fst p)"
proof -
  note ok = collect_packable [OF assms]
  have "fst x \<in> e_ext ` set entries" if "x \<in> set (by_ext entries)" for x
    using that fst_by_ext [of entries] by force
  then show "\<forall>x \<in> set (by_ext entries). fst x \<noteq> [] \<and> CHR 0x00 \<notin> set (fst x)"
    using ok by (metis (no_types, lifting) imageE)
  show "\<forall>x \<in> set (by_ext entries). \<forall>p \<in> set (snd x). fst p \<noteq> [] \<and> CHR 0x00 \<notin> set (fst p)"
    using ok paths_by_ext [of _ entries] by (metis (no_types, lifting) imageE)
qed

lemma built_file_data:
  assumes "packable c" and "collect c = Inr entries" and "layout (read_file c) entries = (arc, meta)"
    and "e \<in> set entries"
  shows "item_file (verify_reader.seen_as arc meta (entry_key e)) = (e_full e, read_file c (e_full e))"
  using layout_meta [OF collect_distinct_keys [OF assms(1,2)] assms(4), of "read_file c" "[]"]
    collect_packable [OF assms(1,2,4)] assms(3)
  by (auto simp: verify_reader.seen_as_def entry_key_def item_file_def)

lemma built_seen:
  assumes "packable c" and "collect c = Inr entries" and "layout (read_file c) entries = (arc, meta)"
    and "items = map (verify_reader.seen_as arc meta) (tree_items (by_ext entries))"
  shows "distinct (map fst (seen_files items))" "length (seen_files items) = length entries"
    "e \<in> set entries \<Longrightarrow> (e_full e, read_file c (e_full e)) \<in> set (seen_files items)"
proof -
  let ?f = "item_file \<circ> verify_reader.seen_as arc meta"
  have all: "mset (map ?f (tree_items (by_ext entries))) =
      mset (map (\<lambda>e. (e_full e, read_file c (e_full e))) entries)"
  proof -
    have "mset (map ?f (tree_items (by_ext entries))) = image_mset ?f (mset (map entry_key entries))"
      by (simp only: mset_map mset_tree_items)
    also have "\<dots> = mset (map (?f \<circ> entry_key) entries)" by (simp only: mset_map [symmetric] map_map)
    also have "map (?f \<circ> entry_key) entries = map (\<lambda>e. (e_full e, read_file c (e_full e))) entries"
      using built_file_data [OF assms(1-3)] by simp
    finally show ?thesis .
  qed
  from arg_cong [OF all, of "image_mset fst"]
  have "mset (map (fst \<circ> ?f) (tree_items (by_ext entries))) = mset (map e_full entries)"
    by (simp add: image_mset.compositionality comp_def)
  with collect_distinct [OF assms(1,2)]
  have d: "distinct (map (fst \<circ> item_file) items)"
    unfolding assms(4) map_map comp_assoc [symmetric]
    by (metis mset_eq_imp_distinct_iff comp_assoc)
  note seen = seen_files_keys [OF d]
  from d seen show "distinct (map fst (seen_files items))" by simp
  from arg_cong [OF all, of size] show "length (seen_files items) = length entries"
    unfolding seen by (simp add: assms(4))
  from arg_cong [OF all, of set_mset]
  show "e \<in> set entries \<Longrightarrow> (e_full e, read_file c (e_full e)) \<in> set (seen_files items)"
    unfolding seen by (force simp: assms(4) image_image)
qed

lemma build_verifies:
  assumes "packable c" and "build c = Inr (b, arc, entries)"
  shows "verify (read_file c) b arc entries = Inr (length entries)"
proof -
  from assms(2) obtain meta tree h where p: "collect c = Inr entries"
    "layout (read_file c) entries = (arc, meta)" "tree_bytes meta (by_ext entries) = Inr tree"
    "vpk_header tree = Inr h" "b = seal h tree"
    by (rule build_parts)
  define items where "items = map (verify_reader.seen_as arc meta) (tree_items (by_ext entries))"
  note seen = built_seen [OF assms(1) p(1,2) items_def]
  have "walk_tree utf8_decode (verify_entry arc) AtExt (tree @ drop (28 + length tree) b) = (items, None)"
    unfolding items_def
    using tree_readable [OF assms(1) p(1,2)] entry_levels [OF assms(1) p(1)] p(3)
    by (intro verify_reader.walk_tree_bytes) auto
  moreover have "check_entry (read_file c) (seen_files items) e = Inr ()" if "e \<in> set entries" for e
    using seen(1) seen(3) [OF that] collect_packable [OF assms(1) p(1) that]
    by (simp add: check_entry_def)
  then have "rmap (check_entry (read_file c) (seen_files items)) entries = Inr (map (\<lambda>_. ()) entries)"
    by (intro rmap_eq_InrI) simp
  ultimately show ?thesis
    using verify_sealed [OF p(4)] seen(2) by (simp add: p(5) verify_files_def)
qed

section \<open>What cannot be packed\<close>

lemma walk_tree_names:
  "it \<in> set (fst (walk_tree dec ent lv bs)) \<Longrightarrow> (\<forall>ext path. lv = AtName ext path \<longrightarrow> path \<noteq> []) \<Longrightarrow>
     fst (snd it) \<noteq> [] \<and> fst (snd (snd it)) \<noteq> []"
proof (induction bs arbitrary: lv rule: measure_induct_rule [of length])
  case (less bs)
  from less.prems(1) obtain raw rest s where c: "cut_nul bs = Some (raw, rest)" "dec raw = Inr s"
    by (subst (asm) walk_tree.simps) (auto split: option.splits sum.splits)
  note shorter = cut_nul_shorter [OF c(1)]
  note step = less.prems(1) [unfolded walk_tree.simps [of dec ent lv bs] c(1), simplified, unfolded c(2), simplified]
  show ?case
  proof (cases lv)
    case AtExt
    with step have "it \<in> set (fst (walk_tree dec ent (AtPath s) rest))" by (auto split: if_splits)
    with less.IH [OF shorter] show ?thesis by blast
  next
    case (AtPath ext)
    with step have "s \<noteq> [] \<and> it \<in> set (fst (walk_tree dec ent (AtName ext s) rest)) \<or>
        it \<in> set (fst (walk_tree dec ent AtExt rest))" by (auto split: if_splits)
    with less.IH [OF shorter] show ?thesis by blast
  next
    case (AtName ext path)
    show ?thesis
    proof (cases "s = []")
      case True
      with step AtName have "it \<in> set (fst (walk_tree dec ent (AtPath ext) rest))" by simp
      with less.IH [OF shorter] show ?thesis by blast
    next
      case False
      show ?thesis
      proof (cases "ent rest")
        case (Inl x)
        with step AtName False show ?thesis by simp
      next
        case (Inr r)
        obtain m skip where r: "r = (m, skip)" by (cases r)
        have "length (drop skip rest) < length bs" using shorter by simp
        from less.IH [OF this] have "it \<in> set (fst (walk_tree dec ent lv (drop skip rest))) \<Longrightarrow> ?thesis"
          using less.prems(2) by blast
        moreover have "it = (ext, path, s, m) \<or> it \<in> set (fst (walk_tree dec ent lv (drop skip rest)))"
          using step AtName False Inr r by simp
        ultimately show ?thesis using AtName less.prems(2) False by auto
      qed
    qed
  qed
qed

lemma seen_files_dom:
  "map_of (seen_files items) k \<noteq> None \<Longrightarrow> \<exists>(x, p, b, data) \<in> set items. vpk_key x p b = k"
proof (induction items rule: rev_induct)
  case Nil
  then show ?case by (simp add: seen_files_def)
next
  case (snoc it items)
  then show ?case
    by (cases it) (auto simp: seen_files_snoc update_conv' split: if_splits)
qed

text \<open>No name a reader can report has the spelling of a dotfile in the root.\<close>

lemma dotfile_key:
  assumes "vpk_key x p b = CHR ''.'' # ext" and "p \<noteq> []" and "b \<noteq> []"
  shows "CHR ''.'' \<in> set ext \<or> CHR ''/'' \<in> set ext"
proof (cases "p = '' ''")
  case True
  with assms(1,3) show ?thesis by (cases b) (auto simp: vpk_key_def dest: sym)
next
  case False
  with assms(1,2) show ?thesis by (cases p) (auto simp: vpk_key_def dest: sym)
qed

lemma dotfile_never_verifies:
  assumes "collect_file (CHR ''.'' # ext) = Inr e" and "CHR ''.'' \<notin> set ext" and "CHR ''/'' \<notin> set ext"
    and "e \<in> set entries"
  shows "verify read b arc entries \<noteq> Inr n"
proof
  assume v: "verify read b arc entries = Inr n"
  obtain items stop where w:
    "walk_tree utf8_decode (verify_entry arc) AtExt (drop HEADER_SIZE b) = (items, stop)" by fastforce
  from v w have "verify_files read entries (items, stop) = Inr n"
    by (auto simp: verify_def Let_def split: if_splits)
  then obtain us where "rmap (check_entry read (seen_files items)) entries = Inr us"
    by (auto simp: verify_files_def result_simps Let_def split: option.splits)
  with assms(4) have "\<exists>u. check_entry read (seen_files items) e = Inr u"
    by (auto simp: rmap_Inr_iff list_all2_conv_all_nth in_set_conv_nth)
  then have "map_of (seen_files items) (vpk_key (e_ext e) (e_path e) (e_base e)) \<noteq> None"
    by (auto simp: check_entry_def Let_def split: option.splits)
  moreover have "vpk_key (e_ext e) (e_path e) (e_base e) = CHR ''.'' # ext"
    using assms(1) rpartition_split [OF assms(2), of "[]"] assms(3)
    by (auto simp: collect_file_def rpartition_none vpk_key_def)
  ultimately obtain x p nm data where it: "(x, p, nm, data) \<in> set items" "vpk_key x p nm = CHR ''.'' # ext"
    using seen_files_dom by fastforce
  have "p \<noteq> [] \<and> nm \<noteq> []"
    using walk_tree_names [of "(x, p, nm, data)" utf8_decode "verify_entry arc" AtExt "drop HEADER_SIZE b"] it(1)
    by (simp add: w)
  with dotfile_key [OF it(2)] assms(2,3) show False by blast
qed

lemma empty_ext_first:
  assumes "[] \<in> fst ` set d"
  shows "\<exists>paths d'. sort_key fst d = ([], paths) # d'"
proof -
  have "sorted (map fst (sort_key fst d))" by simp
  moreover have "[] \<in> fst ` set (sort_key fst d)" using assms by simp
  ultimately show ?thesis
    by (cases "sort_key fst d") (auto simp: less_eq_list_code split: prod.splits)
qed

lemma empty_ext_hides_all:
  assumes "build c = Inr (b, arc, entries)" and "\<exists>e \<in> set entries. e_ext e = []"
  shows "verify (read_file c) b arc entries =
    Inl (AssertFailed (''missing from VPK: '' @
      vpk_key (e_ext (hd entries)) (e_path (hd entries)) (e_base (hd entries))))"
proof -
  from assms(1) obtain meta tree h where p: "collect c = Inr entries"
    "layout (read_file c) entries = (arc, meta)" "tree_bytes meta (by_ext entries) = Inr tree"
    "vpk_header tree = Inr h" "b = seal h tree"
    by (rule build_parts)
  from assms(2) have "[] \<in> fst ` set (by_ext entries)" by (force simp: fst_by_ext)
  then obtain paths d' where "sort_key fst (by_ext entries) = ([], paths) # d'"
    using empty_ext_first by blast
  with p(3) obtain t where "tree = 0 # t"
    by (auto simp: tree_bytes_def ext_bytes_def result_simps)
  then have "walk_tree utf8_decode (verify_entry arc) AtExt (tree @ rest) = ([], None)" for rest
    by (simp add: verify_reader.walk_end)
  moreover obtain e es where "entries = e # es"
    using p(1) by (cases entries) (auto simp: collect_def result_simps split: if_splits)
  ultimately show ?thesis
    using verify_sealed [OF p(4)]
    by (simp add: p(5) verify_files_def seen_files_def check_entry_def Let_def)
qed

section \<open>Packing succeeds below four gigabytes\<close>

definition entry_room :: "string \<times> string \<times> string \<Rightarrow> nat" where
  "entry_room = (\<lambda>(x, p, b).
     length (utf8_encode x) + length (utf8_encode p) + length (utf8_encode b) + 23)"

lemma sum_list_ge: "x \<in> set xs \<Longrightarrow> f x \<le> sum_list (map f xs)" for f :: "'a \<Rightarrow> nat"
  by (induction xs) auto

lemma length_name_bytes:
  "name_bytes meta x p b = Inr bs \<Longrightarrow> length bs = length (utf8_encode b) + 19"
  by (auto simp: name_bytes_def result_simps length_entry_bytes split: option.splits)

lemma rmap_length_le:
  assumes "rmap f xs = Inr ys" and "\<And>x y. x \<in> set xs \<Longrightarrow> f x = Inr y \<Longrightarrow> length y \<le> g x"
  shows "length (concat ys) \<le> sum_list (map g xs)"
  using assms
proof (induction xs arbitrary: ys)
  case Nil
  then show ?case by simp
next
  case (Cons x xs)
  then obtain y ys' where "f x = Inr y" "rmap f xs = Inr ys'" "ys = y # ys'"
    by (auto simp: result_simps)
  with Cons show ?case by (fastforce intro: add_mono)
qed

lemma sum_list_add_const:
  fixes g :: "'a \<Rightarrow> nat"
  assumes "xs \<noteq> []"
  shows "k + sum_list (map g xs) \<le> sum_list (map (\<lambda>x. k + g x) xs)"
proof -
  obtain y ys where xs: "xs = y # ys" using assms by (cases xs) auto
  have "sum_list (map g ys) \<le> sum_list (map (\<lambda>x. k + g x) ys)" by (rule sum_list_mono) simp
  then show ?thesis by (simp add: xs)
qed

lemma length_path_bytes:
  assumes "path_bytes meta x (p, bs) = Inr out" and "bs \<noteq> []"
  shows "length out \<le> sum_list (map (\<lambda>(x, p, b). length (utf8_encode p) + 2 + (length (utf8_encode b) + 19))
    (path_items x (p, bs)))"
proof -
  obtain ns where n: "rmap (name_bytes meta x p) (sort bs) = Inr ns" "out = utf8_encode p @ 0 # concat ns @ [0]"
    using assms(1) by (auto simp: path_bytes_def result_simps)
  have "length (concat ns) \<le> sum_list (map (\<lambda>b. length (utf8_encode b) + 19) (sort bs))"
    using n(1) by (rule rmap_length_le) (simp add: length_name_bytes)
  moreover have "sort bs \<noteq> []" using assms(2) by (metis set_sort set_empty)
  then have "length (utf8_encode p) + 2 + sum_list (map (\<lambda>b. length (utf8_encode b) + 19) (sort bs)) \<le>
      sum_list (map (\<lambda>b. length (utf8_encode p) + 2 + (length (utf8_encode b) + 19)) (sort bs))"
    by (rule sum_list_add_const)
  ultimately show ?thesis by (simp add: n(2) path_items_def comp_def)
qed

lemma sum_list_concat: "sum_list (map g (concat xss)) = sum_list (map (\<lambda>xs. sum_list (map g xs)) xss)"
  by (induction xss) auto

lemma length_ext_bytes:
  assumes "ext_bytes meta (x, ps) = Inr out" and "ps \<noteq> []" and "\<forall>p \<in> set ps. snd p \<noteq> []"
  shows "length out \<le> sum_list (map entry_room (ext_items (x, ps)))"
proof -
  let ?g = "\<lambda>(x :: string, p, b). length (utf8_encode p) + 2 + (length (utf8_encode b) + 19)"
  obtain ns where n: "rmap (path_bytes meta x) (sort_key fst ps) = Inr ns"
    "out = utf8_encode x @ 0 # concat ns @ [0]"
    using assms(1) by (auto simp: ext_bytes_def result_simps)
  have "length (concat ns) \<le> sum_list (map (\<lambda>p. sum_list (map ?g (path_items x p))) (sort_key fst ps))"
  proof (rule rmap_length_le [OF n(1)])
    fix p y
    assume p: "p \<in> set (sort_key fst ps)" and y: "path_bytes meta x p = Inr y"
    obtain path bases where "p = (path, bases)" by (cases p)
    with p y assms(3) length_path_bytes [of meta x path bases y]
    show "length y \<le> sum_list (map ?g (path_items x p))" by auto
  qed
  then have le: "length (concat ns) \<le> sum_list (map ?g (ext_items (x, ps)))"
    by (simp add: ext_items_def sum_list_concat comp_def)
  have "ext_items (x, ps) \<noteq> []"
  proof -
    obtain q where "q \<in> set ps" using assms(2) by (cases ps) auto
    with assms(3) obtain b where "b \<in> set (snd q)" by (cases "snd q") auto
    then have "(x, fst q, b) \<in> set (path_items x q)" by (simp add: path_items_def split_def image_iff)
    moreover have "set (path_items x q) \<subseteq> set (ext_items (x, ps))"
      using \<open>q \<in> set ps\<close> by (simp add: ext_items_def) blast
    ultimately have "(x, fst q, b) \<in> set (ext_items (x, ps))" by blast
    then show ?thesis by auto
  qed
  from sum_list_add_const [OF this, of "length (utf8_encode x) + 2" ?g] le n(2)
  have "length out \<le> sum_list (map (\<lambda>k. length (utf8_encode x) + 2 + ?g k) (ext_items (x, ps)))"
    by simp
  also have "map (\<lambda>k. length (utf8_encode x) + 2 + ?g k) (ext_items (x, ps)) = map entry_room (ext_items (x, ps))"
    by (auto simp: ext_items_def path_items_def entry_room_def)
  finally show ?thesis .
qed

lemma length_tree_bytes:
  assumes "tree_bytes meta (by_ext entries) = Inr tree"
  shows "length tree \<le> 1 + sum_list (map (entry_room \<circ> entry_key) entries)"
proof -
  obtain bs where b: "rmap (ext_bytes meta) (sort_key fst (by_ext entries)) = Inr bs" "tree = concat bs @ [0]"
    using assms by (auto simp: tree_bytes_def result_simps)
  have "length (concat bs) \<le>
      sum_list (map (\<lambda>x. sum_list (map entry_room (ext_items x))) (sort_key fst (by_ext entries)))"
  proof (rule rmap_length_le [OF b(1)])
    fix g y
    assume "g \<in> set (sort_key fst (by_ext entries))" and y: "ext_bytes meta g = Inr y"
    then obtain x es where g: "(x, es) \<in> set (group_by e_ext id entries)" "g = (x, group_by e_path e_base es)"
      by (auto simp: by_ext_def)
    from g(1) have "es \<noteq> []" by (auto simp: mem_group_by filter_empty_conv)
    then have "group_by e_path e_base es \<noteq> []" using keys_group_by [of e_path e_base es] by auto
    moreover have "\<forall>p \<in> set (group_by e_path e_base es). snd p \<noteq> []"
      by (auto simp: mem_group_by filter_empty_conv)
    ultimately show "length y \<le> sum_list (map entry_room (ext_items g))"
      using length_ext_bytes [of meta x _ y] y g(2) by blast
  qed
  also have "\<dots> = sum_list (map entry_room (tree_items (by_ext entries)))"
    by (simp add: tree_items_def sum_list_concat comp_def)
  also have "\<dots> = sum_mset (image_mset entry_room (mset (tree_items (by_ext entries))))"
    by (simp flip: mset_map add: sum_mset_sum_list)
  also have "\<dots> = sum_list (map (entry_room \<circ> entry_key) entries)"
    by (simp add: mset_tree_items flip: mset_map sum_mset_sum_list)
  finally show ?thesis by (simp add: b(2))
qed

lemma layout_fields:
  "e \<in> set es \<Longrightarrow> \<exists>crc off len. snd (layout read es) (entry_key e) = Some (uint (crc :: 32 word), off, len) \<and>
     0 \<le> off \<and> 0 \<le> len \<and> off + len \<le> int (length (fst (layout read es)))"
proof (induction es rule: rev_induct)
  case Nil
  then show ?case by simp
next
  case (snoc x es)
  obtain arc meta where l: "layout read es = (arc, meta)" by fastforce
  show ?case
  proof (cases "entry_key e = entry_key x")
    case True
    then show ?thesis by (auto simp: layout_snoc l store_file_def Let_def)
  next
    case False
    with snoc.prems have "e \<in> set es" by auto
    from snoc.IH [OF this] False show ?thesis
      by (fastforce simp: layout_snoc l store_file_def Let_def)
  qed
qed

lemma entry_bytes_total:
  assumes "0 \<le> off" "0 \<le> len" "off + len < 4294967296"
  shows "\<exists>b. entry_bytes (uint (crc :: 32 word), off, len) = Inr b"
  using assms uint_lt2p [of crc] by (auto simp: entry_bytes_eq)

lemma tree_bytes_total:
  assumes "\<And>k. k \<in> set (tree_items d) \<Longrightarrow> \<exists>m b. meta k = Some m \<and> entry_bytes m = Inr b"
  shows "\<exists>t. tree_bytes meta d = Inr t"
proof -
  have "\<exists>out. path_bytes meta x p = Inr out" if "set (path_items x p) \<subseteq> set (tree_items d)" for x p
  proof -
    obtain path bases where p: "p = (path, bases)" by (cases p)
    have "\<exists>b. name_bytes meta x path base = Inr b" if "base \<in> set (sort bases)" for base
    proof -
      from that \<open>set (path_items x p) \<subseteq> set (tree_items d)\<close> p have "(x, path, base) \<in> set (tree_items d)"
        by (auto simp: path_items_def)
      from assms [OF this] show ?thesis by (auto simp: name_bytes_def)
    qed
    then obtain bs where "rmap (name_bytes meta x path) (sort bases) = Inr bs"
      using rmap_total by meson
    then show ?thesis by (simp add: p path_bytes_def)
  qed
  note paths = this
  have "\<exists>out. ext_bytes meta g = Inr out" if "set (ext_items g) \<subseteq> set (tree_items d)" for g
  proof -
    obtain x ps where g: "g = (x, ps)" by (cases g)
    have "\<exists>out. path_bytes meta x p = Inr out" if "p \<in> set (sort_key fst ps)" for p
      using that \<open>set (ext_items g) \<subseteq> set (tree_items d)\<close> g
      by (intro paths) (auto simp: ext_items_def)
    then obtain bs where "rmap (path_bytes meta x) (sort_key fst ps) = Inr bs"
      using rmap_total by meson
    then show ?thesis by (simp add: g ext_bytes_def)
  qed
  moreover have "set (ext_items g) \<subseteq> set (tree_items d)" if "g \<in> set (sort_key fst d)" for g
    using that by (simp add: tree_items_def) blast
  ultimately have "\<exists>out. ext_bytes meta g = Inr out" if "g \<in> set (sort_key fst d)" for g
    using that by blast
  then obtain bs where "rmap (ext_bytes meta) (sort_key fst d) = Inr bs" using rmap_total by meson
  then show ?thesis by (simp add: tree_bytes_def)
qed

lemma collect_total:
  assumes "packable c" and "all_paths c \<noteq> []"
  shows "\<exists>entries. collect c = Inr entries \<and> entries \<noteq> []"
proof -
  have "\<exists>e. collect_file rel = Inr e" if rel: "rel \<in> set (all_paths c)" for rel
  proof -
    from rel obtain dir files f where f: "(dir, files) \<in> set (walk_dirs c)" "f \<in> set files" "rel = rel_path dir f"
      by (auto simp: all_paths_def)
    with assms(1) have "packable_name f" by (auto simp: packable_def)
    then show ?thesis
      by (auto simp: packable_name_def collect_file_def f(3) rel_path_def rpartition_split
          rpartition_none split: prod.splits)
  qed
  then obtain es where es: "rmap collect_file (all_paths c) = Inr es" using rmap_total by meson
  with assms(2) have "es \<noteq> []" using collect_fulls [OF es] by auto
  with es show ?thesis by (simp add: collect_def)
qed

lemma build_total:
  assumes "packable c" and "all_paths c \<noteq> []"
    and "sum_list (map (length \<circ> read_file c) (all_paths c)) < 4294967296"
    and "\<And>entries. collect c = Inr entries \<Longrightarrow>
      sum_list (map (entry_room \<circ> entry_key) entries) < 4294967295"
  shows "\<exists>b arc entries. build c = Inr (b, arc, entries) \<and> map e_full entries = all_paths c"
proof -
  obtain entries where c: "collect c = Inr entries" "entries \<noteq> []"
    using collect_total [OF assms(1,2)] by blast
  have full: "map e_full entries = all_paths c"
    using c(1) by (auto simp: collect_def result_simps collect_fulls split: if_splits)
  obtain arc meta where l: "layout (read_file c) entries = (arc, meta)" by fastforce
  have "arc = concat (map (read_file c) (map e_full entries))"
    using layout_archive [of "read_file c" entries] by (simp add: l)
  then have small: "length arc < 4294967296"
    using assms(3) by (simp add: full length_concat)
  have "\<exists>m b. meta k = Some m \<and> entry_bytes m = Inr b" if "k \<in> set (tree_items (by_ext entries))" for k
  proof -
    from that obtain e where "e \<in> set entries" "k = entry_key e" by (auto simp: set_tree_items)
    with layout_fields [of e entries "read_file c"] l obtain crc off len where
      m: "meta k = Some (uint (crc :: 32 word), off, len)" "0 \<le> off" "0 \<le> len" "off + len \<le> int (length arc)"
      by auto
    moreover from m(4) small have "off + len < 4294967296" by linarith
    ultimately show ?thesis using entry_bytes_total by blast
  qed
  then obtain tree where t: "tree_bytes meta (by_ext entries) = Inr tree" using tree_bytes_total by blast
  from length_tree_bytes [OF t] assms(4) [OF c(1)] obtain h where "vpk_header tree = Inr h"
    by (simp add: vpk_header_def pack_u32_def)
  with c l t full show ?thesis by (simp add: build_def)
qed

section \<open>Properties\<close>

definition sample_content :: content where
  "sample_content =
     \<lparr>walk_dirs = [('''', [''b.cfg'']), (''scripts/theaters'', [''x.theater'', ''a.theater''])],
      read_file = (\<lambda>p. if p = ''b.cfg'' then [1, 2, 3] else [4])\<rparr>"

lemma sample_packable: "packable sample_content" "all_paths sample_content \<noteq> []"
  by code_simp+

lemma sample_collect:
  "collect sample_content = Inr
     [\<lparr>e_ext = ''cfg'', e_path = '' '', e_base = ''b'', e_full = ''b.cfg''\<rparr>,
      \<lparr>e_ext = ''theater'', e_path = ''scripts/theaters'', e_base = ''a'', e_full = ''scripts/theaters/a.theater''\<rparr>,
      \<lparr>e_ext = ''theater'', e_path = ''scripts/theaters'', e_base = ''x'', e_full = ''scripts/theaters/x.theater''\<rparr>]"
  by code_simp

lemma sample_sizes:
  "sum_list (map (length \<circ> read_file sample_content) (all_paths sample_content)) < 4294967296"
  "collect sample_content = Inr entries \<Longrightarrow>
     sum_list (map (entry_room \<circ> entry_key) entries) < 4294967295"
proof -
  have "sum_list (map (length \<circ> read_file sample_content) (all_paths sample_content)) = 5" by code_simp
  then show "sum_list (map (length \<circ> read_file sample_content) (all_paths sample_content)) < 4294967296"
    by simp
  show "sum_list (map (entry_room \<circ> entry_key) entries) < 4294967295"
    if "collect sample_content = Inr entries"
    using that [unfolded sample_collect] by (auto simp: entry_room_def entry_key_def utf8_encode_def encode_char_def)
qed

lemma sample_builds:
  "\<exists>b arc entries. build sample_content = Inr (b, arc, entries) \<and>
     map e_full entries = all_paths sample_content"
  using build_total [OF sample_packable sample_sizes] .

text \<open>
  What the packer writes, its own verifier accepts: for a directory whose
  files the format can hold, reading the two files \<open>build\<close> produced back with the
  independent parser of \<open>verify\<close> passes the signature, both MD5 sums and every
  CRC, finds every file with the bytes it has on disk, and reports as many files
  as were collected, one for each file of the directory.
\<close>

lemma packed_vpk_verifies:
  assumes "packable c" and "build c = Inr (b, arc, entries)"
  shows "verify (read_file c) b arc entries = Inr (length (all_paths c))"
proof -
  from assms(2) obtain meta tree h where "collect c = Inr entries" by (rule build_parts)
  then have "map e_full entries = all_paths c"
    by (auto simp: collect_def result_simps collect_fulls split: if_splits)
  then have "length (all_paths c) = length entries" by (metis length_map)
  with build_verifies [OF assms] show ?thesis by simp
qed

text \<open>
  C10. The command packs: when the format can hold every file, there is at least
  one, the data fits the 32-bit offsets and the names fit the 32-bit tree size,
  nothing raises, the two files are written, their verification passes and the
  count printed is that of the files of the directory.
\<close>

theorem packing_a_directory_succeeds:
  assumes "packable c" and "all_paths c \<noteq> []"
    and "sum_list (map (length \<circ> read_file c) (all_paths c)) < 4294967296"
    and "\<And>entries. collect c = Inr entries \<Longrightarrow>
      sum_list (map (entry_room \<circ> entry_key) entries) < 4294967295"
  shows "\<exists>b arc. pack_main c = (Some (b, arc), Inr (length (all_paths c)))"
proof -
  obtain b arc entries where b: "build c = Inr (b, arc, entries)" "map e_full entries = all_paths c"
    using build_total [OF assms] by blast
  from b(2) have "length entries = length (all_paths c)" by (metis length_map)
  with b(1) build_verifies [OF assms(1) b(1)] show ?thesis by (simp add: pack_main_def)
qed

theorem packing_a_directory_succeeds_witness:
  "\<exists>b arc. pack_main sample_content = (Some (b, arc), Inr 3)"
proof -
  have "length (all_paths sample_content) = 3" by code_simp
  with packing_a_directory_succeeds [OF sample_packable sample_sizes] show ?thesis by simp
qed

text \<open>
  A dotfile in the root cannot be packed, and \<open>collect\<close> does not say so:
  \<open>.htaccess\<close> has a dot, so it passes the extension check with an empty base
  name, which in the tree is the end of the level.  Whatever bytes the two files
  hold, no run of \<open>verify\<close> over those entries succeeds.
\<close>

lemma root_dotfile_never_verifies:
  assumes "collect c = Inr entries" and "CHR ''.'' # ext \<in> set (all_paths c)"
    and "CHR ''.'' \<notin> set ext" and "CHR ''/'' \<notin> set ext"
  shows "verify read b arc entries \<noteq> Inr n"
proof -
  from assms(1) have "rmap collect_file (all_paths c) = Inr entries"
    by (auto simp: collect_def result_simps split: if_splits)
  with assms(2) obtain e where "e \<in> set entries" "collect_file (CHR ''.'' # ext) = Inr e"
    using rmap_mem by metis
  with dotfile_never_verifies assms(3,4) show ?thesis by blast
qed

definition dotfile_content :: content where
  "dotfile_content = \<lparr>walk_dirs = [('''', [''.htaccess'', ''map.txt''])], read_file = (\<lambda>p. [1])\<rparr>"

text \<open>
  A name ending in a dot hides the whole pack: its extension is empty and
  sorts first, so the tree begins with the byte that ends it, and \<open>verify\<close>
  reports the first collected file as missing, whichever that is.
\<close>

lemma empty_extension_hides_everything:
  assumes "build c = Inr (b, arc, entries)" and "\<exists>e \<in> set entries. e_ext e = []"
  shows "verify (read_file c) b arc entries =
    Inl (AssertFailed (''missing from VPK: '' @
      vpk_key (e_ext (hd entries)) (e_path (hd entries)) (e_base (hd entries))))"
  using assms by (rule empty_ext_hides_all)

definition trailing_content :: content where
  "trailing_content = \<lparr>walk_dirs = [('''', [''a.txt'', ''b.''])], read_file = (\<lambda>p. [1])\<rparr>"

lemma trailing_builds:
  "\<exists>b arc. build trailing_content = Inr (b, arc,
     [\<lparr>e_ext = ''txt'', e_path = '' '', e_base = ''a'', e_full = ''a.txt''\<rparr>,
      \<lparr>e_ext = [], e_path = '' '', e_base = ''b'', e_full = ''b.''\<rparr>])"
  (is "\<exists>b arc. _ = Inr (b, arc, ?es)")
proof -
  have c: "collect trailing_content = Inr ?es" by code_simp
  obtain arc meta where l: "layout (read_file trailing_content) ?es = (arc, meta)" by fastforce
  have "\<not> isl (tree_bytes (snd (layout (read_file trailing_content) ?es)) (by_ext ?es))" by code_simp
  then obtain tree where t: "tree_bytes meta (by_ext ?es) = Inr tree"
    by (cases "tree_bytes meta (by_ext ?es)") (auto simp: l)
  have "length tree < 4294967296"
    using length_tree_bytes [OF t] by (simp add: entry_room_def entry_key_def utf8_encode_def encode_char_def)
  then show ?thesis by (simp add: build_def c l t vpk_header_def pack_u32_def)
qed

end
