(* ===== verification/VpkReaders.thy ===== *)
theory VpkReaders
  imports Vpk
begin

text \<open>
  The two tools that list a VPK from its directory file alone: \<open>vpk_names\<close> of
  \<open>fastdl/tools/mapvote_images.py\<close>, which lets a damaged file raise, and
  \<open>vpk_entries\<close> of \<open>tools/bspaudit/collect_content_index.py\<close>, which keeps what it
  read.  Both decode names as Latin-1.
\<close>

section \<open>Listing a VPK\<close>

definition latin1 :: "bytes \<Rightarrow> byte_error + string" where
  "latin1 b = Inr (latin1_decode b)"

definition names_entry :: "bytes \<Rightarrow> byte_error + unit \<times> nat" where
  "names_entry b = (if length b < 6 then Inl StructError else Inr ((), 18 + nat (get_u16 (drop 4 b))))"

definition names_full :: "unit item \<Rightarrow> string" where
  "names_full = (\<lambda>(ext, folder, name, _).
     py_lower (if (\<forall>c \<in> set folder. py_isspace c) then name @ CHR ''.'' # ext
               else folder @ CHR ''/'' # name @ CHR ''.'' # ext))"

definition vpk_names :: "bytes \<Rightarrow> byte_error + string set" where
  "vpk_names f =
     (if length f < 12 then Inl StructError
      else let sig = get_u32 f; ver = get_u32 (drop 4 f); tree = nat (get_u32 (drop 8 f))
           in if sig \<noteq> VPK_SIGNATURE then Inr {}
              else let d = take tree (drop (if ver = 1 then 12 else 28) f);
                       (items, stop) = walk_tree latin1 names_entry AtExt d
                   in case stop of
                        Some e \<Rightarrow> Inl e
                      | None \<Rightarrow> Inr (set (map names_full items)))"

definition entries_entry :: "bytes \<Rightarrow> byte_error + unit \<times> nat" where
  "entries_entry b = (if length b < 18 then Inl StructError else Inr ((), 18 + nat (get_u16 (drop 4 b))))"

definition entries_full :: "unit item \<Rightarrow> string" where
  "entries_full = (\<lambda>(ext, path, name, _).
     if path \<notin> {[], '' ''} then path @ CHR ''/'' # name @ CHR ''.'' # ext
     else name @ CHR ''.'' # ext)"

definition vpk_entries :: "bytes \<Rightarrow> string list" where
  "vpk_entries f =
     (if length f < 12 then []
      else let sig = get_u32 f; ver = get_u32 (drop 4 f); treelen = nat (get_u32 (drop 8 f))
           in if sig \<noteq> VPK_SIGNATURE then []
              else let tree = take treelen (drop (if ver = 1 then 12 else 28) f)
                   in map entries_full (fst (walk_tree latin1 entries_entry AtExt tree)))"

section \<open>Both read what the packer writes\<close>

definition as_latin1 :: "string \<Rightarrow> string" where
  "as_latin1 s = latin1_decode (utf8_encode s)"

lemma nth_append_short: "length b = 18 \<Longrightarrow> i < 18 \<Longrightarrow> (b @ rest) ! i = b ! i"
  by (simp add: nth_append)

lemma entry_preload: "entry_bytes m = Inr b \<Longrightarrow> get_u16 (drop 4 (b @ rest)) = 0"
  by (cases m) (auto simp: entry_bytes_eq get_u16_le16)

lemma get_u16_more: "2 \<le> length b \<Longrightarrow> get_u16 (b @ b') = get_u16 b"
  by (cases b) (auto simp: get_u16_def nth_append)

interpretation names_reader: truncatable_reader latin1 names_entry as_latin1 "\<lambda>_. ()" "\<lambda>_. True"
proof unfold_locales
  fix m b rest
  assume "entry_bytes m = Inr b"
  then show "names_entry (b @ rest) = Inr ((), length b)"
    using length_entry_bytes [of m b] entry_preload [of m b rest]
    by (simp add: names_entry_def del: drop_append)
next
  fix b b' x
  assume "names_entry b = Inr x"
  then show "names_entry (b @ b') = Inr x"
    using get_u16_more [of "drop 4 b" b'] by (auto simp: names_entry_def split: if_splits)
qed (simp_all add: latin1_def as_latin1_def)

interpretation entries_reader: truncatable_reader latin1 entries_entry as_latin1 "\<lambda>_. ()" "\<lambda>_. True"
proof unfold_locales
  fix m b rest
  assume "entry_bytes m = Inr b"
  then show "entries_entry (b @ rest) = Inr ((), length b)"
    using length_entry_bytes [of m b] entry_preload [of m b rest]
    by (simp add: entries_entry_def del: drop_append)
next
  fix b b' x
  assume "entries_entry b = Inr x"
  then show "entries_entry (b @ b') = Inr x"
    using get_u16_more [of "drop 4 b" b'] by (auto simp: entries_entry_def split: if_splits)
qed (simp_all add: latin1_def as_latin1_def)

lemma built_readable:
  assumes "packable c" and "collect c = Inr entries" and "layout (read_file c) entries = (arc, meta)"
    and "k \<in> set (tree_items (by_ext entries))"
  shows "names_reader.readable meta k"
  using tree_readable [OF assms]
  by (auto simp: names_reader.readable_def verify_reader.readable_def split: prod.splits)

text \<open>The tree of a directory file, cut out as both tools cut it.\<close>

lemma sealed_tree:
  assumes "vpk_header tree = Inr h"
  shows "take (nat (get_u32 (drop 8 (seal h tree)))) (drop 28 (seal h tree)) = tree"
    and "get_u32 (seal h tree) = VPK_SIGNATURE" and "get_u32 (drop 4 (seal h tree)) = 2"
    and "12 \<le> length (seal h tree)"
proof -
  have s: "seal h tree = h @ (tree @ md5 tree @ md5 [] @ md5 ((h @ tree) @ md5 tree @ md5 []))"
    by (simp add: seal_def Let_def)
  note h = header_fields [OF assms]
  show "take (nat (get_u32 (drop 8 (seal h tree)))) (drop 28 (seal h tree)) = tree"
    unfolding s h(4) by (simp add: h(1))
  show "get_u32 (seal h tree) = VPK_SIGNATURE" unfolding s h(2) ..
  show "get_u32 (drop 4 (seal h tree)) = 2" unfolding s h(3) by (simp add: VPK_VERSION_def)
  show "12 \<le> length (seal h tree)" by (simp add: s h(1))
qed

lemma built_listing:
  assumes "packable c" and "build c = Inr (b, arc, entries)"
  shows "\<exists>items. vpk_entries b = map entries_full items \<and> vpk_names b = Inr (set (map names_full items)) \<and>
    mset items = mset (map (\<lambda>e. (as_latin1 (e_ext e), as_latin1 (e_path e), as_latin1 (e_base e), ())) entries)"
proof -
  from assms(2) obtain meta tree h where p: "collect c = Inr entries"
    "layout (read_file c) entries = (arc, meta)" "tree_bytes meta (by_ext entries) = Inr tree"
    "vpk_header tree = Inr h" "b = seal h tree"
    by (rule build_parts)
  define items where "items = map (names_reader.seen_as meta) (tree_items (by_ext entries))"
  note levels = entry_levels [OF assms(1) p(1)]
  have r: "\<forall>k \<in> set (tree_items (by_ext entries)). names_reader.readable meta k"
    using built_readable [OF assms(1) p(1,2)] by blast
  have w: "walk_tree latin1 names_entry AtExt tree = (items, None)"
    "walk_tree latin1 entries_entry AtExt tree = (items, None)"
    using names_reader.walk_tree_bytes [OF r levels p(3), of "[]"]
      entries_reader.walk_tree_bytes [OF r levels p(3), of "[]"]
    by (simp_all add: items_def)
  have "items = map (\<lambda>(x, p, n). (as_latin1 x, as_latin1 p, as_latin1 n, ())) (tree_items (by_ext entries))"
    by (simp add: items_def names_reader.seen_as_def)
  then have "mset items = mset (map (\<lambda>(x, p, n). (as_latin1 x, as_latin1 p, as_latin1 n, ())) (map entry_key entries))"
    by (simp only: mset_map mset_tree_items)
  then have "mset items = mset (map (\<lambda>e. (as_latin1 (e_ext e), as_latin1 (e_path e), as_latin1 (e_base e), ())) entries)"
    by (simp add: entry_key_def comp_def image_mset.compositionality)
  moreover have "vpk_entries b = map entries_full items" "vpk_names b = Inr (set (map names_full items))"
    using sealed_tree [OF p(4)] w by (simp_all add: vpk_entries_def vpk_names_def p(5) Let_def)
  ultimately show ?thesis by blast
qed

section \<open>Properties\<close>

text \<open>An ASCII path whose directory, if it has one, is not made of blanks only.\<close>

definition plain_path :: "string \<Rightarrow> bool" where
  "plain_path p \<longleftrightarrow>
     ascii p \<and>
     (let (dir, _, _) = rpartition (CHR ''/'') p in dir = [] \<or> (\<exists>c \<in> set dir. \<not> py_isspace c))"

lemma ascii_append [simp]: "ascii (s @ t) \<longleftrightarrow> ascii s \<and> ascii t"
  by (auto simp: ascii_def)

lemma ascii_Cons [simp]: "ascii (c # t) \<longleftrightarrow> (of_char c :: nat) < 128 \<and> ascii t"
  by (auto simp: ascii_def)

lemma ascii_Nil [simp]: "ascii []"
  by (simp add: ascii_def)

lemma collect_file_path:
  "collect_file rel = Inr e \<Longrightarrow> rpartition (CHR ''/'') rel = (path, d, base) \<Longrightarrow>
     e_path e = (if path = [] then '' '' else path)"
  by (auto simp: collect_file_def split: prod.splits if_splits)

lemma plain_entry:
  assumes "packable c" and "collect c = Inr entries" and "e \<in> set entries" and "plain_path (e_full e)"
  shows "entries_full (as_latin1 (e_ext e), as_latin1 (e_path e), as_latin1 (e_base e), ()) = e_full e"
    and "names_full (as_latin1 (e_ext e), as_latin1 (e_path e), as_latin1 (e_base e), ()) = py_lower (e_full e)"
proof -
  note ok = collect_packable [OF assms(1-3)]
  from assms(2) have "rmap collect_file (all_paths c) = Inr entries"
    by (auto simp: collect_def result_simps split: if_splits)
  then have "collect_file (e_full e) = Inr e"
    using rmap_mem_conv [OF _ assms(3)] collect_file_full by metis
  then have path: "e_path e = '' '' \<or> (\<exists>ch \<in> set (e_path e). \<not> py_isspace ch)"
    using assms(4) collect_file_path [of "e_full e" e]
    by (auto simp: plain_path_def split: prod.splits if_splits)
  have "ascii (vpk_key (e_ext e) (e_path e) (e_base e))" using ok assms(4) by (simp add: plain_path_def)
  then have asc: "ascii (e_ext e)" "ascii (e_path e)" "ascii (e_base e)"
    by (auto simp: vpk_key_def split: if_splits)
  then have id: "as_latin1 (e_ext e) = e_ext e" "as_latin1 (e_path e) = e_path e" "as_latin1 (e_base e) = e_base e"
    by (simp_all add: as_latin1_def latin1_of_utf8_ascii)
  show "entries_full (as_latin1 (e_ext e), as_latin1 (e_path e), as_latin1 (e_base e), ()) = e_full e"
    using ok by (auto simp: id entries_full_def vpk_key_def split: if_splits)
  have "(\<forall>ch \<in> set (e_path e). py_isspace ch) \<longleftrightarrow> e_path e = '' ''"
    using path by (auto simp: py_isspace_def)
  then show "names_full (as_latin1 (e_ext e), as_latin1 (e_path e), as_latin1 (e_base e), ()) = py_lower (e_full e)"
    using ok by (auto simp: id names_full_def vpk_key_def simp del: py_lower_append)
qed

lemma readers_list_files:
  assumes "packable c" and "build c = Inr (b, arc, entries)" and "\<forall>p \<in> set (all_paths c). plain_path p"
  shows "mset (vpk_entries b) = mset (all_paths c)" and "vpk_names b = Inr (py_lower ` set (all_paths c))"
proof -
  let ?it = "\<lambda>e. (as_latin1 (e_ext e), as_latin1 (e_path e), as_latin1 (e_base e), ())"
  obtain items where it: "vpk_entries b = map entries_full items" "vpk_names b = Inr (set (map names_full items))"
    "mset items = mset (map ?it entries)"
    using built_listing [OF assms(1,2)] by blast
  from assms(2) obtain meta tree h where c: "collect c = Inr entries" by (rule build_parts)
  then have full: "map e_full entries = all_paths c"
    by (auto simp: collect_def result_simps collect_fulls split: if_splits)
  then have p: "\<forall>e \<in> set entries. plain_path (e_full e)" using assms(3) by (metis image_eqI set_map)
  have "mset (vpk_entries b) = mset (map (entries_full \<circ> ?it) entries)"
    by (simp only: it mset_map) (simp add: image_mset.compositionality comp_def)
  also have "map (entries_full \<circ> ?it) entries = map e_full entries"
    using plain_entry(1) [OF assms(1) c] p by simp
  finally show "mset (vpk_entries b) = mset (all_paths c)" by (simp only: full)
  have "set items = set (map ?it entries)" using it(3) by (rule mset_eq_setD)
  then have "names_full ` set items = (\<lambda>e. names_full (?it e)) ` set entries" by (simp add: image_image)
  also have "\<dots> = py_lower ` e_full ` set entries"
    using plain_entry(2) [OF assms(1) c] p by (auto simp: image_image)
  finally show "vpk_names b = Inr (py_lower ` set (all_paths c))"
    by (simp add: it(2) flip: full)
qed



lemma drop_split: "drop k (f @ g) = drop k f @ drop (k - length f) g"
  by simp

lemma truncated_listing: "prefix (vpk_entries f) (vpk_entries (f @ g))"
proof (cases "length f < 12")
  case True
  then show ?thesis by (simp add: vpk_entries_def)
next
  case False
  have g32: "get_u32 (drop k (f @ g)) = get_u32 (drop k f)" if "k + 4 \<le> length f" for k
  proof -
    have "3 < length f - k" "k < length f" using that by linarith+
    then show ?thesis by (simp add: get_u32_def nth_append)
  qed
  have h: "get_u32 (f @ g) = get_u32 f" "get_u32 (drop 4 (f @ g)) = get_u32 (drop 4 f)"
    "get_u32 (drop 8 (f @ g)) = get_u32 (drop 8 f)"
    using g32 [of 0] g32 [of 4] g32 [of 8] False by simp_all
  have "prefix (fst (walk_tree latin1 entries_entry AtExt (take n (drop k f))))
      (fst (walk_tree latin1 entries_entry AtExt (take n (drop k (f @ g)))))" for n k
    using entries_reader.walk_prefix [of AtExt "take n (drop k f)"] by (simp add: drop_split)
  then show ?thesis
    using False by (simp add: vpk_entries_def h Let_def map_mono_prefix del: drop_append)
qed

text \<open>
  A damaged VPK is read as far as it goes: the list \<open>vpk_entries\<close> takes from
  a file that breaks off is a beginning of the list it takes from the whole file,
  so nothing is invented and nothing before the break is lost out of order.
\<close>

lemma truncated_vpk_lists_a_prefix: "prefix (vpk_entries f) (vpk_entries (f @ g))"
  by (rule truncated_listing)

end
