(* ===== verification/WorkshopLock.thy ===== *)
theory WorkshopLock
  imports PyText Dicts Digests
begin

text \<open>
  The workshop lockfile (\<open>tools/workshop/workshop_lock.py\<close>): what a server
  subscribes to, and how the pinned items are split into buckets that each
  become an image layer.
\<close>

section \<open>The lockfile\<close>

datatype lock_error =
    ValueError string
  | KeyErr string
  | ZeroDivisionError
  | IndexError
  | UnicodeEncodeError
  | NoFile string
  | Exit string

record pinned =
  it_title :: string
  it_manifest :: string
  it_size :: int
  it_time :: int
  it_servers :: "string list"

text \<open>
  The JSON object; a key that is absent is \<open>None\<close>, or empty where the code
  reads it with an empty default.
\<close>

record lock =
  lk_solo :: "int option"
  lk_buckets :: "(string \<times> int) list"
  lk_items :: "(string \<times> pinned) list"

section \<open>Subscriptions\<close>

text \<open>\<open>subscribed_ids\<close>: what is left of a line after its comment, if it is a number, each once.\<close>

definition subscribed_line :: "string \<Rightarrow> string" where
  "subscribed_line l = py_strip (cut_comment l)"

definition subscribed_ids :: "string \<Rightarrow> string list" where
  "subscribed_ids handle =
     (let ids = filter py_isdigit (map subscribed_line (lines_of handle)) in dedupe {} ids)"

section \<open>Buckets\<close>

definition group_of :: "string list \<Rightarrow> string" where
  "group_of item_servers = join_dash (sort item_servers)"

definition default_bucket_count :: "int \<Rightarrow> int" where
  "default_bucket_count n = max 1 (min 32 (round_div n 4))"

definition bucket_of :: "string \<Rightarrow> int \<Rightarrow> lock_error + int" where
  "bucket_of item_id cnt =
     (if \<not> ascii item_id then Inl UnicodeEncodeError
      else if cnt = 0 then Inl ZeroDivisionError
      else Inr (sha256_prefix (utf8_encode item_id) mod cnt))"

definition lock_item :: "lock \<Rightarrow> string \<Rightarrow> lock_error + pinned" where
  "lock_item lock item_id =
     (case map_of (lk_items lock) item_id of None \<Rightarrow> Inl (KeyErr item_id) | Some it \<Rightarrow> Inr it)"

text \<open>\<open>sorted(ids, key=int)\<close>\<close>

definition int_key :: "string \<Rightarrow> lock_error + int \<times> string" where
  "int_key i = (case py_int i of None \<Rightarrow> Inl (ValueError i) | Some n \<Rightarrow> Inr (n, i))"

definition sort_ids :: "string list \<Rightarrow> lock_error + string list" where
  "sort_ids ids = rbind (rmap int_key ids) (\<lambda>ps. Inr (map snd (sort_key fst ps)))"

definition solo_bytes :: "lock \<Rightarrow> int" where
  "solo_bytes lock = (case lk_solo lock of None \<Rightarrow> 0 | Some n \<Rightarrow> n)"

text \<open>The key of the bucket an item lands in.\<close>

definition bucket_key :: "lock \<Rightarrow> int \<Rightarrow> string \<Rightarrow> lock_error + string" where
  "bucket_key lock cnt item_id =
     rbind (lock_item lock item_id) (\<lambda>it.
       if solo_bytes lock \<noteq> 0 \<and> solo_bytes lock \<le> it_size it then Inr item_id
       else rbind (bucket_of item_id cnt) (\<lambda>n. Inr (pad2 n)))"

definition sort_bucket :: "string \<times> string list \<Rightarrow> lock_error + string \<times> string list" where
  "sort_bucket = (\<lambda>(key, ids). rbind (sort_ids ids) (\<lambda>s. Inr (key, s)))"

type_synonym buckets = "(string \<times> string list) list"

definition group_buckets :: "lock \<Rightarrow> string \<times> string list \<Rightarrow> lock_error + string \<times> buckets" where
  "group_buckets lock = (\<lambda>(grp, ids).
     case map_of (lk_buckets lock) grp of
       None \<Rightarrow> Inl (KeyErr grp)
     | Some cnt \<Rightarrow>
         rbind (rmap (\<lambda>i. rbind (bucket_key lock cnt i) (\<lambda>k. Inr (k, i))) ids) (\<lambda>kids.
         rbind (rmap sort_bucket (sort_key fst (group_by fst snd kids))) (\<lambda>bs.
           Inr (grp, bs))))"

definition by_group :: "lock \<Rightarrow> (string \<times> string list) list" where
  "by_group lock = group_by (\<lambda>(i, it). group_of (it_servers it)) fst (lk_items lock)"

definition partition_items :: "lock \<Rightarrow> lock_error + (string \<times> buckets) list" where
  "partition_items lock = rmap (group_buckets lock) (by_group lock)"

section \<open>Subscriptions, counts and sorting\<close>

lemma distinct_subscribed: "distinct (subscribed_ids handle)"
  by (simp add: subscribed_ids_def distinct_dedupe)

lemma set_subscribed:
  "i \<in> set (subscribed_ids handle) \<longleftrightarrow>
     py_isdigit i \<and> (\<exists>l \<in> set (lines_of handle). subscribed_line l = i)"
  by (auto simp: subscribed_ids_def set_dedupe)

lemma bucket_count_bounds: "1 \<le> default_bucket_count n \<and> default_bucket_count n \<le> 32"
  by (auto simp: default_bucket_count_def)

lemma bucket_count_near:
  "4 \<le> n \<Longrightarrow> n \<le> 128 \<Longrightarrow> \<bar>4 * default_bucket_count n - n\<bar> \<le> 2"
  using round_div_near [of 4 n] by (simp add: default_bucket_count_def abs_if split: if_splits)

lemma sort_ids_eq:
  "sort_ids ids = Inr out \<longleftrightarrow>
     (\<forall>i \<in> set ids. py_int i \<noteq> None) \<and> out = sort_key (\<lambda>i. the (py_int i)) ids"
proof -
  have snd_sort: "map snd (sort_key fst (map (\<lambda>i. (f i, i)) ids)) = sort_key f ids" for f :: "string \<Rightarrow> int"
  proof -
    have "insort_key fst (f i, i) (map (\<lambda>i. (f i, i)) xs) = map (\<lambda>i. (f i, i)) (insort_key f i xs)" for i xs
      by (induction xs) auto
    then have "sort_key fst (map (\<lambda>i. (f i, i)) ids) = map (\<lambda>i. (f i, i)) (sort_key f ids)"
      by (induction ids) simp_all
    then show ?thesis by (simp add: comp_def)
  qed
  show ?thesis
  proof (cases "\<forall>i \<in> set ids. py_int i \<noteq> None")
    case True
    then have "rmap int_key ids = Inr (map (\<lambda>i. (the (py_int i), i)) ids)"
      by (intro rmap_eq_InrI) (auto simp: int_key_def)
    with True show ?thesis by (auto simp: sort_ids_def snd_sort)
  next
    case False
    then have "rmap int_key ids \<noteq> Inr ps" for ps
      by (fastforce simp: int_key_def dest: rmap_mem split: option.splits)
    with False show ?thesis by (auto simp: sort_ids_def result_simps)
  qed
qed

lemma sort_ids_mset: "sort_ids ids = Inr out \<Longrightarrow> mset out = mset ids"
  by (simp add: sort_ids_eq)

section \<open>The partition\<close>

text \<open>The ids a bucket holds, before sorting.\<close>

definition bucket_members :: "lock \<Rightarrow> string \<Rightarrow> string \<Rightarrow> string list" where
  "bucket_members lock grp key =
     map fst (filter (\<lambda>(i, it). group_of (it_servers it) = grp \<and>
        bucket_key lock (the (map_of (lk_buckets lock) grp)) i = Inr key) (lk_items lock))"

definition bucket_at :: "(string \<times> buckets) list \<Rightarrow> string \<Rightarrow> string \<Rightarrow> string list option" where
  "bucket_at p grp key =
     (case map_of p grp of None \<Rightarrow> None | Some bs \<Rightarrow> map_of bs key)"

lemma rmap_keyed: "rmap (\<lambda>i. rbind (f i) (\<lambda>k. Inr (k, i))) is = Inr kids \<Longrightarrow>
    map snd kids = is \<and> (\<forall>(k, i) \<in> set kids. f i = Inr k)"
  by (induction "is" arbitrary: kids) (auto simp: result_simps)

lemma keyed_filter: "\<forall>(k, i) \<in> set kids. f i = Inr k \<Longrightarrow>
    map snd (filter (\<lambda>p. fst p = key) kids) = filter (\<lambda>i. f i = Inr key) (map snd kids)"
  by (induction kids) auto

lemma rmap_sort_bucket:
  assumes "rmap sort_bucket bs = Inr out"
  shows "map fst out = map fst bs"
    and "(k, ids) \<in> set bs \<Longrightarrow> \<exists>s. sort_ids ids = Inr s \<and> (k, s) \<in> set out"
    and "(k, s) \<in> set out \<Longrightarrow> \<exists>ids. sort_ids ids = Inr s \<and> (k, ids) \<in> set bs"
proof -
  show "map fst out = map fst bs"
    using assms by (induction bs arbitrary: out) (auto simp: result_simps sort_bucket_def)
  show "\<exists>s. sort_ids ids = Inr s \<and> (k, s) \<in> set out" if "(k, ids) \<in> set bs"
    using rmap_mem [OF assms that] by (auto simp: sort_bucket_def result_simps)
  show "\<exists>ids. sort_ids ids = Inr s \<and> (k, ids) \<in> set bs" if "(k, s) \<in> set out"
    using rmap_mem_conv [OF assms that] by (auto simp: sort_bucket_def result_simps)
qed

lemma sort_key_fst_mem [simp]: "distinct (map fst (sort_key fst d)) \<longleftrightarrow> distinct (map fst d)"
  by (metis mset_map mset_sort mset_eq_imp_distinct_iff)

text \<open>one group: its buckets are keyed apart and hold what hashes to their key.\<close>

lemma group_buckets_eq:
  assumes "group_buckets lock (grp, ids) = Inr (g, bs)"
  shows "g = grp" and "distinct (map fst bs)" and "sorted (map fst bs)"
    and "map_of bs key =
      (let mem = filter (\<lambda>i. bucket_key lock (the (map_of (lk_buckets lock) grp)) i = Inr key) ids
       in if mem = [] then None else Some (sort_key (\<lambda>i. the (py_int i)) mem))"
    and "\<exists>cnt. map_of (lk_buckets lock) grp = Some cnt"
    and "\<forall>i \<in> set ids. \<exists>k. bucket_key lock (the (map_of (lk_buckets lock) grp)) i = Inr k"
proof -
  obtain cnt where c: "map_of (lk_buckets lock) grp = Some cnt"
    using assms by (auto simp: group_buckets_def split: option.splits)
  with assms obtain kids where k:
    "rmap (\<lambda>i. rbind (bucket_key lock cnt i) (\<lambda>k. Inr (k, i))) ids = Inr kids"
    "rmap sort_bucket (sort_key fst (group_by fst snd kids)) = Inr bs" "g = grp"
    by (auto simp: group_buckets_def result_simps)
  show "g = grp" by (rule k(3))
  note keyed = rmap_keyed [OF k(1)]
  note bs = rmap_sort_bucket [OF k(2)]
  show d: "distinct (map fst bs)" by (simp only: bs(1) sort_key_fst_mem distinct_keys_group_by)
  show "sorted (map fst bs)" by (simp only: bs(1)) simp
  show "\<exists>cnt. map_of (lk_buckets lock) grp = Some cnt" using c ..
  show "\<forall>i \<in> set ids. \<exists>k. bucket_key lock (the (map_of (lk_buckets lock) grp)) i = Inr k"
    using keyed c by fastforce
  define mem where "mem = filter (\<lambda>i. bucket_key lock cnt i = Inr key) ids"
  have mem: "map snd (filter (\<lambda>p. fst p = key) kids) = mem"
    using keyed keyed_filter [of kids "bucket_key lock cnt"] by (simp add: mem_def)
  have "key \<in> fst ` set kids \<longleftrightarrow> mem \<noteq> []"
    by (subst mem [symmetric]) (force simp: filter_empty_conv)
  then have g: "(key, v) \<in> set (group_by fst snd kids) \<longleftrightarrow> mem \<noteq> [] \<and> v = mem" for v
    by (auto simp: mem_group_by mem)
  show "map_of bs key =
      (let mem = filter (\<lambda>i. bucket_key lock (the (map_of (lk_buckets lock) grp)) i = Inr key) ids
       in if mem = [] then None else Some (sort_key (\<lambda>i. the (py_int i)) mem))"
  proof (cases "mem = []")
    case True
    with g have "key \<notin> fst ` set bs" using bs(3) by fastforce
    then show ?thesis using True by (simp add: c mem_def [symmetric] map_of_eq_None_iff)
  next
    case False
    with g bs(2) [of key mem] obtain s where "sort_ids mem = Inr s" "(key, s) \<in> set bs" by auto
    with d False show ?thesis by (simp add: c mem_def [symmetric] sort_ids_eq)
  qed
qed

lemma group_buckets_fst: "group_buckets lock p = Inr r \<Longrightarrow> fst r = fst p"
  using group_buckets_eq(1) [of lock "fst p" "snd p" "fst r" "snd r"] by simp

lemma partition_keys:
  assumes "partition_items lock = Inr p"
  shows "map fst p = map fst (by_group lock)" and "distinct (map fst p)"
proof -
  have "rmap (group_buckets lock) gs = Inr p \<Longrightarrow> map fst p = map fst gs" for gs
    by (induction gs arbitrary: p) (auto simp: result_simps dest: group_buckets_fst)
  then show "map fst p = map fst (by_group lock)" using assms by (simp add: partition_items_def)
  then show "distinct (map fst p)" by (simp add: by_group_def distinct_keys_group_by)
qed

lemma filter_group: "filter P (map fst (filter (\<lambda>(i, it). f it = g) xs)) =
    map fst (filter (\<lambda>(i, it). f it = g \<and> P i) xs)"
  by (induction xs) auto

text \<open>What a bucket holds: the ids that belong to it, in numerical order.\<close>

lemma bucket_at_eq:
  assumes "partition_items lock = Inr p"
  shows "bucket_at p grp key =
    (if bucket_members lock grp key = [] then None
     else Some (sort_key (\<lambda>i. the (py_int i)) (bucket_members lock grp key)))"
proof (cases "grp \<in> fst ` set (by_group lock)")
  case False
  then have "map_of p grp = None"
    using partition_keys(1) [OF assms] by (metis map_of_eq_None_iff set_map)
  moreover from False have "bucket_members lock grp key = []"
    by (force simp: bucket_members_def by_group_def keys_group_by filter_empty_conv)
  ultimately show ?thesis by (simp add: bucket_at_def)
next
  case True
  then obtain ids where ids: "(grp, ids) \<in> set (by_group lock)" by auto
  then obtain bs where bs: "(grp, bs) \<in> set p" "group_buckets lock (grp, ids) = Inr (grp, bs)"
    using rmap_mem [OF assms [unfolded partition_items_def]] group_buckets_fst by fastforce
  from ids have "ids = map fst (filter (\<lambda>(i, it). group_of (it_servers it) = grp) (lk_items lock))"
    by (auto simp: by_group_def mem_group_by split_def)
  then have "filter (\<lambda>i. bucket_key lock (the (map_of (lk_buckets lock) grp)) i = Inr key) ids =
      bucket_members lock grp key"
    by (simp add: bucket_members_def filter_group)
  moreover have "map_of p grp = Some bs" using bs(1) partition_keys(2) [OF assms] by simp
  ultimately show ?thesis
    using group_buckets_eq(4) [OF bs(2), of key] by (simp add: bucket_at_def Let_def)
qed

lemma item_has_key:
  assumes "partition_items lock = Inr p" and "(i, it) \<in> set (lk_items lock)"
  shows "\<exists>k. bucket_key lock (the (map_of (lk_buckets lock) (group_of (it_servers it)))) i = Inr k"
proof -
  define grp where "grp = group_of (it_servers it)"
  from assms(2) have "grp \<in> fst ` set (by_group lock)"
    by (force simp: grp_def by_group_def keys_group_by)
  then obtain ids where ids: "(grp, ids) \<in> set (by_group lock)" by auto
  with assms(2) have "i \<in> set ids" by (force simp: by_group_def mem_group_by grp_def)
  moreover obtain bs where "group_buckets lock (grp, ids) = Inr (grp, bs)"
    using rmap_mem [OF assms(1) [unfolded partition_items_def] ids] group_buckets_fst by fastforce
  ultimately show ?thesis using group_buckets_eq(6) grp_def by blast
qed

lemma mem_bucket:
  assumes "partition_items lock = Inr p" and "distinct (map fst (lk_items lock))"
    and "(i, it) \<in> set (lk_items lock)" and "bucket_at p grp key = Some ids"
  shows "i \<in> set ids \<longleftrightarrow> grp = group_of (it_servers it) \<and>
    bucket_key lock (the (map_of (lk_buckets lock) grp)) i = Inr key"
proof -
  have "set ids = set (bucket_members lock grp key)"
    using assms(4) bucket_at_eq [OF assms(1), of grp key] by (auto split: if_splits)
  moreover have "it' = it" if "(i, it') \<in> set (lk_items lock)" for it'
    using assms(2,3) that by (metis eq_key_imp_eq_value)
  moreover have "i \<in> set (bucket_members lock grp key) \<longleftrightarrow>
      (\<exists>it'. (i, it') \<in> set (lk_items lock) \<and> group_of (it_servers it') = grp \<and>
         bucket_key lock (the (map_of (lk_buckets lock) grp)) i = Inr key)"
    by (auto simp: bucket_members_def image_iff split_def)
  ultimately show ?thesis using assms(3) by metis
qed

lemma bucket_exists:
  assumes "partition_items lock = Inr p" and "(i, it) \<in> set (lk_items lock)"
    and "bucket_key lock (the (map_of (lk_buckets lock) (group_of (it_servers it)))) i = Inr key"
  shows "\<exists>ids. bucket_at p (group_of (it_servers it)) key = Some ids"
proof -
  have "i \<in> set (bucket_members lock (group_of (it_servers it)) key)"
    using assms(2,3) by (force simp: bucket_members_def)
  then show ?thesis using bucket_at_eq [OF assms(1)] by (metis empty_iff empty_set)
qed

lemma bucket_order:
  assumes "partition_items lock = Inr p" and "distinct (map fst (lk_items lock))"
    and "bucket_at p grp key = Some ids"
  shows "distinct ids" and "sorted (map (\<lambda>i. the (py_int i)) ids)"
proof -
  have ids: "ids = sort_key (\<lambda>i. the (py_int i)) (bucket_members lock grp key)"
    using assms(3) bucket_at_eq [OF assms(1), of grp key] by (auto split: if_splits)
  have "distinct (bucket_members lock grp key)"
    using assms(2) by (simp add: bucket_members_def distinct_map_filter)
  then show "distinct ids" by (simp add: ids)
  show "sorted (map (\<lambda>i. the (py_int i)) ids)" by (simp add: ids)
qed

section \<open>Adding an item\<close>

lemma bucket_key_more:
  assumes "lk_solo lock' = lk_solo lock"
    and "map_of (lk_items lock') j = map_of (lk_items lock) j"
  shows "bucket_key lock' cnt j = bucket_key lock cnt j"
  using assms by (simp add: bucket_key_def lock_item_def solo_bytes_def)

lemma members_after_adding:
  assumes "lk_items lock = xs @ ys" and "lk_items lock' = xs @ (i, it) # ys"
    and "lk_solo lock' = lk_solo lock" and "lk_buckets lock' = lk_buckets lock"
    and "distinct (map fst (lk_items lock'))"
    and "bucket_key lock' (the (map_of (lk_buckets lock) (group_of (it_servers it)))) i = Inr key"
  shows "(g, k) \<noteq> (group_of (it_servers it), key) \<Longrightarrow> bucket_members lock' g k = bucket_members lock g k"
    and "mset (bucket_members lock' (group_of (it_servers it)) key) =
      add_mset i (mset (bucket_members lock (group_of (it_servers it)) key))"
proof -
  have same: "bucket_key lock' cnt j = bucket_key lock cnt j" if "j \<in> fst ` set (xs @ ys)" for cnt j
  proof -
    from that assms(5) have "j \<noteq> i" by (auto simp: assms(2))
    then show ?thesis
      by (intro bucket_key_more) (simp_all add: assms(1-3) map_add_def split: option.splits)
  qed
  have f: "filter (\<lambda>(j, jt). group_of (it_servers jt) = g \<and> bucket_key lock' c j = Inr k) zs =
      filter (\<lambda>(j, jt). group_of (it_servers jt) = g \<and> bucket_key lock c j = Inr k) zs"
    if sub: "set zs \<subseteq> set (xs @ ys)" for zs g k c
  proof (rule filter_cong [OF refl])
    fix x
    assume "x \<in> set zs"
    moreover obtain j jt where x: "x = (j, jt)" by (cases x)
    ultimately have "j \<in> fst ` set (xs @ ys)" using sub by (metis fst_conv imageI subsetD)
    from same [OF this] show "(case x of (j, jt) \<Rightarrow> group_of (it_servers jt) = g \<and> bucket_key lock' c j = Inr k) =
        (case x of (j, jt) \<Rightarrow> group_of (it_servers jt) = g \<and> bucket_key lock c j = Inr k)"
      by (simp add: x)
  qed
  show "(g, k) \<noteq> (group_of (it_servers it), key) \<Longrightarrow> bucket_members lock' g k = bucket_members lock g k"
    using assms(6) by (auto simp: bucket_members_def assms(1,2,4) f)
  show "mset (bucket_members lock' (group_of (it_servers it)) key) =
      add_mset i (mset (bucket_members lock (group_of (it_servers it)) key))"
    using assms(6) by (simp add: bucket_members_def assms(1,2,4) f)
qed

lemma partition_total:
  assumes "distinct (map fst (lk_items lock))"
    and "\<forall>(i, it) \<in> set (lk_items lock). py_int i \<noteq> None \<and>
      (\<exists>cnt. map_of (lk_buckets lock) (group_of (it_servers it)) = Some cnt \<and> cnt \<noteq> 0)"
  shows "\<exists>p. partition_items lock = Inr p"
proof -
  have asc: "ascii i" if "py_int i \<noteq> None" for i
  proof -
    have "(of_char c :: nat) < 128" if "ascii_digit c" for c
    proof -
      have "(of_char c :: int) \<le> 57" using that by (simp add: ascii_digit_def digit_value_def)
      then have "int (of_char c) \<le> 57" by (simp only: of_nat_of_char)
      then show ?thesis by linarith
    qed
    with that show ?thesis by (auto simp: py_int_def ascii_def split: if_splits)
  qed
  have "\<exists>r. group_buckets lock g = Inr r" if g: "g \<in> set (by_group lock)" for g
  proof -
    obtain grp ids where p: "g = (grp, ids)" by (cases g)
    with g have ids: "grp \<in> (\<lambda>(i, it). group_of (it_servers it)) ` set (lk_items lock)"
      "ids = map fst (filter (\<lambda>(i, it). group_of (it_servers it) = grp) (lk_items lock))"
      by (auto simp: by_group_def mem_group_by split_def)
    with assms(2) obtain cnt where c: "map_of (lk_buckets lock) grp = Some cnt" "cnt \<noteq> 0" by fastforce
    have num: "py_int i \<noteq> None" if "i \<in> set ids" for i using that ids(2) assms(2) by auto
    have "\<exists>k. bucket_key lock cnt i = Inr k" if i: "i \<in> set ids" for i
    proof -
      from i obtain it where "map_of (lk_items lock) i = Some it"
        using assms(1) by (auto simp: ids(2))
      with num [OF i] asc [of i] c(2) show ?thesis
        by (simp add: bucket_key_def lock_item_def bucket_of_def)
    qed
    then obtain kids where k: "rmap (\<lambda>i. rbind (bucket_key lock cnt i) (\<lambda>k. Inr (k, i))) ids = Inr kids"
      using rmap_total [of ids "\<lambda>i. rbind (bucket_key lock cnt i) (\<lambda>k. Inr (k, i))"] by fastforce
    have "\<exists>b'. sort_bucket b = Inr b'" if "b \<in> set (sort_key fst (group_by fst snd kids))" for b
    proof -
      from that have "(fst b, snd b) \<in> set (group_by fst snd kids)" by (simp only: set_sort prod.collapse)
      then have "set (snd b) \<subseteq> snd ` set kids" unfolding mem_group_by by auto
      with rmap_keyed [OF k] num have "\<forall>i \<in> set (snd b). py_int i \<noteq> None" by (metis set_map subsetD)
      then show ?thesis by (cases b) (simp add: sort_bucket_def sort_ids_eq [THEN iffD2])
    qed
    then obtain bs where "rmap sort_bucket (sort_key fst (group_by fst snd kids)) = Inr bs"
      using rmap_total by meson
    with c k show ?thesis by (simp add: p group_buckets_def)
  qed
  then show ?thesis using rmap_total by (metis partition_items_def)
qed

section \<open>Properties\<close>

definition sample_pin :: "string list \<Rightarrow> pinned" where
  "sample_pin names = \<lparr>it_title = ''map'', it_manifest = ''77'', it_size = 10, it_time = 5, it_servers = names\<rparr>"

definition sample_lock :: lock where
  "sample_lock = \<lparr>lk_solo = Some 100, lk_buckets = [(''main'', 1), (''main-test'', 1)],
     lk_items = [(''101'', sample_pin [''main'']), (''102'', sample_pin [''main'', ''test''])]\<rparr>"

definition sample_lock_more :: lock where
  "sample_lock_more = sample_lock \<lparr>lk_items :=
     [(''101'', sample_pin [''main'']), (''99'', sample_pin [''test'', ''main'']),
      (''102'', sample_pin [''main'', ''test''])]\<rparr>"

lemma sample_groups:
  "group_of [''main''] = ''main''" "group_of [''main'', ''test''] = ''main-test''"
  "group_of [''test'', ''main''] = ''main-test''"
  by code_simp+

lemma sample_numbers: "py_int ''101'' = Some 101" "py_int ''102'' = Some 102" "py_int ''99'' = Some 99"
  by code_simp+

lemma sample_partitions: "\<exists>p. partition_items sample_lock = Inr p" "\<exists>p. partition_items sample_lock_more = Inr p"
  by (rule partition_total; simp add: sample_lock_def sample_lock_more_def sample_pin_def sample_groups sample_numbers)+



text \<open>
  C13. Hashing keeps the other layers: an item added to the lockfile changes the
  one bucket it lands in, where it joins the ids that were there, and every other
  bucket of every group holds exactly what it held.
\<close>

theorem adding_an_item_changes_one_bucket:
  assumes "partition_items lock = Inr p" and "partition_items lock' = Inr p'"
    and "lk_items lock = xs @ ys" and "lk_items lock' = xs @ (i, it) # ys"
    and "lk_solo lock' = lk_solo lock" and "lk_buckets lock' = lk_buckets lock"
    and "distinct (map fst (lk_items lock'))"
    and "map_of (lk_buckets lock) (group_of (it_servers it)) = Some cnt" and "bucket_key lock' cnt i = Inr key"
  shows "(\<forall>g k. (g, k) \<noteq> (group_of (it_servers it), key) \<longrightarrow> bucket_at p' g k = bucket_at p g k)
    \<and> (\<exists>ids. bucket_at p' (group_of (it_servers it)) key = Some ids
         \<and> mset ids = add_mset i (mset (case bucket_at p (group_of (it_servers it)) key of
             None \<Rightarrow> [] | Some old \<Rightarrow> old)))"
proof -
  have key: "bucket_key lock' (the (map_of (lk_buckets lock) (group_of (it_servers it)))) i = Inr key"
    using assms(8,9) by simp
  note mem = members_after_adding [OF assms(3-7) key]
  let ?new = "bucket_members lock' (group_of (it_servers it)) key"
  have "?new \<noteq> []" using mem(2) by auto
  then have "bucket_at p' (group_of (it_servers it)) key = Some (sort_key (\<lambda>i. the (py_int i)) ?new)"
    using bucket_at_eq [OF assms(2)] by simp
  moreover have "mset (sort_key (\<lambda>i. the (py_int i)) ?new) =
      add_mset i (mset (case bucket_at p (group_of (it_servers it)) key of None \<Rightarrow> [] | Some old \<Rightarrow> old))"
    using mem(2) by (simp add: bucket_at_eq [OF assms(1)])
  moreover have "bucket_at p' g k = bucket_at p g k" if "(g, k) \<noteq> (group_of (it_servers it), key)" for g k
    using mem(1) [OF that] by (simp only: bucket_at_eq [OF assms(1)] bucket_at_eq [OF assms(2)])
  ultimately show ?thesis by blast
qed

theorem adding_an_item_changes_one_bucket_witness:
  "\<exists>p p'. partition_items sample_lock = Inr p \<and> partition_items sample_lock_more = Inr p'
     \<and> bucket_at p' ''main'' ''00'' = bucket_at p ''main'' ''00''"
proof -
  obtain p p' where p: "partition_items sample_lock = Inr p" "partition_items sample_lock_more = Inr p'"
    using sample_partitions by blast
  have "ascii ''99''" "pad2 0 = ''00''" by code_simp+
  then have k: "bucket_key sample_lock_more 1 ''99'' = Inr ''00''"
    by (simp add: bucket_key_def lock_item_def sample_lock_def sample_lock_more_def sample_pin_def
        solo_bytes_def bucket_of_def)
  have "map_of (lk_buckets sample_lock) (group_of (it_servers (sample_pin [''test'', ''main'']))) = Some 1"
    by (simp add: sample_pin_def sample_groups) (simp add: sample_lock_def)
  from adding_an_item_changes_one_bucket [OF p _ _ _ _ _ this k,
      of "[(''101'', sample_pin [''main''])]" "[(''102'', sample_pin [''main'', ''test''])]"]
  have "\<forall>g k. (g, k) \<noteq> (''main-test'', ''00'') \<longrightarrow> bucket_at p' g k = bucket_at p g k"
    by (simp add: sample_pin_def sample_groups) (simp add: sample_lock_def sample_lock_more_def sample_pin_def)
  with p show ?thesis by auto
qed

end
