(* ===== verification/WorkshopRefresh.thy ===== *)
theory WorkshopRefresh
  imports WorkshopLock
begin

text \<open>
  Re-pinning (\<open>refresh\<close> of \<open>tools/workshop/workshop_lock.py\<close>): every subscribed
  item is looked up in the Steam API and the lockfile is rebuilt, keeping the
  bucket counts the old one had.  The API is a parameter: a function from the
  ids of one request to the entries of its answer.
\<close>

section \<open>Servers\<close>

text \<open>
  The listing of \<open>server config/\<close>: each name with the text of its
  \<open>subscribed_file_ids.txt\<close>, if it has one.
\<close>

type_synonym server_config = "(string \<times> string option) list"

definition NOT_SERVERS :: "string set" where
  "NOT_SERVERS = {''base'', ''_template''}"

definition servers :: "server_config \<Rightarrow> string list" where
  "servers config =
     map fst (filter (\<lambda>(name, t). name \<notin> NOT_SERVERS \<and> t \<noteq> None) (sort_key fst config))"

definition subscriptions :: "server_config \<Rightarrow> (string \<times> string list) list" where
  "subscriptions config =
     map (\<lambda>name. (name, subscribed_ids (the (the (map_of config name))))) (servers config)"

section \<open>The API\<close>

text \<open>
  An entry of the answer; a field the code reads with \<open>get\<close> or \<open>[]\<close> may be
  missing.  Numbers are what \<open>int\<close> makes of them.
\<close>

record detail =
  pf_id :: string
  pf_result :: "int option"
  pf_app :: "string option"
  pf_title :: "string option"
  pf_manifest :: "string option"
  pf_size :: "int option"
  pf_time :: "int option"

definition APPID :: string where "APPID = ''222880''"
definition BATCH :: nat where "BATCH = 100"

function (sequential) chunks :: "nat \<Rightarrow> 'a list \<Rightarrow> 'a list list" where
  "chunks n [] = []"
| "chunks n (x # xs) = take (Suc n) (x # xs) # chunks n (drop (Suc n) (x # xs))"
  by pat_completeness auto
termination by (relation "measure (\<lambda>(n, xs). length xs)") auto

definition published_file_details ::
  "(string list \<Rightarrow> detail list) \<Rightarrow> string list \<Rightarrow> (string \<Rightarrow> detail option)" where
  "published_file_details api ids =
     foldl (\<lambda>details chunk. foldl (\<lambda>d e. d(pf_id e \<mapsto> e)) details (api chunk))
       Map.empty (chunks (BATCH - 1) ids)"

section \<open>Refreshing\<close>

definition need :: "string \<Rightarrow> 'a option \<Rightarrow> lock_error + 'a" where
  "need key v = (case v of None \<Rightarrow> Inl (KeyErr key) | Some x \<Rightarrow> Inr x)"

text \<open>A broken item (\<open>None\<close>), or what the lockfile records of it.\<close>

definition pin_item ::
  "(string \<Rightarrow> detail option) \<Rightarrow> (string \<times> string list) list \<Rightarrow> string \<Rightarrow> lock_error + string \<times> pinned option" where
  "pin_item details subs item_id =
     (case details item_id of
        None \<Rightarrow> Inr (item_id, None)
      | Some e \<Rightarrow>
          if pf_result e \<noteq> Some 1 then Inr (item_id, None)
          else if pf_app e \<noteq> Some APPID then Inr (item_id, None)
          else rbind (need ''hcontent_file'' (pf_manifest e)) (\<lambda>m.
               rbind (need ''file_size'' (pf_size e)) (\<lambda>s.
               rbind (need ''time_updated'' (pf_time e)) (\<lambda>t.
                 Inr (item_id, Some \<lparr>it_title = (case pf_title e of None \<Rightarrow> [] | Some x \<Rightarrow> x),
                   it_manifest = m, it_size = s, it_time = t,
                   it_servers = sort (map fst (filter (\<lambda>(name, ids). item_id \<in> set ids) subs))\<rparr>)))))"

definition group_sizes :: "(string \<times> pinned) list \<Rightarrow> (string \<times> string list) list" where
  "group_sizes its = group_by (\<lambda>(i, it). group_of (it_servers it)) fst its"

text \<open>The bucket counts: an old one if there is one, a fresh one for a new group.\<close>

definition sticky_buckets :: "lock \<Rightarrow> (string \<times> pinned) list \<Rightarrow> (string \<times> int) list" where
  "sticky_buckets old its =
     map (\<lambda>(grp, ids). (grp, case map_of (lk_buckets old) grp of
           Some n \<Rightarrow> n
         | None \<Rightarrow> default_bucket_count (int (length ids))))
       (sort_key fst (group_sizes its))"

definition no_lock :: lock where
  "no_lock = \<lparr>lk_solo = None, lk_buckets = [], lk_items = []\<rparr>"

definition refresh ::
  "server_config \<Rightarrow> (string list \<Rightarrow> detail list) \<Rightarrow> lock \<Rightarrow> lock_error + lock" where
  "refresh config api old =
     (if servers config = [] then Inl (Exit ''no servers found'')
      else let subs = subscriptions config
           in rbind (sort_ids (dedupe {} (concat (map snd subs)))) (\<lambda>all_ids.
              rbind (rmap (pin_item (published_file_details api all_ids) subs) all_ids) (\<lambda>pins.
                if \<exists>p \<in> set pins. snd p = None then Inl (Exit ''subscribed items cannot be fetched'')
                else let items = map (\<lambda>(i, p). (i, the p)) pins
                     in rbind (sort_ids (map fst items)) (\<lambda>sorted_ids.
                       Inr \<lparr>lk_solo = Some (case lk_solo old of None \<Rightarrow> 512 * 2 ^ 20 | Some n \<Rightarrow> n),
                            lk_buckets = sticky_buckets old items,
                            lk_items = map (\<lambda>i. (i, the (map_of items i))) sorted_ids\<rparr>))))"

section \<open>What a refresh pins\<close>

lemma set_servers: "set (servers config) = {name. \<exists>t. (name, Some t) \<in> set config \<and> name \<notin> NOT_SERVERS}"
  by (force simp: servers_def)

lemma distinct_servers: "distinct (map fst config) \<Longrightarrow> distinct (servers config)"
  by (simp add: servers_def distinct_map_filter)

lemma pin_item_id: "pin_item details subs i = Inr p \<Longrightarrow> fst p = i"
  by (auto simp: pin_item_def result_simps split: option.splits if_splits)

lemma pins_ids: "rmap (pin_item details subs) ids = Inr pins \<Longrightarrow> map fst pins = ids"
  by (induction ids arbitrary: pins) (auto simp: result_simps dest: pin_item_id)

lemma pin_item_servers:
  "pin_item details subs i = Inr (i', Some it) \<Longrightarrow>
     it_servers it = sort (map fst (filter (\<lambda>(name, ids). i \<in> set ids) subs))"
  by (auto simp: pin_item_def result_simps split: option.splits if_splits)

text \<open>The parts of a refresh that succeeded.\<close>

lemma refresh_parts:
  assumes "refresh config api old = Inr lock"
  obtains all_ids items where
    "sort_ids (dedupe {} (concat (map snd (subscriptions config)))) = Inr all_ids"
    "map fst items = all_ids"
    "\<forall>(i, it) \<in> set items. it_servers it =
       sort (map fst (filter (\<lambda>(name, ids). i \<in> set ids) (subscriptions config)))"
    "lk_solo lock = Some (case lk_solo old of None \<Rightarrow> 512 * 2 ^ 20 | Some n \<Rightarrow> n)"
    "lk_buckets lock = sticky_buckets old items"
    "lk_items lock = items"
proof -
  let ?subs = "subscriptions config"
  from assms obtain all_ids pins where a: "sort_ids (dedupe {} (concat (map snd ?subs))) = Inr all_ids"
    and p: "rmap (pin_item (published_file_details api all_ids) ?subs) all_ids = Inr pins"
    and ok: "\<forall>p \<in> set pins. snd p \<noteq> None"
    and l: "rbind (sort_ids (map fst (map (\<lambda>(i, p). (i, the p)) pins))) (\<lambda>sorted_ids.
        Inr \<lparr>lk_solo = Some (case lk_solo old of None \<Rightarrow> 512 * 2 ^ 20 | Some n \<Rightarrow> n),
             lk_buckets = sticky_buckets old (map (\<lambda>(i, p). (i, the p)) pins),
             lk_items = map (\<lambda>i. (i, the (map_of (map (\<lambda>(i, p). (i, the p)) pins) i))) sorted_ids\<rparr>)
        = Inr lock"
    by (auto simp: refresh_def result_simps Let_def split: if_splits)
  define items where "items = map (\<lambda>(i, p). (i, the p)) pins"
  have ids: "map fst items = all_ids" using pins_ids [OF p] by (simp add: items_def comp_def split_def)
  have dist: "distinct all_ids" using a by (simp add: sort_ids_eq distinct_dedupe)
  from a have "sort_ids all_ids = Inr all_ids" by (auto simp: sort_ids_eq sort_key_id_if_sorted)
  with l have lk: "lk_solo lock = Some (case lk_solo old of None \<Rightarrow> 512 * 2 ^ 20 | Some n \<Rightarrow> n)"
    "lk_buckets lock = sticky_buckets old items"
    "lk_items lock = map (\<lambda>i. (i, the (map_of items i))) all_ids"
    by (auto simp flip: items_def ids)
  have "map (\<lambda>i. (i, the (map_of items i))) (map fst items) = items"
    using dist by (intro map_idI [THEN trans [OF map_map]]) (auto simp: ids)
  with lk(3) ids have "lk_items lock = items" by simp
  moreover have "\<forall>(i, it) \<in> set items. it_servers it =
      sort (map fst (filter (\<lambda>(name, ids). i \<in> set ids) ?subs))"
  proof safe
    fix i it
    assume "(i, it) \<in> set items"
    with ok have "(i, Some it) \<in> set pins" by (force simp: items_def)
    with p obtain j where "pin_item (published_file_details api all_ids) ?subs j = Inr (i, Some it)"
      using rmap_mem_conv by metis
    with pin_item_id [OF this] show "it_servers it =
        sort (map fst (filter (\<lambda>(name, ids). i \<in> set ids) ?subs))"
      by (auto dest: pin_item_servers)
  qed
  ultimately show thesis using that a ids lk(1,2) by blast
qed

lemma subscriptions_mem:
  assumes "distinct (map fst config)"
  shows "(name, ids) \<in> set (subscriptions config) \<longleftrightarrow>
    name \<notin> NOT_SERVERS \<and> (\<exists>t. map_of config name = Some (Some t) \<and> ids = subscribed_ids t)"
proof -
  have "(name, Some t) \<in> set config \<longleftrightarrow> map_of config name = Some (Some t)" for t
    using assms by simp
  then show ?thesis by (auto simp: subscriptions_def set_servers)
qed

lemma refresh_subscribers:
  assumes "distinct (map fst config)" and "refresh config api old = Inr lock"
    and "map_of config s = Some (Some t)" and "s \<notin> NOT_SERVERS"
  shows "i \<in> set (subscribed_ids t) \<longleftrightarrow> (\<exists>it. (i, it) \<in> set (lk_items lock) \<and> s \<in> set (it_servers it))"
proof -
  let ?subs = "subscriptions config"
  obtain all_ids items where r: "sort_ids (dedupe {} (concat (map snd ?subs))) = Inr all_ids"
    "map fst items = all_ids"
    "\<forall>(i, it) \<in> set items. it_servers it = sort (map fst (filter (\<lambda>(name, ids). i \<in> set ids) ?subs))"
    "lk_items lock = items"
    by (rule refresh_parts [OF assms(2)])
  have sub: "(s, ids) \<in> set ?subs \<longleftrightarrow> ids = subscribed_ids t" for ids
    using subscriptions_mem [OF assms(1)] assms(3,4) by auto
  have srv: "s \<in> set (it_servers it) \<longleftrightarrow> i \<in> set (subscribed_ids t)" if "(i, it) \<in> set items" for it
  proof -
    from r(3) that have "it_servers it = sort (map fst (filter (\<lambda>(name, ids). i \<in> set ids) ?subs))" by blast
    then have "s \<in> set (it_servers it) \<longleftrightarrow> (\<exists>ids. (s, ids) \<in> set ?subs \<and> i \<in> set ids)"
      by (simp add: image_iff split_def)
    with sub show ?thesis by simp
  qed
  show ?thesis
  proof
    assume i: "i \<in> set (subscribed_ids t)"
    have "(s, subscribed_ids t) \<in> set ?subs" using sub by blast
    with i have "i \<in> set (concat (map snd ?subs))" by force
    then have "i \<in> set all_ids"
      using sort_ids_mset [OF r(1)] by (metis set_dedupe Diff_empty mset_eq_setD)
    then obtain it where "(i, it) \<in> set items" using r(2) by force
    with srv i r(4) show "\<exists>it. (i, it) \<in> set (lk_items lock) \<and> s \<in> set (it_servers it)" by blast
  next
    assume "\<exists>it. (i, it) \<in> set (lk_items lock) \<and> s \<in> set (it_servers it)"
    with srv r(4) show "i \<in> set (subscribed_ids t)" by blast
  qed
qed

lemma refresh_ids:
  assumes "refresh config api old = Inr lock"
  shows "distinct (map fst (lk_items lock))"
    and "\<forall>i \<in> fst ` set (lk_items lock). py_int i \<noteq> None"
    and "sorted (map (\<lambda>p. the (py_int (fst p))) (lk_items lock))"
proof -
  obtain all_ids where r: "sort_ids (dedupe {} (concat (map snd (subscriptions config)))) = Inr all_ids"
    "map fst (lk_items lock) = all_ids"
    by (rule refresh_parts [OF assms]) blast
  from r have "map fst (lk_items lock) =
      sort_key (\<lambda>i. the (py_int i)) (dedupe {} (concat (map snd (subscriptions config))))"
    and num: "\<forall>i \<in> set (dedupe {} (concat (map snd (subscriptions config)))). py_int i \<noteq> None"
    by (auto simp: sort_ids_eq)
  note ids = this(1)
  show "distinct (map fst (lk_items lock))" by (simp add: ids distinct_dedupe)
  have "fst ` set (lk_items lock) = set (map fst (lk_items lock))" by simp
  with num show "\<forall>i \<in> fst ` set (lk_items lock). py_int i \<noteq> None" by (simp add: ids)
  have "sorted (map (\<lambda>i. the (py_int i)) (map fst (lk_items lock)))" by (simp only: ids sorted_sort_key)
  then show "sorted (map (\<lambda>p. the (py_int (fst p))) (lk_items lock))" by (simp add: comp_def)
qed

lemma distinct_sticky: "distinct (map fst (sticky_buckets old its))"
  unfolding sticky_buckets_def map_map
  by (simp add: comp_def split_def) (metis distinct_keys_group_by group_sizes_def sort_key_fst_mem)

lemma sticky_lookup:
  "map_of (sticky_buckets old its) grp =
     (if \<exists>(i, it) \<in> set its. group_of (it_servers it) = grp
      then Some (case map_of (lk_buckets old) grp of
             Some n \<Rightarrow> n
           | None \<Rightarrow> default_bucket_count
               (int (length (filter (\<lambda>(i, it). group_of (it_servers it) = grp) its))))
      else None)"
proof -
  let ?f = "\<lambda>(grp, ids). (grp, case map_of (lk_buckets old) grp of
      Some n \<Rightarrow> n | None \<Rightarrow> default_bucket_count (int (length (ids :: string list))))"
  note d = distinct_sticky [of old its]
  show ?thesis
  proof (cases "\<exists>(i, it) \<in> set its. group_of (it_servers it) = grp")
    case True
    define mem where "mem = filter (\<lambda>(i, it). group_of (it_servers it) = grp) its"
    define n where "n = (case map_of (lk_buckets old) grp of
      Some n \<Rightarrow> n | None \<Rightarrow> default_bucket_count (int (length mem)))"
    from True have "grp \<in> (\<lambda>(i, it). group_of (it_servers it)) ` set its" by force
    then have "(grp, map fst mem) \<in> set (sort_key fst (group_sizes its))"
      unfolding set_sort group_sizes_def mem_group_by by (simp add: split_def mem_def)
    then have "?f (grp, map fst mem) \<in> set (sticky_buckets old its)"
      unfolding sticky_buckets_def set_map by (rule imageI)
    then have "(grp, n) \<in> set (sticky_buckets old its)" unfolding n_def prod.case length_map .
    with d have "map_of (sticky_buckets old its) grp = Some n" by (rule map_of_is_SomeI)
    then show ?thesis unfolding if_P [OF True] n_def mem_def .
  next
    case False
    then have "grp \<notin> fst ` set (group_sizes its)"
      unfolding group_sizes_def keys_group_by by (auto simp: image_iff)
    then have "grp \<notin> fst ` set (sticky_buckets old its)"
      by (simp add: sticky_buckets_def image_image split_def)
    then have "map_of (sticky_buckets old its) grp = None" by (simp add: map_of_eq_None_iff)
    with False show ?thesis by simp
  qed
qed

lemma refresh_sticky:
  assumes "refresh config api old = Inr lock"
  shows "map_of (lk_buckets lock) grp =
    (if \<exists>(i, it) \<in> set (lk_items lock). group_of (it_servers it) = grp
     then Some (case map_of (lk_buckets old) grp of
            Some n \<Rightarrow> n
          | None \<Rightarrow> default_bucket_count
              (int (length (filter (\<lambda>(i, it). group_of (it_servers it) = grp) (lk_items lock)))))
     else None)"
    and "lk_solo lock = Some (case lk_solo old of None \<Rightarrow> 512 * 2 ^ 20 | Some n \<Rightarrow> n)"
proof -
  obtain items where r: "lk_buckets lock = sticky_buckets old items" "lk_items lock = items"
    "lk_solo lock = Some (case lk_solo old of None \<Rightarrow> 512 * 2 ^ 20 | Some n \<Rightarrow> n)"
    by (rule refresh_parts [OF assms]) blast
  show "map_of (lk_buckets lock) grp =
    (if \<exists>(i, it) \<in> set (lk_items lock). group_of (it_servers it) = grp
     then Some (case map_of (lk_buckets old) grp of
            Some n \<Rightarrow> n
          | None \<Rightarrow> default_bucket_count
              (int (length (filter (\<lambda>(i, it). group_of (it_servers it) = grp) (lk_items lock)))))
     else None)"
    unfolding r(1,2) by (rule sticky_lookup)
  show "lk_solo lock = Some (case lk_solo old of None \<Rightarrow> 512 * 2 ^ 20 | Some n \<Rightarrow> n)" by (rule r(3))
qed

lemma refresh_partitions:
  assumes "refresh config api old = Inr lock" and "\<forall>(g, n) \<in> set (lk_buckets old). n \<noteq> 0"
  shows "\<exists>p. partition_items lock = Inr p"
proof (rule partition_total [OF refresh_ids(1) [OF assms(1)]], rule ballI, clarify)
  fix i it
  assume i: "(i, it) \<in> set (lk_items lock)"
  then have num: "py_int i \<noteq> None" using refresh_ids(2) [OF assms(1)] by force
  let ?g = "group_of (it_servers it)"
  from i have "\<exists>(i, it) \<in> set (lk_items lock). group_of (it_servers it) = ?g" by blast
  with refresh_sticky(1) [OF assms(1), of ?g]
  have c: "map_of (lk_buckets lock) ?g = Some (case map_of (lk_buckets old) ?g of
      Some n \<Rightarrow> n
    | None \<Rightarrow> default_bucket_count
        (int (length (filter (\<lambda>(i, it). group_of (it_servers it) = ?g) (lk_items lock)))))"
    by simp
  have "default_bucket_count n \<noteq> 0" for n using bucket_count_bounds [of n] by simp
  with assms(2) have "(case map_of (lk_buckets old) ?g of
      Some n \<Rightarrow> n
    | None \<Rightarrow> default_bucket_count
        (int (length (filter (\<lambda>(i, it). group_of (it_servers it) = ?g) (lk_items lock))))) \<noteq> 0"
    by (auto split: option.split dest: map_of_SomeD)
  with c num show "py_int i \<noteq> None \<and> (\<exists>cnt. map_of (lk_buckets lock) ?g = Some cnt \<and> cnt \<noteq> 0)"
    by blast
qed

section \<open>Properties\<close>

definition sample_config :: server_config where
  "sample_config = [(''test'', Some ''102 // b
99''), (''base'', None), (''main'', Some ''101
// 7
102
101'')]"

definition sample_api :: "string list \<Rightarrow> detail list" where
  "sample_api ids = map (\<lambda>i. \<lparr>pf_id = i, pf_result = Some 1, pf_app = Some APPID, pf_title = None,
     pf_manifest = Some ''77'', pf_size = Some 10, pf_time = Some 5\<rparr>) ids"

definition sample_old :: lock where
  "sample_old = \<lparr>lk_solo = None, lk_buckets = [(''main'', 9)], lk_items = []\<rparr>"

definition sample_refreshed :: lock where
  "sample_refreshed = \<lparr>lk_solo = Some 536870912, lk_buckets = [(''main'', 9), (''main-test'', 1), (''test'', 1)],
     lk_items = [(''99'', \<lparr>it_title = [], it_manifest = ''77'', it_size = 10, it_time = 5, it_servers = [''test'']\<rparr>),
       (''101'', \<lparr>it_title = [], it_manifest = ''77'', it_size = 10, it_time = 5, it_servers = [''main'']\<rparr>),
       (''102'', \<lparr>it_title = [], it_manifest = ''77'', it_size = 10, it_time = 5, it_servers = [''main'', ''test'']\<rparr>)]\<rparr>"

lemma sample_refresh: "refresh sample_config sample_api sample_old = Inr sample_refreshed"
  by code_simp

text \<open>
  C14. A refreshed lockfile pins exactly what the servers subscribe to: an id is
  in a server's file, uncommented, if and only if the lockfile has an item with
  that server among its subscribers; the items are distinct and in numerical
  order.
\<close>

theorem refresh_pins_subscriptions:
  assumes "distinct (map fst config)" and "refresh config api old = Inr lock"
    and "map_of config s = Some (Some t)" and "s \<notin> NOT_SERVERS"
  shows "(i \<in> set (subscribed_ids t) \<longleftrightarrow>
      (\<exists>it. (i, it) \<in> set (lk_items lock) \<and> s \<in> set (it_servers it)))
    \<and> distinct (map fst (lk_items lock))
    \<and> sorted (map (\<lambda>p. the (py_int (fst p))) (lk_items lock))"
  using refresh_subscribers [OF assms] refresh_ids [OF assms(2)] by blast

theorem refresh_pins_subscriptions_witness:
  "\<exists>it. (''102'', it) \<in> set (lk_items sample_refreshed) \<and> ''test'' \<in> set (it_servers it)"
proof -
  have "''102'' \<in> set (subscribed_ids ''102 // b
99'')" by code_simp
  moreover have "map_of sample_config ''test'' = Some (Some ''102 // b
99'')" "distinct (map fst sample_config)" "''test'' \<notin> NOT_SERVERS"
    by (simp_all add: sample_config_def NOT_SERVERS_def)
  ultimately show ?thesis
    using refresh_pins_subscriptions [OF _ sample_refresh, of "''test''" _ "''102''"] by blast
qed

text \<open>
  Bucket counts are sticky: a group that had a count keeps it, a new group
  gets one between 1 and 32, and the size that earns an item its own layer never
  moves once it is in the lockfile.
\<close>

lemma refresh_counts_are_sticky:
  assumes "refresh config api old = Inr lock" and "map_of (lk_buckets lock) grp = Some n"
  shows "(\<forall>m. map_of (lk_buckets old) grp = Some m \<longrightarrow> n = m)
    \<and> (map_of (lk_buckets old) grp = None \<longrightarrow> 1 \<le> n \<and> n \<le> 32)
    \<and> (\<forall>b. lk_solo old = Some b \<longrightarrow> lk_solo lock = Some b)"
proof -
  from assms(2) refresh_sticky(1) [OF assms(1), of grp]
  have n: "n = (case map_of (lk_buckets old) grp of
      Some n \<Rightarrow> n
    | None \<Rightarrow> default_bucket_count
        (int (length (filter (\<lambda>(i, it). group_of (it_servers it) = grp) (lk_items lock)))))"
    by (simp split: if_splits)
  show ?thesis
    using n bucket_count_bounds refresh_sticky(2) [OF assms(1)] by (auto split: option.splits)
qed

text \<open>
  What \<open>refresh\<close> writes, \<open>render\<close> can partition: every group of the new
  lockfile has a bucket count, every id is a number, and no lookup, conversion or
  division on the way raises.
\<close>

lemma refreshed_lock_partitions:
  assumes "refresh config api old = Inr lock" and "\<forall>(g, n) \<in> set (lk_buckets old). n \<noteq> 0"
  shows "\<exists>p. partition_items lock = Inr p"
  using assms by (rule refresh_partitions)

end
