(* ===== verification/Splice.thy ===== *)
theory Splice
  imports PyText WorkshopLock
begin

text \<open>
  Generated regions inside a file that is otherwise edited by hand (\<open>splice\<close> of
  \<open>tools/workshop/workshop_lock.py\<close>): the code works on the text, by substring;
  the specification is a document of plain lines and named regions, of which a
  splice replaces one body.
\<close>

section \<open>The code\<close>

definition start_marker :: "string \<Rightarrow> string" where
  "start_marker region = ''# >>> workshop-lock: '' @ region @ '' >>>''"

definition end_marker :: "string \<Rightarrow> string" where
  "end_marker region = ''# <<< workshop-lock: '' @ region @ '' <<<''"

definition splice :: "string \<Rightarrow> string \<Rightarrow> string list \<Rightarrow> lock_error + string" where
  "splice t region ls =
     (let start = start_marker region; stop = end_marker region
      in case cut_at start t of
           None \<Rightarrow> Inl (Exit (''Dockerfile is missing the markers: '' @ region))
         | Some (head, rest) \<Rightarrow>
             if cut_at stop t = None then Inl (Exit (''Dockerfile is missing the markers: '' @ region))
             else (case cut_at stop rest of
                     None \<Rightarrow> Inl (ValueError ''not enough values to unpack'')
                   | Some (_, tail) \<Rightarrow> Inr (head @ join_lines (start # ls @ [stop]) @ tail)))"

definition splice_all :: "string \<Rightarrow> (string \<times> string list) list \<Rightarrow> lock_error + string" where
  "splice_all t regions = foldl (\<lambda>r (region, ls). rbind r (\<lambda>t. splice t region ls)) (Inr t) regions"

section \<open>The specification\<close>

type_synonym document = "(string list \<times> string \<times> string list) list \<times> string list"

definition seg_lines :: "string list \<times> string \<times> string list \<Rightarrow> string list" where
  "seg_lines = (\<lambda>(plain, region, body). plain @ start_marker region # body @ [end_marker region])"

definition doc_lines :: "document \<Rightarrow> string list" where
  "doc_lines = (\<lambda>(segs, tail). concat (map seg_lines segs) @ tail)"

definition doc_text :: "document \<Rightarrow> string" where
  "doc_text d = join_lines (doc_lines d)"

definition regions_of :: "document \<Rightarrow> string list" where
  "regions_of = (\<lambda>(segs, tail). map (\<lambda>(plain, region, body). region) segs)"

definition set_region :: "string \<Rightarrow> string list \<Rightarrow> document \<Rightarrow> document" where
  "set_region r ls = (\<lambda>(segs, tail).
     (map (\<lambda>(plain, region, body). (plain, region, if region = r then ls else body)) segs, tail))"

text \<open>A line that is no marker, and a region name a marker can hold.\<close>

definition clean_line :: "string \<Rightarrow> bool" where
  "clean_line l \<longleftrightarrow>
     newline \<notin> set l \<and> \<not> sublist ''# >>> workshop-lock: '' l \<and> \<not> sublist ''# <<< workshop-lock: '' l"

definition plain_name :: "string \<Rightarrow> bool" where
  "plain_name r \<longleftrightarrow> (\<forall>c \<in> set r. c \<notin> {CHR ''#'', CHR ''<'', CHR ''>'', newline})"

definition good_doc :: "document \<Rightarrow> bool" where
  "good_doc = (\<lambda>(segs, tail).
     (\<forall>(plain, region, body) \<in> set segs.
        list_all clean_line plain \<and> plain_name region \<and> list_all clean_line body) \<and>
     list_all clean_line tail \<and> distinct (map (\<lambda>(plain, region, body). region) segs))"

section \<open>Substrings and lines\<close>

lemma cut_at_skip:
  assumes "newline \<notin> set n" and "newline \<notin> set x" and "n \<noteq> []" and "\<not> sublist n x"
  shows "cut_at n (x @ newline # s) = map_option (\<lambda>(h, t). (x @ newline # h, t)) (cut_at n s)"
  using assms(2,4)
proof (induction x)
  case Nil
  obtain a n' where n: "n = a # n'" using assms(3) by (cases n) auto
  with assms(1) have "\<not> prefix n (newline # s)" by auto
  then show ?case by (auto split: option.splits)
next
  case (Cons c x)
  have "\<not> prefix n ((c # x) @ newline # s)"
  proof
    assume "prefix n ((c # x) @ newline # s)"
    then have "prefix n (c # x) \<or> (\<exists>us. n = (c # x) @ us \<and> prefix us (newline # s))"
      by (simp only: prefix_append)
    then consider "prefix n (c # x)" | us where "n = (c # x) @ us" "us \<noteq> []" "prefix us (newline # s)"
      by (metis append_Nil2 prefix_order.order_refl)
    then show False
    proof cases
      case 1
      with Cons.prems(2) show False by (simp add: prefix_imp_sublist)
    next
      case 2
      with assms(1) show False by (cases us) auto
    qed
  qed
  moreover have "\<not> sublist n x" using Cons.prems(2) by (auto simp: sublist_Cons_right)
  ultimately show ?case using Cons by (auto split: option.splits)
qed

lemma cut_at_lines:
  assumes "newline \<notin> set n" and "n \<noteq> []" and "\<forall>x \<in> set pre. newline \<notin> set x \<and> \<not> sublist n x"
  shows "cut_at n (concat (map (\<lambda>x. x @ [newline]) pre) @ n @ s) =
    Some (concat (map (\<lambda>x. x @ [newline]) pre), s)"
  using assms(3)
proof (induction pre)
  case Nil
  then show ?case by (simp add: cut_at_here)
next
  case (Cons x pre)
  with cut_at_skip [OF assms(1) _ assms(2), of x] show ?case by simp
qed

section \<open>Markers\<close>

lemma plain_no_newline: "plain_name r \<Longrightarrow> newline \<notin> set r"
  by (auto simp: plain_name_def)

lemma marker_no_newline:
  assumes "plain_name r"
  shows "newline \<notin> set (start_marker r)" "newline \<notin> set (end_marker r)"
  using plain_no_newline [OF assms] by (simp_all add: start_marker_def end_marker_def)

lemma sublist_hash:
  assumes "sublist (CHR ''#'' # n) (CHR ''#'' # s)" and "CHR ''#'' \<notin> set s"
  shows "prefix n s"
proof -
  obtain u v where uv: "CHR ''#'' # s = u @ (CHR ''#'' # n) @ v" using assms(1) by (auto simp: sublist_def)
  then show ?thesis using assms(2) by (cases u) auto
qed

lemma same_name:
  assumes "r @ '' '' @ [q, q, q] @ v = r' @ '' '' @ [q, q, q]" and "q \<notin> set r" and "q \<notin> set r'" and "q \<noteq> CHR '' ''"
  shows "r = r'"
proof -
  have "q \<notin> set (r @ '' '')" "q \<notin> set (r' @ '' '')" using assms(2-4) by auto
  from takeWhile_until(1) [OF this(1), of "[q, q] @ v"] takeWhile_until(1) [OF this(2), of "[q, q]"] assms(1)
  have "r @ '' '' = r' @ '' ''" by simp
  then show ?thesis by simp
qed

lemma markers_apart:
  assumes "plain_name r" and "plain_name r'"
  shows "sublist (start_marker r) (start_marker r') \<longleftrightarrow> r = r'"
    and "sublist (end_marker r) (end_marker r') \<longleftrightarrow> r = r'"
    and "\<not> sublist (start_marker r) (end_marker r')"
proof -
  have h: "CHR ''#'' \<notin> set (tl (start_marker x))" "CHR ''#'' \<notin> set (tl (end_marker x))" if "plain_name x" for x
    using that by (auto simp: plain_name_def start_marker_def end_marker_def)
  have ch: "CHR ''>'' \<notin> set x" "CHR ''<'' \<notin> set x" if "plain_name x" for x
    using that by (auto simp: plain_name_def)
  show "sublist (start_marker r) (start_marker r') \<longleftrightarrow> r = r'"
  proof
    assume "sublist (start_marker r) (start_marker r')"
    then have "prefix (tl (start_marker r)) (tl (start_marker r'))"
      using h(1) [OF assms(2)] by (intro sublist_hash) (simp_all add: start_marker_def)
    then obtain v where "r @ '' '' @ [CHR ''>'', CHR ''>'', CHR ''>''] @ v =
        r' @ '' '' @ [CHR ''>'', CHR ''>'', CHR ''>'']"
      by (auto simp: start_marker_def prefix_def)
    then show "r = r'" using ch(1) [OF assms(1)] ch(1) [OF assms(2)] by (rule same_name) simp
  qed simp
  show "sublist (end_marker r) (end_marker r') \<longleftrightarrow> r = r'"
  proof
    assume "sublist (end_marker r) (end_marker r')"
    then have "prefix (tl (end_marker r)) (tl (end_marker r'))"
      using h(2) [OF assms(2)] by (intro sublist_hash) (simp_all add: end_marker_def)
    then obtain v where "r @ '' '' @ [CHR ''<'', CHR ''<'', CHR ''<''] @ v =
        r' @ '' '' @ [CHR ''<'', CHR ''<'', CHR ''<'']"
      by (auto simp: end_marker_def prefix_def)
    then show "r = r'" using ch(2) [OF assms(1)] ch(2) [OF assms(2)] by (rule same_name) simp
  qed simp
  show "\<not> sublist (start_marker r) (end_marker r')"
  proof
    assume "sublist (start_marker r) (end_marker r')"
    then have "prefix (tl (start_marker r)) (tl (end_marker r'))"
      using h(2) [OF assms(2)] by (intro sublist_hash) (simp_all add: start_marker_def end_marker_def)
    then show False by (simp add: start_marker_def end_marker_def)
  qed
qed

lemma clean_no_marker:
  assumes "clean_line l"
  shows "newline \<notin> set l" "\<not> sublist (start_marker r) l" "\<not> sublist (end_marker r) l"
proof -
  have "sublist (x @ y) l \<Longrightarrow> sublist x l" for x y :: string
    by (auto simp: sublist_def)
  with assms show "newline \<notin> set l" "\<not> sublist (start_marker r) l" "\<not> sublist (end_marker r) l"
    by (auto simp: clean_line_def start_marker_def end_marker_def)
qed

section \<open>Refinement\<close>

lemma seg_lines_skip:
  assumes "list_all clean_line plain" and "plain_name region" and "list_all clean_line body"
    and "plain_name r" and "region \<noteq> r" and "x \<in> set (seg_lines (plain, region, body))"
  shows "newline \<notin> set x \<and> \<not> sublist (start_marker r) x"
  using assms markers_apart [OF assms(4,2)] marker_no_newline [OF assms(2)]
  by (auto simp: seg_lines_def list_all_iff dest: clean_no_marker)

lemma starts_ends: "concat (map (\<lambda>x. sep # x) ls) @ [sep] = concat (map (\<lambda>x. x @ [sep]) ([] # ls))"
  by (induction ls) auto

lemma splice_refines:
  assumes "good_doc d" and "r \<in> set (regions_of d)"
  shows "splice (doc_text d) r ls = Inr (doc_text (set_region r ls d))"
proof -
  obtain segs tail where d: "d = (segs, tail)" by (cases d)
  from assms(2) obtain plain body where "(plain, r, body) \<in> set segs" by (auto simp: d regions_of_def)
  then obtain segs1 segs2 where s: "segs = segs1 @ (plain, r, body) # segs2" by (meson split_list)
  from assms(1) have all: "\<forall>(plain, region, body) \<in> set segs.
      list_all clean_line plain \<and> plain_name region \<and> list_all clean_line body"
    "distinct (map (\<lambda>(plain, region, body). region) segs)"
    by (simp_all add: good_doc_def d)
  from all(2) have apart: "r \<notin> (\<lambda>(plain, region, body). region) ` set segs1"
    "r \<notin> (\<lambda>(plain, region, body). region) ` set segs2"
    by (simp_all add: s)
  have good: "\<forall>(plain, region, body) \<in> set segs1.
      list_all clean_line plain \<and> plain_name region \<and> list_all clean_line body \<and> region \<noteq> r"
    "\<forall>(plain, region, body) \<in> set segs2. region \<noteq> r"
    using all(1) apart by (force simp: s)+
  have self: "list_all clean_line plain" "plain_name r" "list_all clean_line body"
    using all(1) by (simp_all add: s)
  note good = good self
  note nl = marker_no_newline [OF good(4)]
  let ?pre = "concat (map seg_lines segs1) @ plain"
  let ?post = "concat (map seg_lines segs2) @ tail"
  let ?ends = "\<lambda>ls. concat (map (\<lambda>x. x @ [newline]) ls)"
  let ?starts = "\<lambda>ls. concat (map (\<lambda>x. newline # x) ls)"
  have pre: "\<forall>x \<in> set ?pre. newline \<notin> set x \<and> \<not> sublist (start_marker r) x"
  proof
    fix x
    assume "x \<in> set ?pre"
    then consider seg where "seg \<in> set segs1" "x \<in> set (seg_lines seg)" | "x \<in> set plain" by auto
    then show "newline \<notin> set x \<and> \<not> sublist (start_marker r) x"
    proof cases
      case 1
      obtain pl reg bd where seg: "seg = (pl, reg, bd)" by (cases seg)
      with 1(1) good(1) have "list_all clean_line pl" "plain_name reg" "list_all clean_line bd" "reg \<noteq> r" by auto
      with seg_lines_skip [OF _ _ _ good(4)] 1(2) seg show ?thesis by blast
    next
      case 2
      with good(3) show ?thesis by (auto simp: list_all_iff dest: clean_no_marker)
    qed
  qed
  have body: "\<forall>x \<in> set ([] # body). newline \<notin> set x \<and> \<not> sublist (end_marker r) x"
  proof -
    have "\<not> sublist (end_marker r) []" by (simp add: end_marker_def)
    with good(5) show ?thesis by (auto simp: list_all_iff dest: clean_no_marker)
  qed
  have lines: "doc_lines (set_region r ls' d) = ?pre @ start_marker r # (ls' @ end_marker r # ?post)" for ls'
  proof -
    let ?f = "\<lambda>(plain, region, body). (plain, region, if region = r then ls' else body)"
    have "map ?f segs1 = segs1" "map ?f segs2 = segs2" using good(1,2) by (auto intro!: map_idI)
    then show ?thesis by (simp add: d s set_region_def doc_lines_def seg_lines_def)
  qed
  have "set_region r body d = d" using good(1,2) by (auto simp: d s set_region_def intro!: map_idI)
  with lines [of body] have t: "doc_text d = ?ends ?pre @ start_marker r @ ?starts (body @ end_marker r # ?post)"
    by (simp only: doc_text_def join_with_mid)
  have rest: "?starts (body @ end_marker r # ?post) = ?ends ([] # body) @ end_marker r @ ?starts ?post"
    using starts_ends [of newline body] by (simp flip: append_assoc)
  have "cut_at (start_marker r) (doc_text d) = Some (?ends ?pre, ?starts (body @ end_marker r # ?post))"
    unfolding t using nl(1) pre by (intro cut_at_lines) (simp_all add: start_marker_def)
  moreover have "cut_at (end_marker r) (?starts (body @ end_marker r # ?post)) =
      Some (?ends ([] # body), ?starts ?post)"
    unfolding rest using nl(2) body by (intro cut_at_lines) (simp_all add: end_marker_def)
  moreover have "doc_text d = (?ends ?pre @ start_marker r @ ?ends ([] # body)) @ end_marker r @ ?starts ?post"
    by (simp only: t rest append_assoc)
  then have "sublist (end_marker r) (doc_text d)" by (simp only: sublist_appendI)
  then have "cut_at (end_marker r) (doc_text d) \<noteq> None" by (simp add: cut_at_None)
  ultimately have "splice (doc_text d) r ls =
      Inr (?ends ?pre @ join_lines ([] @ start_marker r # (ls @ [end_marker r])) @ ?starts ?post)"
    by (simp add: splice_def Let_def)
  also have "?ends ?pre @ join_lines ([] @ start_marker r # (ls @ [end_marker r])) @ ?starts ?post =
      doc_text (set_region r ls d)"
    unfolding doc_text_def lines join_with_mid by simp
  finally show ?thesis .
qed

end
