(* ===== verification/WorkshopRender.thy ===== *)
theory WorkshopRender
  imports WorkshopRefresh Splice Sync
begin

text \<open>
  What follows from the lockfile (\<open>render\<close> and \<open>check\<close> of
  \<open>tools/workshop/workshop_lock.py\<close>): the download stages and the \<open>COPY\<close> lines
  spliced into the Dockerfile, and the \<open>appworkshop_222880.acf\<close> of each server.
\<close>

section \<open>Download stages\<close>

definition stage_name :: "string \<Rightarrow> string \<Rightarrow> string" where
  "stage_name grp key = ''ws-'' @ grp @ ''-'' @ key"

definition pinned_line :: "lock \<Rightarrow> string \<Rightarrow> lock_error + string" where
  "pinned_line lock i =
     rbind (lock_item lock i) (\<lambda>it. Inr (''    '' @ i @ '':'' @ it_manifest it @ [CHR '' '', backslash]))"

text \<open>\<open>pinned[-1] = pinned[-1].rstrip(" \\")\<close>\<close>

definition strip_last :: "string list \<Rightarrow> lock_error + string list" where
  "strip_last pinned =
     (if pinned = [] then Inl IndexError
      else Inr (butlast pinned @ [rev (dropWhile (\<lambda>c. c \<in> {CHR '' '', backslash}) (rev (last pinned)))]))"

definition item_size :: "lock \<Rightarrow> string \<Rightarrow> lock_error + int" where
  "item_size lock i = rbind (lock_item lock i) (\<lambda>it. Inr (it_size it))"

definition stage_lines :: "lock \<Rightarrow> string \<Rightarrow> string \<times> string list \<Rightarrow> lock_error + string list" where
  "stage_lines lock grp = (\<lambda>(key, ids).
     rbind (rmap (item_size lock) ids) (\<lambda>sizes.
     rbind (rmap (pinned_line lock) ids) (\<lambda>pinned.
     rbind (strip_last pinned) (\<lambda>pinned'.
       Inr ([[], ''# '' @ int_str (int (length ids)) @ '' items, ''
                 @ int_str (round_div (sum_list sizes) (2 ^ 20)) @ '' MB'',
             ''FROM workshop-downloader AS '' @ stage_name grp key,
             ''RUN fetch-items /out '' @ [backslash]] @ pinned')))))"

definition dockerfile_stages :: "lock \<Rightarrow> (string \<times> buckets) list \<Rightarrow> lock_error + string list" where
  "dockerfile_stages lock p =
     rbind (rmap (\<lambda>(grp, bs). rbind (rmap (stage_lines lock grp) (sort_key fst bs)) (\<lambda>ls. Inr (concat ls)))
       (sort_key fst p)) (\<lambda>ls. Inr (concat ls))"

section \<open>Layers\<close>

definition layer_line :: "string \<Rightarrow> string \<Rightarrow> string" where
  "layer_line grp key =
     ''COPY --link --chown=1000:1000 --from='' @ stage_name grp key
       @ '' /out /opt/insurgency-server/steamapps/workshop/content/'' @ APPID @ ''/''"

definition dockerfile_layers :: "string \<Rightarrow> (string \<times> buckets) list \<Rightarrow> string list" where
  "dockerfile_layers server p =
     concat (map (\<lambda>(grp, bs).
       if server \<notin> set (split_on (CHR ''-'') grp) then []
       else map (\<lambda>(key, ids). layer_line grp key) (sort_key fst bs)) (sort_key fst p))"

section \<open>The acf file\<close>

definition quoted :: "string \<Rightarrow> string" where
  "quoted s = dquote # s @ [dquote]"

definition pair_line :: "nat \<Rightarrow> string \<Rightarrow> string \<Rightarrow> string" where
  "pair_line n key value = replicate n tab @ quoted key @ [tab, tab] @ quoted value"

definition acf_ids :: "lock \<Rightarrow> string \<Rightarrow> lock_error + string list" where
  "acf_ids lock server =
     sort_ids (map fst (filter (\<lambda>(i, it). server \<in> set (it_servers it)) (lk_items lock)))"

definition acf_header :: "int \<Rightarrow> string list" where
  "acf_header disk_size =
     map (\<lambda>(k, v). pair_line 1 k v)
       [(''appid'', APPID), (''SizeOnDisk'', int_str disk_size), (''NeedsUpdate'', ''0''),
        (''NeedsDownload'', ''0''), (''TimeLastUpdated'', ''0''), (''TimeLastAppRan'', ''0''),
        (''LastBuildID'', ''0'')]"

definition block :: "nat \<Rightarrow> string \<Rightarrow> string list \<Rightarrow> string list" where
  "block n name ls =
     [replicate n tab @ quoted name, replicate n tab @ ''{''] @ ls @ [replicate n tab @ ''}'']"

definition acf_installed :: "string \<times> pinned \<Rightarrow> string list" where
  "acf_installed = (\<lambda>(i, it). block 2 i
     [pair_line 3 ''size'' (int_str (it_size it)),
      pair_line 3 ''timeupdated'' (int_str (it_time it)),
      pair_line 3 ''manifest'' (it_manifest it)])"

definition acf_detail :: "string \<times> pinned \<Rightarrow> string list" where
  "acf_detail = (\<lambda>(i, it). block 2 i
     [pair_line 3 ''manifest'' (it_manifest it),
      pair_line 3 ''timeupdated'' (int_str (it_time it)),
      pair_line 3 ''timetouched'' (int_str (it_time it)),
      pair_line 3 ''latest_timeupdated'' (int_str (it_time it)),
      pair_line 3 ''latest_manifest'' (it_manifest it)])"

definition acf_lines :: "(string \<times> pinned) list \<Rightarrow> string list" where
  "acf_lines its =
     [quoted ''AppWorkshop'', ''{''] @ acf_header (sum_list (map (it_size \<circ> snd) its))
     @ block 1 ''WorkshopItemsInstalled'' (concat (map acf_installed its))
     @ block 1 ''WorkshopItemDetails'' (concat (map acf_detail its)) @ [''}'', []]"

definition acf :: "lock \<Rightarrow> string \<Rightarrow> lock_error + string" where
  "acf lock server =
     rbind (acf_ids lock server) (\<lambda>ids.
     rbind (rmap (\<lambda>i. rbind (lock_item lock i) (\<lambda>it. Inr (i, it))) ids) (\<lambda>its.
       Inr (join_lines (acf_lines its))))"

section \<open>Everything that is generated\<close>

definition DOCKERFILE :: string where "DOCKERFILE = ''Dockerfile''"

definition acf_path :: "string \<Rightarrow> string" where
  "acf_path server =
     ''server config/'' @ server @ ''/opt/insurgency-server/steamapps/workshop/appworkshop_222880.acf''"

definition lock_servers :: "lock \<Rightarrow> string list" where
  "lock_servers lock = sort (remdups (concat (map (it_servers \<circ> snd) (lk_items lock))))"

definition layers_region :: "string \<Rightarrow> string" where
  "layers_region server = ''workshop layers: '' @ server"

definition generated :: "lock \<Rightarrow> lock_error + (string \<times> string list) list \<times> (string \<times> string) list" where
  "generated lock =
     rbind (partition_items lock) (\<lambda>p.
     rbind (dockerfile_stages lock p) (\<lambda>stages.
     rbind (rmap (\<lambda>server. rbind (acf lock server) (\<lambda>t. Inr (acf_path server, t))) (lock_servers lock)) (\<lambda>acfs.
       Inr ((''workshop stages'', stages)
            # map (\<lambda>server. (layers_region server, dockerfile_layers server p)) (lock_servers lock),
          acfs))))"

definition rendered :: "lock \<Rightarrow> dir \<Rightarrow> lock_error + (string \<times> string) list" where
  "rendered lock d =
     rbind (generated lock) (\<lambda>(regions, acfs).
       case map_of d DOCKERFILE of
         None \<Rightarrow> Inl (NoFile DOCKERFILE)
       | Some t \<Rightarrow>
           rbind (splice_all t (sort_key fst regions)) (\<lambda>t'. Inr (sort_key fst ((DOCKERFILE, t') # acfs))))"

definition render_lock :: "lock \<Rightarrow> dir \<Rightarrow> lock_error + dir \<times> string list" where
  "render_lock lock d = rbind (rendered lock d) (\<lambda>fs. Inr (sync True fs d))"

definition check_lock :: "lock \<Rightarrow> dir \<Rightarrow> lock_error + unit" where
  "check_lock lock d =
     rbind (rendered lock d) (\<lambda>fs.
       if snd (sync False (filter (\<lambda>(path, t). path = DOCKERFILE) fs) d) = [] then Inr ()
       else Inl (Exit ''run `make workshop-render` and commit the result''))"

section \<open>Splicing several regions\<close>

lemma regions_set_region: "regions_of (set_region r ls d) = regions_of d"
  by (cases d) (auto simp: regions_of_def set_region_def)

lemma good_set_region: "good_doc d \<Longrightarrow> list_all clean_line ls \<Longrightarrow> good_doc (set_region r ls d)"
  by (cases d) (auto simp: good_doc_def set_region_def comp_def split_def)

definition set_regions :: "(string \<times> string list) list \<Rightarrow> document \<Rightarrow> document" where
  "set_regions regions d = foldl (\<lambda>d (r, ls). set_region r ls d) d regions"

lemma set_regions_Cons: "set_regions ((r, ls) # rs) d = set_regions rs (set_region r ls d)"
  by (simp add: set_regions_def)

lemma good_set_regions:
  "good_doc d \<Longrightarrow> \<forall>(r, ls) \<in> set rs. list_all clean_line ls \<Longrightarrow> good_doc (set_regions rs d)"
proof (induction rs arbitrary: d)
  case Nil
  then show ?case by (simp add: set_regions_def)
next
  case (Cons p rs)
  then show ?case by (cases p) (simp add: set_regions_Cons good_set_region)
qed

lemma regions_set_regions: "regions_of (set_regions rs d) = regions_of d"
  by (induction rs arbitrary: d) (auto simp: set_regions_def regions_set_region)

text \<open>All the regions are replaced, and nothing else is.\<close>

lemma set_regions_eq:
  "distinct (map fst rs) \<Longrightarrow> set_regions rs (segs, tail) =
     (map (\<lambda>(plain, r, body). (plain, r, case map_of rs r of None \<Rightarrow> body | Some ls \<Rightarrow> ls)) segs, tail)"
proof (induction rs arbitrary: segs)
  case Nil
  then show ?case by (simp add: set_regions_def split_def)
next
  case (Cons p rs)
  obtain r ls where p: "p = (r, ls)" by (cases p)
  with Cons.prems have "map_of rs r = None" by (simp add: map_of_eq_None_iff)
  with Cons p show ?case
    by (auto simp: set_regions_Cons set_region_def split: option.splits)
qed

lemma set_regions_twice: "distinct (map fst rs) \<Longrightarrow> set_regions rs (set_regions rs d) = set_regions rs d"
  by (cases d) (auto simp: set_regions_eq split: option.splits)

lemma splice_all_refines:
  "good_doc d \<Longrightarrow> \<forall>(r, ls) \<in> set rs. list_all clean_line ls \<and> r \<in> set (regions_of d) \<Longrightarrow>
     splice_all (doc_text d) rs = Inr (doc_text (set_regions rs d))"
proof (induction rs arbitrary: d)
  case Nil
  then show ?case by (simp add: splice_all_def set_regions_def)
next
  case (Cons p rs)
  obtain r ls where p: "p = (r, ls)" by (cases p)
  with Cons.prems have "splice (doc_text d) r ls = Inr (doc_text (set_region r ls d))"
    by (intro splice_refines) auto
  moreover have "good_doc (set_region r ls d)" using Cons.prems p by (intro good_set_region) auto
  then have "splice_all (doc_text (set_region r ls d)) rs = Inr (doc_text (set_regions rs (set_region r ls d)))"
    using Cons.prems by (intro Cons.IH) (auto simp: regions_set_region)
  ultimately show ?case by (simp add: p splice_all_def set_regions_Cons)
qed

section \<open>Generated lines are no markers\<close>

definition angle_free :: "string \<Rightarrow> bool" where
  "angle_free s \<longleftrightarrow> (\<forall>c \<in> set s. c \<notin> {CHR ''<'', CHR ''>'', newline})"

lemma angle_free_simps [simp]:
  "angle_free []"
  "angle_free (c # s) \<longleftrightarrow> c \<notin> {CHR ''<'', CHR ''>'', newline} \<and> angle_free s"
  "angle_free (s @ t) \<longleftrightarrow> angle_free s \<and> angle_free t"
  "angle_free (rev s) \<longleftrightarrow> angle_free s"
  by (auto simp: angle_free_def)

lemma angle_free_plain: "plain_name s \<Longrightarrow> angle_free s"
  by (auto simp: plain_name_def angle_free_def)

lemma angle_free_clean: "angle_free l \<Longrightarrow> clean_line l"
proof -
  assume l: "angle_free l"
  have "\<not> sublist m l" if "CHR ''<'' \<in> set m \<or> CHR ''>'' \<in> set m" for m
    using that l set_mono_sublist [of m l] by (auto simp: angle_free_def)
  from this [of "''# >>> workshop-lock: ''"] this [of "''# <<< workshop-lock: ''"] l
  show ?thesis by (auto simp: clean_line_def angle_free_def)
qed

lemma angle_free_dropWhile: "angle_free s \<Longrightarrow> angle_free (dropWhile P s)"
  by (auto simp: angle_free_def dest: set_dropWhileD)

lemma angle_free_join: "c \<notin> {CHR ''<'', CHR ''>'', newline} \<Longrightarrow> (\<forall>s \<in> set ss. angle_free s) \<Longrightarrow> angle_free (join_with c ss)"
  by (induction c ss rule: join_with.induct) auto

lemma angle_free_digit: "0 \<le> n \<Longrightarrow> n \<le> 9 \<Longrightarrow> angle_free [digit_char n]"
proof -
  assume n: "0 \<le> n" "n \<le> 9"
  have v: "digit_value (digit_char n) \<le> 9" "0 \<le> digit_value (digit_char n)" using digit_char_value [OF n] n by simp_all
  have "digit_char n \<noteq> c" if "9 < digit_value c \<or> digit_value c < 0" for c
    using that v by auto
  from this [of "CHR ''<''"] this [of "CHR ''>''"] this [of newline]
  have "digit_char n \<noteq> CHR ''<''" "digit_char n \<noteq> CHR ''>''" "digit_char n \<noteq> newline"
    by (simp_all add: digit_value_def)
  then show ?thesis by simp
qed

lemma angle_free_digits: "0 \<le> n \<Longrightarrow> angle_free (digits n)"
proof (induction n rule: digits.induct)
  case (1 n)
  show ?case
  proof (cases "n < 10")
    case True
    with 1 angle_free_digit [of n] show ?thesis by (subst digits.simps) simp
  next
    case False
    with 1 angle_free_digit [of "n mod 10"] show ?thesis by (subst digits.simps) simp
  qed
qed

lemma angle_free_int_str [simp]: "angle_free (int_str n)"
  using angle_free_digits [of n] angle_free_digits [of "- n"] by (simp add: int_str_def)

lemma angle_free_pad2: "angle_free (pad2 n)"
  by (simp add: pad2_def Let_def)

definition plain_lock :: "lock \<Rightarrow> bool" where
  "plain_lock lock \<longleftrightarrow>
     (\<forall>(i, it) \<in> set (lk_items lock).
        plain_name i \<and> plain_name (it_manifest it) \<and> (\<forall>s \<in> set (it_servers it). plain_name s))"

lemma plain_lock_item:
  "plain_lock lock \<Longrightarrow> lock_item lock i = Inr it \<Longrightarrow>
     angle_free i \<and> angle_free (it_manifest it) \<and> (\<forall>s \<in> set (it_servers it). angle_free s)"
  by (fastforce simp: plain_lock_def lock_item_def angle_free_plain split: option.splits dest: map_of_SomeD)

lemma plain_partition:
  assumes "plain_lock lock" and "partition_items lock = Inr p" and "(grp, bs) \<in> set p"
  shows "angle_free grp" and "(key, ids) \<in> set bs \<Longrightarrow> angle_free key"
proof -
  obtain q where q: "q \<in> set (by_group lock)" "group_buckets lock q = Inr (grp, bs)"
    using rmap_mem_conv [OF assms(2) [unfolded partition_items_def] assms(3)] by blast
  obtain ids0 where q2: "q = (grp, ids0)" using group_buckets_fst [OF q(2)] by (cases q) auto
  from q(1) q2 have "grp \<in> (\<lambda>(i, it). group_of (it_servers it)) ` set (lk_items lock)"
    by (auto simp: by_group_def mem_group_by)
  then obtain i it where "(i, it) \<in> set (lk_items lock)" "grp = group_of (it_servers it)" by auto
  with assms(1) show "angle_free grp"
    unfolding group_of_def by (auto intro!: angle_free_join simp: plain_lock_def angle_free_plain)
  assume k: "(key, ids) \<in> set bs"
  note gb = group_buckets_eq [OF q(2) [unfolded q2]]
  from k gb(2) have "map_of bs key = Some ids" by simp
  with gb(4) [of key] obtain j where
    "bucket_key lock (the (map_of (lk_buckets lock) grp)) j = Inr key"
    by (auto simp: Let_def filter_empty_conv split: if_splits)
  then show "angle_free key"
    using assms(1) by (auto simp: bucket_key_def result_simps angle_free_pad2 split: if_splits dest: plain_lock_item)
qed

lemma stage_lines_free:
  assumes "plain_lock lock" and "angle_free grp" and "angle_free key"
    and "stage_lines lock grp (key, ids) = Inr ls"
  shows "\<forall>l \<in> set ls. angle_free l"
proof -
  obtain sizes pinned pinned' where p: "rmap (pinned_line lock) ids = Inr pinned" "strip_last pinned = Inr pinned'"
    "ls = [[], ''# '' @ int_str (int (length ids)) @ '' items, '' @ int_str (round_div (sum_list sizes) (2 ^ 20)) @ '' MB'',
             ''FROM workshop-downloader AS '' @ stage_name grp key,
             ''RUN fetch-items /out '' @ [backslash]] @ pinned'"
    using assms(4) by (auto simp: stage_lines_def result_simps)
  have "\<forall>l \<in> set pinned. angle_free l"
    using rmap_mem_conv [OF p(1)] plain_lock_item [OF assms(1)]
    by (fastforce simp: pinned_line_def result_simps)
  then have "\<forall>l \<in> set (butlast pinned). angle_free l" "pinned \<noteq> [] \<Longrightarrow> angle_free (last pinned)"
    by (auto dest: in_set_butlastD)
  then have "\<forall>l \<in> set pinned'. angle_free l"
    using p(2) by (auto simp: strip_last_def angle_free_dropWhile split: if_splits)
  with assms(2,3) show ?thesis by (auto simp: p(3) stage_name_def)
qed

lemma generated_clean:
  assumes "plain_lock lock" and "generated lock = Inr (regions, acfs)"
  shows "\<forall>(r, ls) \<in> set regions. list_all clean_line ls"
proof -
  obtain p stages where p: "partition_items lock = Inr p" "dockerfile_stages lock p = Inr stages"
    "regions = (''workshop stages'', stages)
       # map (\<lambda>server. (layers_region server, dockerfile_layers server p)) (lock_servers lock)"
    using assms(2) by (auto simp: generated_def result_simps)
  note plain = plain_partition [OF assms(1) p(1)]
  have "angle_free l" if l: "l \<in> set stages" for l
  proof -
    from p(2) l obtain g ls where g: "g \<in> set (sort_key fst p)"
      "(\<lambda>(grp, bs). rbind (rmap (stage_lines lock grp) (sort_key fst bs)) (\<lambda>ls. Inr (concat ls))) g = Inr ls"
      "l \<in> set ls"
      unfolding dockerfile_stages_def by (rule rmap_concat_mem)
    obtain grp bs where gb: "g = (grp, bs)" by (cases g)
    from g(2) gb have "rbind (rmap (stage_lines lock grp) (sort_key fst bs)) (\<lambda>ls. Inr (concat ls)) = Inr ls"
      by simp
    then obtain b ls' where b: "b \<in> set (sort_key fst bs)" "stage_lines lock grp b = Inr ls'" "l \<in> set ls'"
      using g(3) by (rule rmap_concat_mem)
    obtain key ids where "b = (key, ids)" by (cases b)
    with b g(1) gb have g: "(grp, bs) \<in> set p" "(key, ids) \<in> set bs" "stage_lines lock grp (key, ids) = Inr ls'"
      by simp_all
    note plain = plain(1) [OF g(1)] plain(2) [OF g(1,2)]
    from stage_lines_free [OF assms(1) plain g(3)] b(3) show ?thesis by blast
  qed
  moreover have "angle_free l" if "l \<in> set (dockerfile_layers server p)" for l server
  proof -
    from that obtain grp bs key ids where g: "(grp, bs) \<in> set p" "(key, ids) \<in> set bs" "l = layer_line grp key"
      by (auto simp: dockerfile_layers_def split: if_splits)
    from plain(1) [OF g(1)] plain(2) [OF g(1,2)] show ?thesis
      by (simp add: g(3) layer_line_def stage_name_def APPID_def)
  qed
  ultimately show ?thesis by (auto simp: p(3) list_all_iff angle_free_clean)
qed

section \<open>Rendering is stable\<close>

definition region_names :: "lock \<Rightarrow> string list" where
  "region_names lock = ''workshop stages'' # map layers_region (lock_servers lock)"

lemma generated_regions: "generated lock = Inr (regions, acfs) \<Longrightarrow> map fst regions = region_names lock"
  by (auto simp: generated_def result_simps region_names_def comp_def)

lemma generated_acfs: "generated lock = Inr (regions, acfs) \<Longrightarrow> map fst acfs = map acf_path (lock_servers lock)"
proof -
  have "rmap (\<lambda>server. rbind (acf lock server) (\<lambda>t. Inr (acf_path server, t))) ss = Inr acfs \<Longrightarrow>
      map fst acfs = map acf_path ss" for ss
    by (induction ss arbitrary: acfs) (auto simp: result_simps)
  then show "generated lock = Inr (regions, acfs) \<Longrightarrow> map fst acfs = map acf_path (lock_servers lock)"
    by (auto simp: generated_def result_simps)
qed

lemma distinct_region_names: "distinct (region_names lock)"
proof -
  have "inj layers_region" by (auto simp: inj_def layers_region_def)
  then have "distinct (map layers_region (lock_servers lock))"
    using inj_on_subset [OF _ subset_UNIV] by (simp add: distinct_map lock_servers_def) blast
  then show ?thesis by (auto simp: region_names_def layers_region_def)
qed

lemma distinct_paths: "distinct (DOCKERFILE # map acf_path (lock_servers lock))"
proof -
  have "inj acf_path" by (auto simp: inj_def acf_path_def)
  then have "distinct (map acf_path (lock_servers lock))"
    using inj_on_subset [OF _ subset_UNIV] by (simp add: distinct_map lock_servers_def) blast
  then show ?thesis by (auto simp: acf_path_def DOCKERFILE_def)
qed

text \<open>A directory whose Dockerfile is a document with the regions of this lockfile.\<close>

definition good_dir :: "lock \<Rightarrow> document \<Rightarrow> dir \<Rightarrow> bool" where
  "good_dir lock doc d \<longleftrightarrow>
     plain_lock lock \<and> good_doc doc \<and> set (region_names lock) \<subseteq> set (regions_of doc) \<and>
     map_of d DOCKERFILE = Some (doc_text doc)"

lemma rendered_eq:
  assumes "generated lock = Inr (regions, acfs)" and "good_dir lock doc d"
  shows "rendered lock d =
    Inr (sort_key fst ((DOCKERFILE, doc_text (set_regions (sort_key fst regions) doc)) # acfs))"
proof -
  have "\<forall>(r, ls) \<in> set (sort_key fst regions). list_all clean_line ls \<and> r \<in> set (regions_of doc)"
  proof safe
    fix r ls
    assume r: "(r, ls) \<in> set (sort_key fst regions)"
    then show "list_all clean_line ls"
      using generated_clean [OF _ assms(1)] assms(2) by (auto simp: good_dir_def)
    from r have "r \<in> set (map fst regions)" by force
    then show "r \<in> set (regions_of doc)"
      using generated_regions [OF assms(1)] assms(2) by (auto simp: good_dir_def)
  qed
  with splice_all_refines [of doc "sort_key fst regions"] assms show ?thesis
    by (simp add: rendered_def good_dir_def)
qed

lemma rendered_distinct: "rendered lock d = Inr fs \<Longrightarrow> distinct (map fst fs)"
proof -
  assume "rendered lock d = Inr fs"
  then obtain regions acfs t where "generated lock = Inr (regions, acfs)" "fs = sort_key fst ((DOCKERFILE, t) # acfs)"
    by (auto simp: rendered_def result_simps split: option.splits)
  with distinct_paths [of lock] generated_acfs show "distinct (map fst fs)"
    by (simp del: sort_key_simps distinct.simps)
qed

lemma render_keeps_good:
  assumes "\<exists>doc. good_dir lock doc d" and "rendered lock d = Inr fs"
  shows "(\<exists>doc. good_dir lock doc (fst (sync True fs d))) \<and> rendered lock (fst (sync True fs d)) = Inr fs"
proof -
  obtain doc where good: "good_dir lock doc d" using assms(1) by blast
  obtain regions acfs where g: "generated lock = Inr (regions, acfs)"
    using assms(2) by (auto simp: rendered_def result_simps)
  let ?doc = "set_regions (sort_key fst regions) doc"
  have fs: "fs = sort_key fst ((DOCKERFILE, doc_text ?doc) # acfs)"
    using rendered_eq [OF g good] assms(2) by simp
  then have "map_of (fst (sync True fs d)) DOCKERFILE = Some (doc_text ?doc)"
    by (intro sync_write rendered_distinct [OF assms(2)]) (simp only: set_sort list.set_intros)
  then have good': "good_dir lock ?doc (fst (sync True fs d))"
    using good generated_clean [OF _ g] by (auto simp: good_dir_def regions_set_regions intro!: good_set_regions)
  have "distinct (map fst (sort_key fst regions))"
    using generated_regions [OF g] distinct_region_names [of lock] by simp
  then have "set_regions (sort_key fst regions) ?doc = ?doc" by (rule set_regions_twice)
  with rendered_eq [OF g good'] fs have "rendered lock (fst (sync True fs d)) = Inr fs" by simp
  with good' show ?thesis by blast
qed

interpretation workshop_gen: generator "rendered lock" "\<lambda>d. \<exists>doc. good_dir lock doc d" for lock
proof
  fix d fs
  show "rendered lock d = Inr fs \<Longrightarrow> distinct (map fst fs)" by (rule rendered_distinct)
  assume "\<exists>doc. good_dir lock doc d" and "rendered lock d = Inr fs"
  note keep = render_keeps_good [OF this]
  show "\<exists>doc. good_dir lock doc (fst (sync True fs d))" using keep by blast
  show "rendered lock (fst (sync True fs d)) = Inr fs" using keep by blast
qed

lemma check_after_render:
  assumes "good_dir lock doc d" and "render_lock lock d = Inr (d', written)"
  shows "check_lock lock d' = Inr ()" and "render_lock lock d' = Inr (d', [])"
proof -
  from assms(2) obtain fs where fs: "rendered lock d = Inr fs" "d' = fst (sync True fs d)"
    by (auto simp: render_lock_def result_simps)
  have good: "\<exists>doc. good_dir lock doc d" using assms(1) by blast
  from workshop_gen.write_idempotent [OF good fs]
  have again: "rendered lock d' = Inr fs" "sync True fs d' = (d', [])" by auto
  then show "render_lock lock d' = Inr (d', [])" by (simp add: render_lock_def)
  from workshop_gen.check_after_write [OF good fs(1)] again(1) fs(2)
  have "up_to_date fs d'" by (auto simp: sync_check_clean)
  then have "up_to_date (filter (\<lambda>(path, t). path = DOCKERFILE) fs) d'" by (auto simp: up_to_date_def)
  with again(1) show "check_lock lock d' = Inr ()" by (simp add: check_lock_def flip: sync_check_clean)
qed

section \<open>Layers and installed items\<close>

definition server_buckets :: "string \<Rightarrow> (string \<times> buckets) list \<Rightarrow> (string \<times> string) list" where
  "server_buckets server p =
     concat (map (\<lambda>(grp, bs). if server \<notin> set (split_on (CHR ''-'') grp) then []
       else map (\<lambda>(key, ids). (grp, key)) (sort_key fst bs)) (sort_key fst p))"

lemma layers_eq: "dockerfile_layers server p = map (\<lambda>(grp, key). layer_line grp key) (server_buckets server p)"
  by (simp add: dockerfile_layers_def server_buckets_def map_concat comp_def split_def if_distrib cong: if_cong)

lemma group_members:
  assumes "\<forall>s \<in> set ss. CHR ''-'' \<notin> set s" and "s \<noteq> []"
  shows "s \<in> set (split_on (CHR ''-'') (group_of ss)) \<longleftrightarrow> s \<in> set ss"
proof (cases "ss = []")
  case True
  with assms(2) show ?thesis by (simp add: group_of_def)
next
  case False
  then have "sort ss \<noteq> []" by (metis set_empty set_sort)
  with assms(1) have "split_on (CHR ''-'') (group_of ss) = sort ss" by (simp add: group_of_def split_join)
  then show ?thesis by simp
qed

lemma mem_server_buckets:
  "(g, k) \<in> set (server_buckets s p) \<longleftrightarrow>
     s \<in> set (split_on (CHR ''-'') g) \<and> (\<exists>bs ids. (g, bs) \<in> set p \<and> (k, ids) \<in> set bs)"
  by (force simp: server_buckets_def split: if_splits)

lemma layers_hold_items:
  assumes "partition_items lock = Inr p" and "distinct (map fst (lk_items lock))"
    and "acf_ids lock s = Inr ids" and "s \<noteq> []"
    and "\<forall>(i, it) \<in> set (lk_items lock). \<forall>x \<in> set (it_servers it). CHR ''-'' \<notin> set x"
  shows "i \<in> set ids \<longleftrightarrow> (\<exists>g k xs. (g, k) \<in> set (server_buckets s p) \<and> bucket_at p g k = Some xs \<and> i \<in> set xs)"
proof -
  have ids: "i \<in> set ids \<longleftrightarrow> (\<exists>it. (i, it) \<in> set (lk_items lock) \<and> s \<in> set (it_servers it))"
    using assms(3) by (force simp: acf_ids_def sort_ids_eq)
  have srv: "s \<in> set (split_on (CHR ''-'') (group_of (it_servers it))) \<longleftrightarrow> s \<in> set (it_servers it)"
    if "(i, it) \<in> set (lk_items lock)" for i it
    using group_members [OF _ assms(4)] assms(5) that by blast
  have bucket: "(g, k) \<in> set (server_buckets s p) \<longleftrightarrow> s \<in> set (split_on (CHR ''-'') g)"
    if "bucket_at p g k = Some xs" for g k xs
    using that by (force simp: mem_server_buckets bucket_at_def split: option.splits dest: map_of_SomeD)
  show ?thesis
  proof
    assume "i \<in> set ids"
    then obtain it where it: "(i, it) \<in> set (lk_items lock)" "s \<in> set (it_servers it)" using ids by blast
    obtain key where key: "bucket_key lock (the (map_of (lk_buckets lock) (group_of (it_servers it)))) i = Inr key"
      using item_has_key [OF assms(1) it(1)] by blast
    obtain xs where xs: "bucket_at p (group_of (it_servers it)) key = Some xs"
      using bucket_exists [OF assms(1) it(1) key] by blast
    with mem_bucket [OF assms(1,2) it(1) xs] key srv [OF it(1)] it(2) bucket [OF xs]
    show "\<exists>g k xs. (g, k) \<in> set (server_buckets s p) \<and> bucket_at p g k = Some xs \<and> i \<in> set xs" by blast
  next
    assume "\<exists>g k xs. (g, k) \<in> set (server_buckets s p) \<and> bucket_at p g k = Some xs \<and> i \<in> set xs"
    then obtain g k xs where b: "(g, k) \<in> set (server_buckets s p)" "bucket_at p g k = Some xs" "i \<in> set xs"
      by blast
    then have "i \<in> set (bucket_members lock g k)"
      using bucket_at_eq [OF assms(1), of g k] by (auto split: if_splits)
    then obtain it where it: "(i, it) \<in> set (lk_items lock)" "group_of (it_servers it) = g"
      by (auto simp: bucket_members_def)
    with srv [OF it(1)] bucket [OF b(2)] b(1) ids show "i \<in> set ids" by blast
  qed
qed

section \<open>Properties\<close>

definition solo_lock :: lock where
  "solo_lock = sample_lock \<lparr>lk_solo := Some 5\<rparr>"

definition solo_doc :: document where
  "solo_doc = ([([''FROM base''], ''workshop stages'', [''old'']), ([''FROM server''], ''workshop layers: main'', []),
      ([], ''workshop layers: test'', [])], [''CMD run''])"

definition solo_dir :: dir where
  "solo_dir = [(''Dockerfile'', doc_text solo_doc)]"

lemma sample_good: "good_dir solo_lock solo_doc solo_dir"
proof -
  have "plain_lock solo_lock" "good_doc solo_doc" "set (region_names solo_lock) \<subseteq> set (regions_of solo_doc)"
    by code_simp+
  then show ?thesis by (simp add: good_dir_def solo_dir_def DOCKERFILE_def)
qed

lemma sample_generated: "\<exists>regions acfs. generated solo_lock = Inr (regions, acfs)"
proof -
  have "\<not> isl (generated solo_lock)" by code_simp
  then show ?thesis by (cases "generated solo_lock") auto
qed

lemma sample_rendered: "\<exists>fs. rendered solo_lock solo_dir = Inr fs"
  using sample_generated rendered_eq [OF _ sample_good] by blast

text \<open>
  C18. Rendering touches nothing but its regions: in a Dockerfile made of plain
  lines and marked regions, the text \<open>render\<close> plans is the same document with
  the body of each generated region replaced by the generated lines; every plain
  line, every marker and every other region is what it was.
\<close>

theorem render_replaces_only_the_regions:
  assumes "good_dir lock (segs, tail) d" and "rendered lock d = Inr fs"
  shows "\<exists>regions acfs. generated lock = Inr (regions, acfs) \<and>
    map_of fs DOCKERFILE = Some (doc_text
      (map (\<lambda>(plain, r, body). (plain, r, case map_of regions r of None \<Rightarrow> body | Some ls \<Rightarrow> ls)) segs, tail))"
proof -
  obtain regions acfs where g: "generated lock = Inr (regions, acfs)"
    using assms(2) by (auto simp: rendered_def result_simps)
  have "distinct (map fst regions)" using generated_regions [OF g] distinct_region_names by simp
  then have "map_of (sort_key fst regions) = map_of regions" "distinct (map fst (sort_key fst regions))"
    by (auto intro: map_of_inject_set [THEN iffD2])
  then have "set_regions (sort_key fst regions) (segs, tail) =
      (map (\<lambda>(plain, r, body). (plain, r, case map_of regions r of None \<Rightarrow> body | Some ls \<Rightarrow> ls)) segs, tail)"
    by (simp add: set_regions_eq)
  moreover have "(DOCKERFILE, doc_text (set_regions (sort_key fst regions) (segs, tail))) \<in> set fs"
    using rendered_eq [OF g assms(1)] assms(2) by (simp only: sum.inject) (metis list.set_intros(1) set_sort)
  ultimately show ?thesis using g rendered_distinct [OF assms(2)] by simp
qed

theorem render_replaces_only_the_regions_witness:
  "\<exists>fs a b c. rendered solo_lock solo_dir = Inr fs \<and>
     map_of fs DOCKERFILE = Some (doc_text ([([''FROM base''], ''workshop stages'', a),
       ([''FROM server''], ''workshop layers: main'', b), ([], ''workshop layers: test'', c)], [''CMD run'']))"
proof -
  obtain fs where fs: "rendered solo_lock solo_dir = Inr fs" using sample_rendered by blast
  let ?segs = "[([''FROM base''], ''workshop stages'', [''old'']), ([''FROM server''], ''workshop layers: main'', []),
      ([], ''workshop layers: test'', [])]"
  have "good_dir solo_lock (?segs, [''CMD run'']) solo_dir" using sample_good by (simp add: solo_doc_def)
  from render_replaces_only_the_regions [OF this fs] obtain regions where
    "map_of fs DOCKERFILE = Some (doc_text
      (map (\<lambda>(plain, r, body). (plain, r, case map_of regions r of None \<Rightarrow> body | Some ls \<Rightarrow> ls)) ?segs, [''CMD run'']))"
    by blast
  with fs show ?thesis by auto
qed

text \<open>
  \<open>check\<close> accepts what \<open>render\<close> wrote, and a second \<open>render\<close> writes nothing:
  splicing the generated regions into a Dockerfile that holds them is a fixed
  point, which is what makes the committed file checkable.
\<close>

lemma check_accepts_render:
  assumes "good_dir lock doc d" and "render_lock lock d = Inr (d', written)"
  shows "check_lock lock d' = Inr () \<and> render_lock lock d' = Inr (d', [])"
  using check_after_render [OF assms] by blast

text \<open>
  C20. A server's image holds what its acf file says it holds: when no server
  name has a hyphen, the \<open>COPY\<close> lines of a server are exactly the buckets whose
  items its acf file lists as installed, nothing missing and nothing more.
\<close>

theorem layers_hold_what_the_acf_lists:
  assumes "partition_items lock = Inr p" and "distinct (map fst (lk_items lock))"
    and "acf_ids lock s = Inr ids" and "s \<noteq> []"
    and "\<forall>(i, it) \<in> set (lk_items lock). \<forall>x \<in> set (it_servers it). CHR ''-'' \<notin> set x"
  shows "dockerfile_layers s p = map (\<lambda>(g, k). layer_line g k) (server_buckets s p)
    \<and> (i \<in> set ids \<longleftrightarrow> (\<exists>g k xs. (g, k) \<in> set (server_buckets s p) \<and> bucket_at p g k = Some xs \<and> i \<in> set xs))"
  using layers_eq layers_hold_items [OF assms] by blast

theorem layers_hold_what_the_acf_lists_witness:
  "\<exists>p g k xs. partition_items sample_lock = Inr p \<and> (g, k) \<in> set (server_buckets ''test'' p)
     \<and> bucket_at p g k = Some xs \<and> ''102'' \<in> set xs"
proof -
  obtain p where p: "partition_items sample_lock = Inr p" using sample_partitions by blast
  have d: "distinct (map fst (lk_items sample_lock))"
    and n: "\<forall>(i, it) \<in> set (lk_items sample_lock). \<forall>x \<in> set (it_servers it). CHR ''-'' \<notin> set x"
    by (simp_all add: sample_lock_def sample_pin_def)
  have a: "acf_ids sample_lock ''test'' = Inr [''102'']" by code_simp
  from layers_hold_what_the_acf_lists [OF p d a _ n, of "''102''"] p show ?thesis by auto
qed

text \<open>
  A server whose name has a hyphen gets no layers at all: the name of a
  group is split at hyphens to find its servers, and no part of a split holds
  one, so the image is built without any of the items its acf file lists.
\<close>

lemma hyphenated_server_gets_no_layers:
  assumes "CHR ''-'' \<in> set server"
  shows "dockerfile_layers server p = []"
proof -
  have "server \<notin> set (split_on (CHR ''-'') grp)" for grp
    using assms split_on_parts [of server "CHR ''-''" grp] by blast
  then show ?thesis by (simp add: dockerfile_layers_def split_def)
qed

end
