(* ===== verification/Matching.thy ===== *)
theory Matching
  imports PyText
begin

text \<open>
  Regular expressions of the tools as matchers: a matcher takes a text and gives
  what it captured and the text after the match.  The expressions are of a shape
  where the greedy choice is the only one, so no matcher backtracks.
\<close>

section \<open>Pieces\<close>

definition expect :: "string \<Rightarrow> string \<Rightarrow> string option" where
  "expect lit s = (if prefix lit s then Some (drop (length lit) s) else None)"

definition take_digits :: "string \<Rightarrow> (string \<times> string) option" where
  "take_digits s =
     (let ds = takeWhile ascii_digit s in if ds = [] then None else Some (ds, drop (length ds) s))"

abbreviation squote :: char where "squote \<equiv> CHR 0x27"

text \<open>A run of other characters between two \<open>q\<close>s.\<close>

definition take_quoted :: "char \<Rightarrow> string \<Rightarrow> (string \<times> string) option" where
  "take_quoted q s =
     (case s of [] \<Rightarrow> None
      | c # cs \<Rightarrow>
          if c \<noteq> q then None
          else (case dropWhile (\<lambda>x. x \<noteq> q) cs of
                  [] \<Rightarrow> None
                | d # rest \<Rightarrow> Some (takeWhile (\<lambda>x. x \<noteq> q) cs, rest)))"

definition take_spaces :: "string \<Rightarrow> string option" where
  "take_spaces s = (if s \<noteq> [] \<and> py_isspace (hd s) then Some (dropWhile py_isspace s) else None)"

definition obind :: "'a option \<Rightarrow> ('a \<Rightarrow> 'b option) \<Rightarrow> 'b option" where
  "obind m f = (case m of None \<Rightarrow> None | Some x \<Rightarrow> f x)"

lemma obind_simps [simp]: "obind None f = None" "obind (Some x) f = f x"
  by (simp_all add: obind_def)

lemma obind_Some: "obind m f = Some y \<longleftrightarrow> (\<exists>x. m = Some x \<and> f x = Some y)"
  by (cases m) auto


text \<open>\<open>re.findall\<close> and \<open>re.search\<close>: matches from left to right, each starting
  after the last; none of the expressions matches an empty text.\<close>

function find_all :: "(string \<Rightarrow> ('a \<times> string) option) \<Rightarrow> string \<Rightarrow> 'a list" where
  "find_all m s =
     (case s of [] \<Rightarrow> []
      | c # cs \<Rightarrow>
          (case m s of
             None \<Rightarrow> find_all m cs
           | Some (g, rest) \<Rightarrow> if length rest < length s then g # find_all m rest else find_all m cs))"
  by pat_completeness auto
termination by (relation "measure (length \<circ> snd)") auto

declare find_all.simps [simp del]

fun find_first :: "(string \<Rightarrow> ('a \<times> string) option) \<Rightarrow> string \<Rightarrow> 'a option" where
  "find_first m [] = None"
| "find_first m (c # cs) =
     (case m (c # cs) of Some (g, rest) \<Rightarrow> Some g | None \<Rightarrow> find_first m cs)"

section \<open>What they match\<close>

lemma expect_shorter: "expect lit s = Some t \<Longrightarrow> lit \<noteq> [] \<Longrightarrow> length t < length s"
  by (auto simp: expect_def prefix_def split: if_splits)

lemma expect_le: "expect lit s = Some t \<Longrightarrow> length t \<le> length s"
  by (auto simp: expect_def split: if_splits)

lemma take_digits_le: "take_digits s = Some (d, t) \<Longrightarrow> length t \<le> length s"
  by (auto simp: take_digits_def Let_def split: if_splits)

lemma take_quoted_le: "take_quoted q s = Some (t, r) \<Longrightarrow> length r \<le> length s"
proof -
  assume "take_quoted q s = Some (t, r)"
  then obtain c cs x where "s = c # cs" "dropWhile (\<lambda>x. x \<noteq> q) cs = x # r"
    by (auto simp: take_quoted_def split: list.splits if_splits)
  with length_dropWhile_le [of "\<lambda>x. x \<noteq> q" cs] show ?thesis by simp
qed

lemma expect_append [simp]: "expect lit (lit @ s) = Some s"
  by (simp add: expect_def)

lemma expect_Cons [simp]: "expect [c] (c # s) = Some s" "c \<noteq> d \<Longrightarrow> expect [c] (d # s) = None"
  by (simp_all add: expect_def)

lemma take_digits_int_str [simp]:
  "0 \<le> n \<Longrightarrow> \<not> ascii_digit c \<Longrightarrow> take_digits (int_str n @ c # s) = Some (int_str n, c # s)"
  using digits_ok [of n] by (simp add: take_digits_def int_str_def takeWhile_append2 Let_def)

lemma take_quoted_run [simp]: "q \<notin> set t \<Longrightarrow> take_quoted q (q # t @ q # s) = Some (t, s)"
  by (simp add: take_quoted_def)

lemma take_quoted_other [simp]: "c \<noteq> q \<Longrightarrow> take_quoted q (c # s) = None"
  by (simp add: take_quoted_def)

lemma int_of_int_str [simp]: "0 \<le> n \<Longrightarrow> int_of_digits (int_str n) = n"
  using digits_ok [of n] by (simp add: int_str_def)

lemma not_digit [simp]: "\<not> ascii_digit (CHR '','')"
  by (simp add: ascii_digit_def digit_value_def)

lemma find_all_Nil [simp]: "find_all m [] = []"
  by (simp add: find_all.simps)

lemma find_all_skip: "m (c # s) = None \<Longrightarrow> find_all m (c # s) = find_all m s"
  by (subst find_all.simps) simp

lemma find_all_match: "m s = Some (g, t) \<Longrightarrow> length t < length s \<Longrightarrow> find_all m s = g # find_all m t"
  by (subst find_all.simps) (auto split: list.split)

lemma find_all_skips:
  assumes "\<And>c s. c \<in> set p \<Longrightarrow> m (c # s) = None"
  shows "find_all m (p @ s) = find_all m s"
  using assms by (induction p) (auto simp: find_all_skip)

end
