(* ===== verification/Json.thy ===== *)
theory Json
  imports Matching "HOL-Library.AList"
begin

text \<open>
  The JSON files of the tools: \<open>json.dump\<close> with an indent and \<open>json.load\<close>, as the
  standard library has them.  Numbers are integers: no file of the tools has a
  fraction, an exponent, an infinity or a NaN, and reading one fails here.  An
  escape of a code point above 255 is outside the model and fails as well.
\<close>

section \<open>Writing\<close>

datatype json =
    JNull
  | JBool bool
  | JInt int
  | JStr string
  | JList "json list"
  | JObj "(string \<times> json) list"

definition hex_digit :: "nat \<Rightarrow> char" where
  "hex_digit n = char_of (if n < 10 then 48 + n else 87 + n)"

abbreviation carriage :: char where "carriage \<equiv> CHR 0x0D"
abbreviation formfeed :: char where "formfeed \<equiv> CHR 0x0C"
abbreviation backspace :: char where "backspace \<equiv> CHR 0x08"

definition escape_char :: "char \<Rightarrow> string" where
  "escape_char c =
     (let n = of_char c :: nat
      in if c = dquote then [backslash, dquote]
         else if c = backslash then [backslash, backslash]
         else if c = newline then [backslash, CHR ''n'']
         else if c = carriage then [backslash, CHR ''r'']
         else if c = tab then [backslash, CHR ''t'']
         else if c = formfeed then [backslash, CHR ''f'']
         else if c = backspace then [backslash, CHR ''b'']
         else if 32 \<le> n \<and> n \<le> 126 then [c]
         else [backslash, CHR ''u'', CHR ''0'', CHR ''0'', hex_digit (n div 16), hex_digit (n mod 16)])"

definition json_str :: "string \<Rightarrow> string" where
  "json_str s = dquote # concat (map escape_char s) @ [dquote]"

text \<open>A new line, indented for a level.\<close>

definition pad :: "nat \<Rightarrow> nat \<Rightarrow> string" where
  "pad ind lvl = newline # replicate (ind * lvl) (CHR '' '')"

fun json_text :: "nat \<Rightarrow> nat \<Rightarrow> json \<Rightarrow> string"
  and json_elems :: "nat \<Rightarrow> nat \<Rightarrow> json list \<Rightarrow> string"
  and json_members :: "nat \<Rightarrow> nat \<Rightarrow> (string \<times> json) list \<Rightarrow> string" where
  "json_text ind lvl JNull = ''null''"
| "json_text ind lvl (JBool b) = (if b then ''true'' else ''false'')"
| "json_text ind lvl (JInt i) = int_str i"
| "json_text ind lvl (JStr s) = json_str s"
| "json_text ind lvl (JList vs) =
     (if vs = [] then ''[]''
      else ''['' @ pad ind (Suc lvl) @ json_elems ind (Suc lvl) vs @ pad ind lvl @ '']'')"
| "json_text ind lvl (JObj ms) =
     (if ms = [] then ''{}''
      else ''{'' @ pad ind (Suc lvl) @ json_members ind (Suc lvl) ms @ pad ind lvl @ ''}'')"
| "json_elems ind lvl [] = []"
| "json_elems ind lvl (v # vs) =
     json_text ind lvl v @ (if vs = [] then [] else '','' @ pad ind lvl @ json_elems ind lvl vs)"
| "json_members ind lvl [] = []"
| "json_members ind lvl ((k, v) # ms) =
     json_str k @ '': '' @ json_text ind lvl v
       @ (if ms = [] then [] else '','' @ pad ind lvl @ json_members ind lvl ms)"

text \<open>\<open>sort_keys=True\<close>\<close>

fun sort_keys :: "json \<Rightarrow> json" where
  "sort_keys (JList vs) = JList (map sort_keys vs)"
| "sort_keys (JObj ms) = JObj (sort_key fst (map (\<lambda>(k, v). (k, sort_keys v)) ms))"
| "sort_keys v = v"

section \<open>Reading\<close>

definition json_blank :: "char \<Rightarrow> bool" where
  "json_blank c \<longleftrightarrow> c \<in> {CHR '' '', tab, newline, carriage}"

definition skip_ws :: "string \<Rightarrow> string" where
  "skip_ws s = dropWhile json_blank s"

definition hex_value :: "char \<Rightarrow> nat option" where
  "hex_value c =
     (let n = of_char c :: nat
      in if 48 \<le> n \<and> n \<le> 57 then Some (n - 48)
         else if 97 \<le> n \<and> n \<le> 102 then Some (n - 87)
         else if 65 \<le> n \<and> n \<le> 70 then Some (n - 55) else None)"

definition simple_escape :: "char \<Rightarrow> char option" where
  "simple_escape c = map_of [(dquote, dquote), (backslash, backslash), (CHR ''/'', CHR ''/''),
     (CHR ''b'', backspace), (CHR ''f'', formfeed), (CHR ''n'', newline), (CHR ''r'', carriage), (CHR ''t'', tab)] c"

text \<open>What an escape stands for, after its backslash.\<close>

definition scan_u :: "string \<Rightarrow> (char \<times> string) option" where
  "scan_u s =
     (if length s < 4 then None
      else obind (hex_value (s ! 0)) (\<lambda>a. obind (hex_value (s ! 1)) (\<lambda>b.
           obind (hex_value (s ! 2)) (\<lambda>h. obind (hex_value (s ! 3)) (\<lambda>l.
             if a = 0 \<and> b = 0 then Some (char_of (16 * h + l), drop 4 s) else None)))))"

definition scan_escape :: "string \<Rightarrow> (char \<times> string) option" where
  "scan_escape s =
     (case s of
        [] \<Rightarrow> None
      | e # rest \<Rightarrow>
          if e = CHR ''u'' then scan_u rest else obind (simple_escape e) (\<lambda>x. Some (x, rest)))"

text \<open>
  The rest of a string, after its opening quote.  Here and below the test of the
  lengths always holds (\<open>scan_escape_le\<close>, \<open>parse_shorter\<close>); it is what makes the
  functions total.
\<close>

function scan_string :: "string \<Rightarrow> (string \<times> string) option" where
  "scan_string s =
     (case s of
        [] \<Rightarrow> None
      | c # cs \<Rightarrow>
          if c = dquote then Some ([], cs)
          else if c = backslash
          then (case scan_escape cs of
                  None \<Rightarrow> None
                | Some (x, rest) \<Rightarrow>
                    if length rest \<le> length cs then map_option (\<lambda>(t, r). (x # t, r)) (scan_string rest) else None)
          else if of_char c < (32 :: nat) then None
          else map_option (\<lambda>(t, r). (c # t, r)) (scan_string cs))"
  by pat_completeness auto
termination by (relation "measure length") auto

declare scan_string.simps [simp del]

text \<open>An integer: an optional sign, then zero alone or digits that do not start with zero.\<close>

definition scan_nat :: "string \<Rightarrow> (int \<times> string) option" where
  "scan_nat s =
     (case s of
        [] \<Rightarrow> None
      | c # rest \<Rightarrow>
          if c = CHR ''0'' then Some (0, rest)
          else obind (take_digits s) (\<lambda>(ds, rest). Some (int_of_digits ds, rest)))"

definition scan_int :: "string \<Rightarrow> (int \<times> string) option" where
  "scan_int s =
     (case s of
        [] \<Rightarrow> None
      | c # rest \<Rightarrow>
          if c = CHR ''-'' then obind (scan_nat rest) (\<lambda>(n, r). Some (- n, r)) else scan_nat s)"

text \<open>\<open>dict(pairs)\<close>, in insertion order.\<close>

definition dict_of :: "(string \<times> 'a) list \<Rightarrow> (string \<times> 'a) list" where
  "dict_of ps = foldl (\<lambda>d (k, v). AList.update k v d) [] ps"

text \<open>
  Values, the elements of a list after its bracket, and the members of an object
  after its brace.
\<close>

function (sequential) parse_value :: "string \<Rightarrow> (json \<times> string) option"
  and parse_elems :: "string \<Rightarrow> (json list \<times> string) option"
  and parse_members :: "string \<Rightarrow> ((string \<times> json) list \<times> string) option" where
  "parse_value [] = None"
| "parse_value (c # cs) =
     (if c = dquote then map_option (\<lambda>(t, r). (JStr t, r)) (scan_string cs)
      else if c = CHR ''{''
      then (case skip_ws cs of
              [] \<Rightarrow> None
            | d # ds \<Rightarrow>
                if d = CHR ''}'' then Some (JObj [], ds)
                else if length (d # ds) \<le> length cs
                then map_option (\<lambda>(ms, r). (JObj (dict_of ms), r)) (parse_members (d # ds)) else None)
      else if c = CHR ''[''
      then (case skip_ws cs of
              [] \<Rightarrow> None
            | d # ds \<Rightarrow>
                if d = CHR '']'' then Some (JList [], ds)
                else if length (d # ds) \<le> length cs
                then map_option (\<lambda>(vs, r). (JList vs, r)) (parse_elems (d # ds)) else None)
      else if prefix ''null'' (c # cs) then Some (JNull, drop 3 cs)
      else if prefix ''true'' (c # cs) then Some (JBool True, drop 3 cs)
      else if prefix ''false'' (c # cs) then Some (JBool False, drop 4 cs)
      else map_option (\<lambda>(n, r). (JInt n, r)) (scan_int (c # cs)))"
| "parse_elems s =
     (case parse_value s of
        None \<Rightarrow> None
      | Some (v, r) \<Rightarrow>
          (case skip_ws r of
             [] \<Rightarrow> None
           | d # ds \<Rightarrow>
               if d = CHR '']'' then Some ([v], ds)
               else if d = CHR '','' \<and> length (skip_ws ds) < length s
               then map_option (\<lambda>(vs, r). (v # vs, r)) (parse_elems (skip_ws ds))
               else None))"
| "parse_members s =
     (case s of
        [] \<Rightarrow> None
      | q # cs \<Rightarrow>
          if q \<noteq> dquote then None
          else (case scan_string cs of
                  None \<Rightarrow> None
                | Some (k, r) \<Rightarrow>
                    (case skip_ws r of
                       [] \<Rightarrow> None
                     | d # ds \<Rightarrow>
                         if d \<noteq> CHR '':'' \<or> \<not> length (skip_ws ds) < length s then None
                         else (case parse_value (skip_ws ds) of
                                 None \<Rightarrow> None
                               | Some (v, r) \<Rightarrow>
                                   (case skip_ws r of
                                      [] \<Rightarrow> None
                                    | e # es \<Rightarrow>
                                        if e = CHR ''}'' then Some ([(k, v)], es)
                                        else if e = CHR '','' \<and> length (skip_ws es) < length s
                                        then map_option (\<lambda>(ms, r). ((k, v) # ms, r)) (parse_members (skip_ws es))
                                        else None)))))"
  by pat_completeness auto
termination
  by (relation "measure (\<lambda>x. case x of Inl s \<Rightarrow> 2 * length s | Inr (Inl s) \<Rightarrow> 2 * length s + 1
        | Inr (Inr s) \<Rightarrow> 2 * length s + 1)") auto

declare parse_value.simps [simp del] parse_elems.simps [simp del] parse_members.simps [simp del]

definition json_load :: "string \<Rightarrow> json option" where
  "json_load t =
     (case parse_value (skip_ws t) of
        None \<Rightarrow> None
      | Some (v, r) \<Rightarrow> if skip_ws r = [] then Some v else None)"

section \<open>Parsing consumes its input\<close>

lemma skip_ws_le: "length (skip_ws s) \<le> length s"
  by (simp add: skip_ws_def length_dropWhile_le)

lemma scan_escape_le: "scan_escape s = Some (x, r) \<Longrightarrow> length r \<le> length s"
  by (auto simp: scan_escape_def scan_u_def obind_Some split: list.splits if_splits)

lemma scan_string_shorter: "scan_string s = Some (t, r) \<Longrightarrow> length r < length s"
proof (induction s arbitrary: t rule: length_induct)
  case (1 s)
  then have IH: "\<And>y t. length y < length s \<Longrightarrow> scan_string y = Some (t, r) \<Longrightarrow> length r < length s"
    by (meson less_trans)
  show ?case
  proof (cases s)
    case Nil
    with 1(2) show ?thesis by (simp add: scan_string.simps)
  next
    case (Cons c cs)
    with 1(2) consider "r = cs" | y u where "length y \<le> length cs" "scan_string y = Some (u, r)"
      by (subst (asm) scan_string.simps) (auto split: option.splits if_splits)
    then show ?thesis
    proof cases
      case 2
      then show ?thesis using IH [of y u] by (simp add: Cons)
    qed (simp add: Cons)
  qed
qed

lemma take_digits_shorter: "take_digits s = Some (ds, r) \<Longrightarrow> length r < length s"
  by (cases s) (auto simp: take_digits_def Let_def split: if_splits)

lemma scan_nat_shorter: "scan_nat s = Some (n, r) \<Longrightarrow> length r < length s"
proof (cases s)
  case (Cons c cs)
  moreover assume "scan_nat s = Some (n, r)"
  ultimately show ?thesis
    by (cases "c = CHR ''0''") (auto simp: scan_nat_def obind_Some dest: take_digits_shorter)
qed (simp add: scan_nat_def)

lemma scan_int_shorter: "scan_int s = Some (n, r) \<Longrightarrow> length r < length s"
  by (cases s) (auto simp: scan_int_def obind_Some dest: scan_nat_shorter split: if_splits)

lemma parse_valueD:
  "parse_value (c # cs) = Some (v, r) \<Longrightarrow>
     (\<exists>t. scan_string cs = Some (t, r)) \<or> (\<exists>k. r = drop k cs) \<or> (\<exists>n. scan_int (c # cs) = Some (n, r)) \<or>
     (\<exists>d ds. skip_ws cs = d # ds \<and>
        (r = ds \<or> (\<exists>ms. parse_members (d # ds) = Some (ms, r)) \<or> (\<exists>vs. parse_elems (d # ds) = Some (vs, r))))"
  unfolding parse_value.simps by (auto split: if_split_asm list.split_asm simp del: prefix_code)

lemma parse_elemsD:
  "parse_elems s = Some (vs, r) \<Longrightarrow>
     \<exists>v r1 d ds. parse_value s = Some (v, r1) \<and> skip_ws r1 = d # ds \<and>
       (r = ds \<or> length (skip_ws ds) < length s \<and> (\<exists>vs. parse_elems (skip_ws ds) = Some (vs, r)))"
  by (subst (asm) parse_elems.simps) (auto split: option.split_asm list.split_asm if_split_asm)

lemma parse_membersD:
  "parse_members s = Some (ms, r) \<Longrightarrow>
     \<exists>ds v r1 e es. length (skip_ws ds) < length s \<and> parse_value (skip_ws ds) = Some (v, r1) \<and> skip_ws r1 = e # es \<and>
       (r = es \<or> length (skip_ws es) < length s \<and> (\<exists>ms. parse_members (skip_ws es) = Some (ms, r)))"
  by (subst (asm) parse_members.simps) (auto split: option.split_asm list.split_asm if_split_asm, blast+)

lemma parse_shorter:
  shows "parse_value s = Some (v, r) \<Longrightarrow> length r < length s"
    and "parse_elems s = Some (vs, r) \<Longrightarrow> length r < length s"
    and "parse_members s = Some (ms, r) \<Longrightarrow> length r < length s"
proof (induction "length s" arbitrary: s v vs ms r rule: less_induct)
  case less
  have val_ok: "length r < length s" if "parse_value s = Some (v, r)" for v r
  proof (cases s)
    case Nil
    with that show ?thesis by (simp add: parse_value.simps)
  next
    case (Cons c cs)
    have rec: "length r < length (d # ds)" if "skip_ws cs = d # ds"
      "parse_members (d # ds) = Some (ms, r) \<or> parse_elems (d # ds) = Some (vs, r)" for d ds ms vs
      using less(2,3) [of "d # ds"] that skip_ws_le [of cs] by (auto simp: Cons)
    from parse_valueD [OF that [unfolded Cons]] show ?thesis
    proof (elim disjE exE conjE)
      fix d ds
      assume "skip_ws cs = d # ds" "r = ds"
      with skip_ws_le [of cs] show ?thesis by (simp add: Cons)
    next
      fix d ds ms
      assume "skip_ws cs = d # ds" "parse_members (d # ds) = Some (ms, r)"
      with rec skip_ws_le [of cs] show ?thesis by (fastforce simp: Cons)
    next
      fix d ds vs
      assume "skip_ws cs = d # ds" "parse_elems (d # ds) = Some (vs, r)"
      with rec skip_ws_le [of cs] show ?thesis by (fastforce simp: Cons)
    qed (auto simp: Cons dest: scan_string_shorter scan_int_shorter)
  qed
  {
    case 1
    then show ?case by (rule val_ok)
  next
    case 2
    from parse_elemsD [OF this] obtain v r1 d ds where e: "parse_value s = Some (v, r1)" "skip_ws r1 = d # ds"
      "r = ds \<or> length (skip_ws ds) < length s \<and> (\<exists>vs. parse_elems (skip_ws ds) = Some (vs, r))"
      by (elim exE conjE) (rule that)
    have "length ds < length s" using val_ok [OF e(1)] skip_ws_le [of r1] e(2) by simp
    moreover have "length r < length (skip_ws ds)" if "r \<noteq> ds"
      using e(3) that less(2) [of "skip_ws ds"] by blast
    ultimately show ?case using skip_ws_le [of ds] by (cases "r = ds") auto
  next
    case 3
    from parse_membersD [OF this] obtain ds v r1 e es where
      m: "length (skip_ws ds) < length s" "parse_value (skip_ws ds) = Some (v, r1)"
      "skip_ws r1 = e # es" "r = es \<or> length (skip_ws es) < length s \<and> (\<exists>ms. parse_members (skip_ws es) = Some (ms, r))"
      by (elim exE conjE) (rule that)
    have "length es < length s" using less(1) [OF m(1,2)] m(1,3) skip_ws_le [of r1] by simp
    moreover have "length r < length (skip_ws es)" if "r \<noteq> es"
      using m(4) that less(3) [of "skip_ws es"] by blast
    ultimately show ?case using skip_ws_le [of es] by (cases "r = es") auto
  }
qed

section \<open>Reading what was written\<close>

lemma hex_value_digit: "n < 16 \<Longrightarrow> hex_value (hex_digit n) = Some n"
proof -
  assume "n < 16"
  moreover have "(of_char (char_of m :: char) :: nat) = m" if "m < 256" for m using that by simp
  ultimately show ?thesis by (simp add: hex_value_def hex_digit_def Let_def)
qed

lemma scan_u_hex: "scan_u (CHR ''0'' # CHR ''0'' # hex_digit (of_char c div 16) # hex_digit (of_char c mod 16) # s) = Some (c, s)"
proof -
  have "(of_char c :: nat) < 16 * 16" by simp
  then have "(of_char c :: nat) div 16 < 16" by (simp only: div_less_iff_less_mult)
  then have "hex_value (hex_digit (of_char c div 16)) = Some (of_char c div 16)"
    "hex_value (hex_digit (of_char c mod 16)) = Some (of_char c mod 16)"
    by (simp_all add: hex_value_digit)
  moreover have "hex_value (CHR ''0'') = Some 0" by code_simp
  moreover have "char_of (16 * (of_char c div 16) + of_char c mod 16 :: nat) = c" by simp
  ultimately show ?thesis by (simp only: scan_u_def) simp
qed

lemma scan_quote: "scan_string (dquote # s) = Some ([], s)"
  by (subst scan_string.simps) simp

lemma scan_backslash:
  "scan_escape cs = Some (x, r) \<Longrightarrow> scan_string (backslash # cs) = map_option (\<lambda>(t, r). (x # t, r)) (scan_string r)"
  by (subst scan_string.simps) (simp add: scan_escape_le)

lemma scan_plain:
  "c \<noteq> dquote \<Longrightarrow> c \<noteq> backslash \<Longrightarrow> 32 \<le> (of_char c :: nat) \<Longrightarrow>
     scan_string (c # cs) = map_option (\<lambda>(t, r). (c # t, r)) (scan_string cs)"
  by (subst scan_string.simps) simp

lemma short_escapes:
  assumes "c \<in> set [dquote, backslash, newline, carriage, tab, formfeed, backspace]"
  shows "\<exists>e. escape_char c = [backslash, e] \<and> e \<noteq> CHR ''u'' \<and> simple_escape e = Some c"
proof -
  have "list_all (\<lambda>c. case escape_char c of [b, e] \<Rightarrow> b = backslash \<and> e \<noteq> CHR ''u'' \<and> simple_escape e = Some c | _ \<Rightarrow> False)
      [dquote, backslash, newline, carriage, tab, formfeed, backspace]"
    by code_simp
  with assms have "case escape_char c of [b, e] \<Rightarrow> b = backslash \<and> e \<noteq> CHR ''u'' \<and> simple_escape e = Some c | _ \<Rightarrow> False"
    unfolding list_all_iff by blast
  then show ?thesis by (auto split: list.splits)
qed

lemma scan_escaped:
  "scan_string (escape_char c @ s) = map_option (\<lambda>(t, r). (c # t, r)) (scan_string s)"
proof (cases "c \<in> set [dquote, backslash, newline, carriage, tab, formfeed, backspace]")
  case True
  from short_escapes [OF this] obtain e where
    "escape_char c = [backslash, e]" "scan_escape (e # s) = Some (c, s)"
    by (auto simp: scan_escape_def)
  then show ?thesis by (simp add: scan_backslash)
next
  case False
  show ?thesis
  proof (cases "32 \<le> (of_char c :: nat) \<and> of_char c \<le> (126 :: nat)")
    case True
    with False have "escape_char c = [c]" by (simp add: escape_char_def)
    with True False show ?thesis by (simp add: scan_plain)
  next
    case ctrl: False
    then have "escape_char c = [backslash, CHR ''u'', CHR ''0'', CHR ''0'', hex_digit (of_char c div 16), hex_digit (of_char c mod 16)]"
      using False by (auto simp: escape_char_def Let_def)
    then show ?thesis using scan_u_hex [of c s] by (simp add: scan_backslash scan_escape_def)
  qed
qed

lemma scan_json_str: "scan_string (concat (map escape_char s) @ dquote # rest) = Some (s, rest)"
  by (induction s) (simp_all add: scan_escaped scan_quote)

text \<open>What may follow a number: nothing that would carry it on.\<close>

definition stops :: "string \<Rightarrow> bool" where
  "stops rest \<longleftrightarrow> (case rest of [] \<Rightarrow> True | c # cs \<Rightarrow> \<not> ascii_digit c)"

lemma digits_head:
  "0 < n \<Longrightarrow> \<exists>d ds. digits n = digit_char d # ds \<and> 1 \<le> d \<and> d \<le> 9"
proof (induction n rule: digits.induct)
  case (1 n)
  show ?case
  proof (cases "n < 10")
    case True
    with 1(2) show ?thesis by (subst digits.simps) auto
  next
    case False
    then have "0 < n div 10" by simp
    with 1(1) False obtain d ds where "digits (n div 10) = digit_char d # ds" "1 \<le> d" "d \<le> 9" by auto
    with False show ?thesis by (subst digits.simps) auto
  qed
qed

lemma take_digits_stops:
  "0 \<le> n \<Longrightarrow> stops rest \<Longrightarrow> take_digits (digits n @ rest) = Some (digits n, rest)"
  using digits_ok [of n]
  by (cases rest) (simp_all add: take_digits_def takeWhile_append2 takeWhile_eq_all_conv [THEN iffD2] Let_def stops_def)

lemma digit_char_not: "1 \<le> d \<Longrightarrow> d \<le> 9 \<Longrightarrow> digit_char d \<noteq> CHR ''0'' \<and> digit_char d \<noteq> CHR ''-''"
  using digit_char_value [of d] by (auto simp: digit_value_def)

lemma scan_nat_digits:
  assumes "0 \<le> n" and "stops rest"
  shows "scan_nat (digits n @ rest) = Some (n, rest)"
proof (cases "n = 0")
  case True
  have "digits 0 = ''0''" by code_simp
  with True show ?thesis by (simp add: scan_nat_def)
next
  case False
  with assms(1) obtain d ds where d: "digits n = digit_char d # ds" "1 \<le> d" "d \<le> 9"
    using digits_head [of n] by auto
  have "scan_nat (digits n @ rest) = obind (take_digits (digits n @ rest)) (\<lambda>(ds, rest). Some (int_of_digits ds, rest))"
    using digit_char_not [OF d(2,3)] unfolding d(1) by (simp add: scan_nat_def)
  with take_digits_stops [OF assms] digits_ok [OF assms(1)] show ?thesis by simp
qed

lemma scan_int_str:
  assumes "stops rest"
  shows "scan_int (int_str n @ rest) = Some (n, rest)"
proof (cases "n < 0")
  case True
  with scan_nat_digits [OF _ assms, of "- n"] show ?thesis by (simp add: scan_int_def int_str_def)
next
  case False
  have "\<exists>c cs. digits n = c # cs \<and> c \<noteq> CHR ''-''"
  proof (cases "n = 0")
    case True
    have "digits 0 = ''0''" by code_simp
    with True show ?thesis by simp
  next
    case n: False
    with False digits_head [of n] digit_char_not show ?thesis by fastforce
  qed
  with False scan_nat_digits [OF _ assms, of n] show ?thesis by (auto simp: scan_int_def int_str_def)
qed

text \<open>Values as Python has them: the keys of an object are distinct.\<close>

fun good_json :: "json \<Rightarrow> bool" where
  "good_json (JList vs) \<longleftrightarrow> (\<forall>v \<in> set vs. good_json v)"
| "good_json (JObj ms) \<longleftrightarrow> distinct (map fst ms) \<and> (\<forall>(k, v) \<in> set ms. good_json v)"
| "good_json _ \<longleftrightarrow> True"

lemma dict_of_distinct: "distinct (map fst ps) \<Longrightarrow> dict_of ps = ps"
proof (induction ps rule: rev_induct)
  case Nil
  then show ?case by (simp add: dict_of_def)
next
  case (snoc p ps)
  have new: "k \<notin> fst ` set d \<Longrightarrow> AList.update k v d = d @ [(k, v)]" for k d and v :: 'a
    by (induction d) auto
  obtain k v where p: "p = (k, v)" by (cases p)
  have "dict_of (ps @ [p]) = AList.update k v (dict_of ps)" by (simp add: dict_of_def p)
  with snoc p new [of k ps v] show ?case by simp
qed

lemma skip_pad [simp]: "skip_ws (pad ind lvl @ s) = skip_ws s"
proof -
  have "dropWhile json_blank (replicate n (CHR '' '') @ s) = dropWhile json_blank s" for n
    by (induction n) (simp_all add: json_blank_def)
  then show ?thesis by (simp add: skip_ws_def pad_def json_blank_def)
qed

lemma skip_ws_Cons [simp]: "\<not> json_blank c \<Longrightarrow> skip_ws (c # s) = c # s"
  by (simp add: skip_ws_def)

lemma not_blank [simp]:
  "\<not> json_blank (CHR '','')" "\<not> json_blank (CHR '':'')" "\<not> json_blank (CHR '']'')" "\<not> json_blank (CHR ''}'')"
  "\<not> json_blank (CHR ''['')" "\<not> json_blank (CHR ''{'')" "\<not> json_blank dquote"
  by (simp_all add: json_blank_def)

lemma stops_simps [simp]:
  "stops []" "stops (pad ind lvl @ s)" "stops (CHR '','' # s)" "stops (CHR '']'' # s)" "stops (CHR ''}'' # s)"
  by (simp_all add: stops_def pad_def ascii_digit_def digit_value_def)

lemma int_str_head: "\<exists>c cs. int_str n = c # cs \<and> (c = CHR ''-'' \<or> ascii_digit c)"
proof -
  have "\<exists>c cs. digits m = c # cs \<and> ascii_digit c" if "0 \<le> m" for m
    using digits_ok [OF that] by (cases "digits m") auto
  from this [of n] show ?thesis by (auto simp: int_str_def)
qed

definition value_head :: "char \<Rightarrow> bool" where
  "value_head c \<longleftrightarrow> \<not> json_blank c \<and> c \<noteq> CHR '']'' \<and> c \<noteq> CHR ''}''"

lemma number_head: "c = CHR ''-'' \<or> ascii_digit c \<Longrightarrow>
    value_head c \<and> c \<noteq> dquote \<and> c \<noteq> CHR ''{'' \<and> c \<noteq> CHR ''['' \<and> c \<noteq> CHR ''n'' \<and> c \<noteq> CHR ''t'' \<and> c \<noteq> CHR ''f''"
  by (auto simp: value_head_def json_blank_def ascii_digit_def digit_value_def)

lemma text_head: "\<exists>c cs. json_text ind lvl v = c # cs \<and> value_head c"
proof (cases v)
  case (JInt n)
  with int_str_head [of n] number_head show ?thesis by fastforce
qed (auto simp: json_str_def value_head_def json_blank_def)

lemma skip_text [simp]: "skip_ws (json_text ind lvl v @ s) = json_text ind lvl v @ s"
  using text_head [of ind lvl v] by (auto simp: value_head_def)

lemma skip_elems: "vs \<noteq> [] \<Longrightarrow> skip_ws (json_elems ind lvl vs @ s) = json_elems ind lvl vs @ s"
  by (cases vs) simp_all

lemma skip_members: "ms \<noteq> [] \<Longrightarrow> skip_ws (json_members ind lvl ms @ s) = json_members ind lvl ms @ s"
  by (cases ms rule: list.exhaust [case_product prod.exhaust]) (auto simp: json_str_def)

lemma parse_elems_text:
  assumes "\<And>v rest lvl. v \<in> set vs \<Longrightarrow> stops rest \<Longrightarrow> parse_value (json_text ind lvl v @ rest) = Some (v, rest)"
    and "vs \<noteq> []"
  shows "parse_elems (json_elems ind lvl vs @ pad ind l @ CHR '']'' # rest) = Some (vs, rest)"
  using assms
proof (induction vs)
  case (Cons v vs)
  show ?case
  proof (cases "vs = []")
    case True
    with Cons.prems(1) [of v] show ?thesis by (subst parse_elems.simps) simp
  next
    case False
    with Cons have "parse_elems (json_elems ind lvl vs @ pad ind l @ CHR '']'' # rest) = Some (vs, rest)" by simp
    with False Cons.prems(1) [of v] show ?thesis
      by (subst parse_elems.simps) (simp add: skip_elems)
  qed
qed simp

lemma parse_members_text:
  assumes "\<And>k v rest lvl. (k, v) \<in> set ms \<Longrightarrow> stops rest \<Longrightarrow> parse_value (json_text ind lvl v @ rest) = Some (v, rest)"
    and "ms \<noteq> []"
  shows "parse_members (json_members ind lvl ms @ pad ind l @ CHR ''}'' # rest) = Some (ms, rest)"
  using assms
proof (induction ms)
  case (Cons m ms)
  obtain k v where m: "m = (k, v)" by (cases m)
  have sp: "skip_ws (CHR '' '' # s) = skip_ws s" for s by (simp add: skip_ws_def json_blank_def)
  show ?case
  proof (cases "ms = []")
    case True
    with Cons.prems(1) [of k v] show ?thesis
      by (subst parse_members.simps) (simp add: m json_str_def scan_json_str sp)
  next
    case False
    have "parse_members (json_members ind lvl ms @ pad ind l @ CHR ''}'' # rest) = Some (ms, rest)"
      using Cons.prems(1) False by (intro Cons.IH) auto
    with False Cons.prems(1) [of k v] show ?thesis
      by (subst parse_members.simps) (simp add: m json_str_def scan_json_str sp skip_members)
  qed
qed simp

lemma parse_list:
  assumes "skip_ws cs = d # ds" and "d \<noteq> CHR '']''" and "parse_elems (d # ds) = Some (vs, r)"
  shows "parse_value (CHR ''['' # cs) = Some (JList vs, r)"
  using assms skip_ws_le [of cs] by (simp add: parse_value.simps)

lemma parse_object:
  assumes "skip_ws cs = d # ds" and "d \<noteq> CHR ''}''" and "parse_members (d # ds) = Some (ms, r)"
  shows "parse_value (CHR ''{'' # cs) = Some (JObj (dict_of ms), r)"
  using assms skip_ws_le [of cs] by (simp add: parse_value.simps)

lemma parse_number:
  assumes "c = CHR ''-'' \<or> ascii_digit c"
  shows "parse_value (c # cs) = map_option (\<lambda>(n, r). (JInt n, r)) (scan_int (c # cs))"
  using number_head [OF assms] by (auto simp: parse_value.simps)

lemma parse_text_value:
  "good_json v \<Longrightarrow> stops rest \<Longrightarrow> parse_value (json_text ind lvl v @ rest) = Some (v, rest)"
proof (induction v arbitrary: lvl rest)
  case (JInt n)
  obtain c cs where c: "int_str n = c # cs" "c = CHR ''-'' \<or> ascii_digit c" using int_str_head by blast
  show ?case using parse_number [OF c(2), of "cs @ rest"] scan_int_str [OF JInt(2), of n] by (simp add: c(1))
next
  case (JStr s)
  show ?case by (simp add: json_str_def parse_value.simps scan_json_str)
next
  case (JList vs)
  show ?case
  proof (cases vs)
    case Nil
    then show ?thesis by (simp add: parse_value.simps)
  next
    case (Cons v vs')
    let ?t = "json_elems ind (Suc lvl) vs @ pad ind lvl @ CHR '']'' # rest"
    obtain c cs where h: "json_text ind (Suc lvl) v = c # cs" "value_head c" using text_head by blast
    then obtain cs' where t: "?t = c # cs'" by (simp add: Cons)
    have "parse_elems ?t = Some (vs, rest)"
      using JList by (intro parse_elems_text) (auto simp: Cons)
    then have "parse_value (CHR ''['' # pad ind (Suc lvl) @ ?t) = Some (JList vs, rest)"
      using h(2) unfolding t by (intro parse_list [of _ c cs']) (auto simp: value_head_def)
    then show ?thesis by (simp add: Cons)
  qed
next
  case (JObj ms)
  show ?case
  proof (cases ms)
    case Nil
    then show ?thesis by (simp add: parse_value.simps)
  next
    case (Cons m ms')
    let ?t = "json_members ind (Suc lvl) ms @ pad ind lvl @ CHR ''}'' # rest"
    obtain cs' where t: "?t = dquote # cs'" by (cases m) (simp add: Cons json_str_def)
    have "parse_members ?t = Some (ms, rest)"
    proof (rule parse_members_text)
      fix k v rest lvl
      assume "(k, v) \<in> set ms" "stops rest"
      with JObj show "parse_value (json_text ind lvl v @ rest) = Some (v, rest)" by force
    qed (simp add: Cons)
    then have "parse_value (CHR ''{'' # pad ind (Suc lvl) @ ?t) = Some (JObj (dict_of ms), rest)"
      unfolding t by (intro parse_object [of _ dquote cs']) auto
    moreover have "dict_of ms = ms" using JObj.prems(1) by (simp add: dict_of_distinct)
    ultimately show ?thesis by (simp add: Cons)
  qed
qed (simp_all add: parse_value.simps)

text \<open>What was written, with a line end after it or without, is read back.\<close>

lemma json_load_text:
  "good_json v \<Longrightarrow> json_load (json_text ind 0 v @ [newline]) = Some v"
  "good_json v \<Longrightarrow> json_load (json_text ind 0 v) = Some v"
proof -
  have "stops [newline]" by (simp add: stops_def ascii_digit_def digit_value_def)
  moreover have "skip_ws [newline] = []" "skip_ws [] = []" by (simp_all add: skip_ws_def json_blank_def)
  ultimately show "good_json v \<Longrightarrow> json_load (json_text ind 0 v @ [newline]) = Some v"
    "good_json v \<Longrightarrow> json_load (json_text ind 0 v) = Some v"
    using parse_text_value [of v "[newline]" ind 0] parse_text_value [of v "[]" ind 0] skip_text [of ind 0 v "[]"]
    by (simp_all add: json_load_def)
qed

section \<open>What is read is well formed\<close>

text \<open>An object that was read is a dictionary, whatever keys its text repeats.\<close>

lemma update_entry: "p \<in> set (AList.update k v d) \<Longrightarrow> p = (k, v) \<or> p \<in> set d"
  by (induction d) (auto split: if_splits)

lemma dict_of_wf:
  shows "distinct (map fst (dict_of ps))" and "set (dict_of ps) \<subseteq> set ps"
proof -
  have "distinct (map fst (dict_of ps)) \<and> set (dict_of ps) \<subseteq> set ps"
  proof (induction ps rule: rev_induct)
    case (snoc p ps)
    have "dict_of (ps @ [p]) = AList.update (fst p) (snd p) (dict_of ps)" by (simp add: dict_of_def split_def)
    with snoc show ?case by (auto simp: distinct_update dest: update_entry)
  qed (simp add: dict_of_def)
  then show "distinct (map fst (dict_of ps))" "set (dict_of ps) \<subseteq> set ps" by blast+
qed

lemma good_dict: "\<forall>(k, v) \<in> set ms. good_json v \<Longrightarrow> good_json (JObj (dict_of ms))"
  using dict_of_wf [of ms] by auto

lemma parse_good:
  shows "parse_value s = Some (v, r) \<Longrightarrow> good_json v"
    and "parse_elems s = Some (vs, r) \<Longrightarrow> \<forall>v \<in> set vs. good_json v"
    and "parse_members s = Some (ms, r) \<Longrightarrow> \<forall>(k, v) \<in> set ms. good_json v"
proof (induction s and s and s arbitrary: v r and vs r and ms r rule: parse_value_parse_elems_parse_members.induct)
  case 1
  then show ?case by (simp add: parse_value.simps)
next
  case (2 c cs)
  show ?case
  proof (cases "c = CHR ''{'' \<or> c = CHR ''[''")
    case False
    with "2.prems" show ?thesis
      unfolding parse_value.simps by (auto split: if_split_asm simp del: prefix_code)
  next
    case True
    then have q: "c \<noteq> dquote" by auto
    from True "2.prems" obtain d ds where w: "skip_ws cs = d # ds"
      unfolding parse_value.simps by (auto split: list.split_asm)
    from True "2.prems" w q consider "v = JObj [] \<or> v = JList []"
      | ms where "c = CHR ''{''" "d \<noteq> CHR ''}''" "length (d # ds) \<le> length cs" "parse_members (d # ds) = Some (ms, r)" "v = JObj (dict_of ms)"
      | vs where "c = CHR ''[''" "d \<noteq> CHR '']''" "length (d # ds) \<le> length cs" "parse_elems (d # ds) = Some (vs, r)" "v = JList vs"
      unfolding parse_value.simps by (auto split: if_split_asm simp del: prefix_code)
    then show ?thesis
    proof cases
      case (2 ms)
      from "2.IH"(1) [OF q 2(1) w 2(2,3,4)] 2(5) show ?thesis by (simp add: good_dict del: good_json.simps(2))
    next
      case (3 vs)
      then have "c \<noteq> CHR ''{''" by simp
      from "2.IH"(2) [OF q this 3(1) w 3(2,3,4)] 3(5) show ?thesis by simp
    qed auto
  qed
next
  case (3 s)
  from "3.prems" obtain u r1 d ds where u: "parse_value s = Some (u, r1)" and w: "skip_ws r1 = d # ds"
    by (subst (asm) parse_elems.simps) (auto split: option.split_asm list.split_asm)
  from "3.prems" u w consider "vs = [u]"
    | us where "d \<noteq> CHR '']''" "d = CHR '','' \<and> length (skip_ws ds) < length s" "parse_elems (skip_ws ds) = Some (us, r)" "vs = u # us"
    by (subst (asm) parse_elems.simps) (auto split: if_split_asm)
  then show ?case
  proof cases
    case (2 us)
    from "3.IH"(2) [OF u refl w 2(1,2,3)] "3.IH"(1) [OF u] 2(4) show ?thesis by simp
  qed (use "3.IH"(1) [OF u] in simp)
next
  case (4 s)
  from "4.prems" obtain q cs k r1 d ds v r2 e es where q: "s = q # cs" "\<not> q \<noteq> dquote"
    and k: "scan_string cs = Some (k, r1)" and w: "skip_ws r1 = d # ds" "\<not> (d \<noteq> CHR '':'' \<or> \<not> length (skip_ws ds) < length s)"
    and v: "parse_value (skip_ws ds) = Some (v, r2)" and e: "skip_ws r2 = e # es"
    by (subst (asm) parse_members.simps) (auto split: option.split_asm list.split_asm if_split_asm)
  from "4.prems" q k w v e consider "ms = [(k, v)]"
    | ns where "e \<noteq> CHR ''}''" "e = CHR '','' \<and> length (skip_ws es) < length s" "parse_members (skip_ws es) = Some (ns, r)"
      "ms = (k, v) # ns"
    by (subst (asm) parse_members.simps) (auto split: if_split_asm)
  then show ?case
  proof cases
    case (2 ns)
    from "4.IH"(2) [OF q k refl w v refl e 2(1,2,3)] "4.IH"(1) [OF q k refl w v] 2(4) show ?thesis by simp
  qed (use "4.IH"(1) [OF q k refl w v] in simp)
qed

lemma json_load_good: "json_load t = Some v \<Longrightarrow> good_json v"
  by (auto simp: json_load_def split: option.split_asm if_split_asm dest: parse_good(1))

end
