(* ===== verification/LockFile.thy ===== *)
theory LockFile
  imports Json WorkshopLock
begin

text \<open>
  The file \<open>workshop.lock.json\<close>: the object \<open>refresh\<close> of
  \<open>tools/workshop/workshop_lock.py\<close> builds and \<open>write_lock\<close> dumps, and the lockfile
  that \<open>read_lock\<close> gets from the text.  A file that is no JSON, or whose fields are
  missing or of other types, is not read.
\<close>

section \<open>Writing\<close>

definition item_json :: "pinned \<Rightarrow> json" where
  "item_json it =
     JObj [(''title'', JStr (it_title it)), (''manifest'', JStr (it_manifest it)), (''size'', JInt (it_size it)),
           (''time_updated'', JInt (it_time it)), (''servers'', JList (map JStr (it_servers it)))]"

definition lock_json :: "lock \<Rightarrow> json" where
  "lock_json lock =
     JObj ([(''appid'', JInt 222880)]
       @ (case lk_solo lock of None \<Rightarrow> [] | Some n \<Rightarrow> [(''solo_bytes'', JInt n)])
       @ [(''buckets'', JObj (map (\<lambda>(g, n). (g, JInt n)) (lk_buckets lock))),
          (''items'', JObj (map (\<lambda>(i, it). (i, item_json it)) (lk_items lock)))])"

definition lock_text :: "lock \<Rightarrow> string" where
  "lock_text lock = json_text 2 0 (lock_json lock) @ [newline]"

section \<open>Reading\<close>

text \<open>A field of an object, as a value of the type the code takes it for.\<close>

definition obj_field :: "string \<Rightarrow> json \<Rightarrow> json option" where
  "obj_field k j = (case j of JObj ms \<Rightarrow> map_of ms k | _ \<Rightarrow> None)"

definition as_str :: "json \<Rightarrow> string option" where
  "as_str j = (case j of JStr s \<Rightarrow> Some s | _ \<Rightarrow> None)"

definition as_int :: "json \<Rightarrow> int option" where
  "as_int j = (case j of JInt n \<Rightarrow> Some n | _ \<Rightarrow> None)"

fun omap :: "('a \<Rightarrow> 'b option) \<Rightarrow> 'a list \<Rightarrow> 'b list option" where
  "omap f [] = Some []"
| "omap f (x # xs) = obind (f x) (\<lambda>y. obind (omap f xs) (\<lambda>ys. Some (y # ys)))"

definition as_list :: "(json \<Rightarrow> 'a option) \<Rightarrow> json \<Rightarrow> 'a list option" where
  "as_list f j = (case j of JList vs \<Rightarrow> omap f vs | _ \<Rightarrow> None)"

definition as_dict :: "(json \<Rightarrow> 'a option) \<Rightarrow> json \<Rightarrow> (string \<times> 'a) list option" where
  "as_dict f j =
     (case j of JObj ms \<Rightarrow> omap (\<lambda>(k, v). obind (f v) (\<lambda>x. Some (k, x))) ms | _ \<Rightarrow> None)"

definition json_item :: "json \<Rightarrow> pinned option" where
  "json_item j =
     obind (obind (obj_field ''title'' j) as_str) (\<lambda>title.
     obind (obind (obj_field ''manifest'' j) as_str) (\<lambda>manifest.
     obind (obind (obj_field ''size'' j) as_int) (\<lambda>sz.
     obind (obind (obj_field ''time_updated'' j) as_int) (\<lambda>updated.
     obind (obind (obj_field ''servers'' j) (as_list as_str)) (\<lambda>servers.
       Some \<lparr>it_title = title, it_manifest = manifest, it_size = sz, it_time = updated, it_servers = servers\<rparr>)))))"

text \<open>\<open>get\<close> of a field that may be absent, with a default.\<close>

definition json_lock :: "json \<Rightarrow> lock option" where
  "json_lock j =
     obind (case obj_field ''solo_bytes'' j of None \<Rightarrow> Some None | Some v \<Rightarrow> map_option Some (as_int v)) (\<lambda>solo.
     obind (case obj_field ''buckets'' j of None \<Rightarrow> Some [] | Some v \<Rightarrow> as_dict as_int v) (\<lambda>buckets.
     obind (obind (obj_field ''items'' j) (as_dict json_item)) (\<lambda>items.
       Some \<lparr>lk_solo = solo, lk_buckets = buckets, lk_items = items\<rparr>)))"

definition load_lock :: "string \<Rightarrow> lock option" where
  "load_lock t = obind (json_load t) json_lock"

section \<open>What is written is read back\<close>

lemma omap_map: "(\<And>x. x \<in> set xs \<Longrightarrow> f (g x) = Some (h x)) \<Longrightarrow> omap f (map g xs) = Some (map h xs)"
  by (induction xs) auto

lemma as_list_map: "(\<And>x. f (g x) = Some x) \<Longrightarrow> as_list f (JList (map g xs)) = Some xs"
  using omap_map [of xs f g id] by (simp add: as_list_def)

lemma as_dict_map: "(\<And>x. f (g x) = Some x) \<Longrightarrow> as_dict f (JObj (map (\<lambda>(k, x). (k, g x)) ps)) = Some ps"
  using omap_map [of ps "\<lambda>(k, v). obind (f v) (\<lambda>x. Some (k, x))" "\<lambda>(k, x). (k, g x)" id]
  by (simp add: as_dict_def split_def)

lemma as_simps [simp]: "as_str (JStr s) = Some s" "as_int (JInt n) = Some n"
  by (simp_all add: as_str_def as_int_def)

lemma json_item_json [simp]: "json_item (item_json it) = Some it"
  by (simp add: json_item_def item_json_def obj_field_def as_list_map)

lemma json_lock_json: "json_lock (lock_json lock) = Some lock"
  by (cases "lk_solo lock") (simp_all add: json_lock_def lock_json_def obj_field_def as_dict_map)

text \<open>A lockfile is a dictionary of dictionaries: its ids and its groups are distinct.\<close>

definition keyed_lock :: "lock \<Rightarrow> bool" where
  "keyed_lock lock \<longleftrightarrow> distinct (map fst (lk_items lock)) \<and> distinct (map fst (lk_buckets lock))"

lemma good_lock_json: "keyed_lock lock \<Longrightarrow> good_json (lock_json lock)"
proof -
  have m: "map fst (map (\<lambda>(k, x). (k, f x)) ps) = map fst ps" for f :: "'a \<Rightarrow> json" and ps :: "(string \<times> 'a) list"
    by (simp add: split_def comp_def)
  assume "keyed_lock lock"
  then show ?thesis
    unfolding lock_json_def keyed_lock_def by (cases "lk_solo lock") (auto simp: m item_json_def simp del: map_map)
qed

lemma load_lock_text: "keyed_lock lock \<Longrightarrow> load_lock (lock_text lock) = Some lock"
  by (simp add: load_lock_def lock_text_def json_load_text good_lock_json json_lock_json)

definition enc_lock :: "lock \<Rightarrow> unit + string" where
  "enc_lock lock = (if keyed_lock lock then Inr (lock_text lock) else Inl ())"

definition dec_lock :: "string \<Rightarrow> unit + lock" where
  "dec_lock t = (case load_lock t of None \<Rightarrow> Inl () | Some lock \<Rightarrow> Inr lock)"

interpretation lockfile: codec enc_lock dec_lock
  by unfold_locales (auto simp: enc_lock_def dec_lock_def load_lock_text split: if_splits)

text \<open>So the file tells lockfiles apart.\<close>

lemma lock_text_inj: "keyed_lock a \<Longrightarrow> keyed_lock b \<Longrightarrow> lock_text a = lock_text b \<Longrightarrow> a = b"
  using lockfile.enc_inj [of a _ b] by (simp add: enc_lock_def)

section \<open>What is read is keyed\<close>

lemma as_dict_keys: "as_dict f (JObj ms) = Some ps \<Longrightarrow> map fst ps = map fst ms"
proof (induction ms arbitrary: ps)
  case (Cons m ms)
  then show ?case
    by (cases m) (auto simp: as_dict_def obind_def split: option.split_asm)
qed (simp add: as_dict_def)

lemma obj_field_good: "good_json j \<Longrightarrow> obj_field k j = Some v \<Longrightarrow> good_json v"
  by (cases j) (auto simp: obj_field_def dest: map_of_SomeD)

lemma as_dict_distinct: "good_json j \<Longrightarrow> as_dict f j = Some ps \<Longrightarrow> distinct (map fst ps)"
proof -
  assume g: "good_json j" and a: "as_dict f j = Some ps"
  from a obtain ms where "j = JObj ms" by (cases j) (auto simp: as_dict_def)
  with g a as_dict_keys show ?thesis by fastforce
qed

lemma load_lock_keyed:
  assumes "load_lock t = Some lock"
  shows "keyed_lock lock"
proof -
  obtain j where j: "json_load t = Some j" and l: "json_lock j = Some lock"
    using assms by (auto simp: load_lock_def obind_def split: option.split_asm)
  have g: "good_json j" using j by (rule json_load_good)
  from l obtain v where "obj_field ''items'' j = Some v" "as_dict json_item v = Some (lk_items lock)"
    by (auto simp: json_lock_def obind_def split: option.split_asm)
  with g have "distinct (map fst (lk_items lock))" using obj_field_good as_dict_distinct by blast
  moreover from l consider "lk_buckets lock = []"
    | w where "obj_field ''buckets'' j = Some w" "as_dict as_int w = Some (lk_buckets lock)"
    by (auto simp: json_lock_def obind_def split: option.split_asm)
  then have "distinct (map fst (lk_buckets lock))"
  proof cases
    case (2 w)
    then show ?thesis using g obj_field_good as_dict_distinct by blast
  qed simp
  ultimately show ?thesis by (simp add: keyed_lock_def)
qed

end
