(* ===== verification/WorkshopHistory.thy ===== *)
theory WorkshopHistory
  imports WorkshopRender LockFile
begin

text \<open>
  The three commands of \<open>tools/workshop/workshop_lock.py\<close> over the life of a
  repository: \<open>main\<close> runs one of \<open>refresh\<close>, \<open>render\<close> and \<open>check\<close> on the lockfile
  and the files of the repository, and between commands the files are edited by
  hand.  The servers' configuration and the Steam API answer as they do at the
  time, so they come with each \<open>refresh\<close>.
\<close>

section \<open>The repository and its commands\<close>

text \<open>The text of \<open>workshop.lock.json\<close>, if it is there, and the other files.\<close>

record repo =
  repo_lock :: "string option"
  repo_files :: dir

datatype workshop_command =
    DoRefresh server_config "string list \<Rightarrow> detail list"
  | DoRender
  | DoCheck

definition read_lock :: "bool \<Rightarrow> repo \<Rightarrow> lock_error + lock" where
  "read_lock missing_ok r =
     (case repo_lock r of
        None \<Rightarrow> if missing_ok then Inr no_lock else Inl (Exit ''run `make workshop-lock`'')
      | Some t \<Rightarrow> (case load_lock t of None \<Rightarrow> Inl (ValueError t) | Some lock \<Rightarrow> Inr lock))"

definition write_lock :: "lock \<Rightarrow> repo \<Rightarrow> repo" where
  "write_lock lock r = r\<lparr>repo_lock := Some (lock_text lock)\<rparr>"

text \<open>A command that exits has written nothing: it computes everything before its first write.\<close>

fun workshop_main :: "workshop_command \<Rightarrow> repo \<Rightarrow> lock_error + repo" where
  "workshop_main (DoRefresh config api) r =
     rbind (read_lock True r) (\<lambda>old.
     rbind (refresh config api old) (\<lambda>lock. Inr (write_lock lock r)))"
| "workshop_main DoRender r =
     rbind (read_lock False r) (\<lambda>lock.
     rbind (render_lock lock (repo_files r)) (\<lambda>(d, written). Inr (r\<lparr>repo_files := d\<rparr>)))"
| "workshop_main DoCheck r =
     rbind (read_lock False r) (\<lambda>lock.
     rbind (check_lock lock (repo_files r)) (\<lambda>_. Inr r))"

section \<open>Histories\<close>

inductive step :: "repo \<Rightarrow> repo \<Rightarrow> bool" where
  ran: "workshop_main c r = Inr r' \<Longrightarrow> step r r'"
| failed: "workshop_main c r = Inl e \<Longrightarrow> step r r"
| edited: "step r (r\<lparr>repo_files := d\<rparr>)"

inductive reachable :: "repo \<Rightarrow> bool" where
  fresh: "repo_lock r = None \<Longrightarrow> reachable r"
| more: "reachable r \<Longrightarrow> step r r' \<Longrightarrow> reachable r'"

text \<open>A step leaves the lockfile as it is, or is a refresh.\<close>

lemma step_lock:
  assumes "step r r'"
  shows "repo_lock r' = repo_lock r \<or>
    (\<exists>config api old lock. read_lock True r = Inr old \<and> refresh config api old = Inr lock
       \<and> repo_lock r' = Some (lock_text lock))"
  using assms
proof cases
  case (ran c)
  then show ?thesis
    by (cases c) (auto simp: result_simps write_lock_def, blast)
qed simp_all

lemma read_files [simp]: "read_lock b (r\<lparr>repo_files := d\<rparr>) = read_lock b r"
  by (simp add: read_lock_def)

lemma read_cong: "repo_lock r = repo_lock s \<Longrightarrow> read_lock b r = read_lock b s"
  by (simp add: read_lock_def)

lemma read_locked: "read_lock False r = Inr lock \<Longrightarrow> read_lock b r = Inr lock"
  by (auto simp: read_lock_def split: option.splits)

lemma refreshed_keyed: "refresh config api old = Inr lock \<Longrightarrow> keyed_lock lock"
  using refresh_ids(1) distinct_sticky by (metis keyed_lock_def refresh_parts)

lemma read_refreshed:
  "refresh config api old = Inr lock \<Longrightarrow> repo_lock r = Some (lock_text lock) \<Longrightarrow> read_lock b r = Inr lock"
  by (simp add: read_lock_def load_lock_text refreshed_keyed)

section \<open>What every lockfile is like\<close>

definition item_groups :: "lock \<Rightarrow> string set" where
  "item_groups lock = (\<lambda>(i, it). group_of (it_servers it)) ` set (lk_items lock)"

definition sound_lock :: "lock \<Rightarrow> bool" where
  "sound_lock lock \<longleftrightarrow>
     keyed_lock lock \<and> distinct (map fst (lk_items lock)) \<and>
     sorted (map (\<lambda>p. the (py_int (fst p))) (lk_items lock)) \<and>
     (\<forall>(i, it) \<in> set (lk_items lock). py_int i \<noteq> None \<and> it_servers it \<noteq> []) \<and>
     lk_solo lock = Some (512 * 2 ^ 20) \<and>
     (\<forall>grp. case map_of (lk_buckets lock) grp of
        None \<Rightarrow> grp \<notin> item_groups lock
      | Some n \<Rightarrow> 1 \<le> n \<and> n \<le> 32 \<and> grp \<in> item_groups lock)"

lemma counts_bounded:
  "sound_lock lock \<Longrightarrow> map_of (lk_buckets lock) grp = Some n \<Longrightarrow> 1 \<le> n \<and> n \<le> 32"
  unfolding sound_lock_def by (auto split: option.splits dest!: spec [of _ grp])

lemma counted_groups:
  "sound_lock lock \<Longrightarrow>
     (\<exists>n. map_of (lk_buckets lock) grp = Some n) \<longleftrightarrow> grp \<in> item_groups lock"
  by (cases "map_of (lk_buckets lock) grp") (auto simp: sound_lock_def dest!: spec [of _ grp])

lemma sound_solo: "sound_lock lock \<Longrightarrow> lk_solo lock = Some (512 * 2 ^ 20)"
  by (simp add: sound_lock_def)

lemma refreshed_sound:
  assumes "refresh config api old = Inr lock"
    and "lk_solo old = None \<or> lk_solo old = Some (512 * 2 ^ 20)"
    and "\<And>grp n. map_of (lk_buckets old) grp = Some n \<Longrightarrow> 1 \<le> n \<and> n \<le> 32"
  shows "sound_lock lock"
proof -
  obtain all_ids items where p:
    "sort_ids (dedupe {} (concat (map snd (subscriptions config)))) = Inr all_ids"
    "map fst items = all_ids"
    "\<forall>(i, it) \<in> set items. it_servers it =
       sort (map fst (filter (\<lambda>(name, ids). i \<in> set ids) (subscriptions config)))"
    "lk_items lock = items"
    by (rule refresh_parts [OF assms(1)])
  have "it_servers it \<noteq> []" if i: "(i, it) \<in> set (lk_items lock)" for i it
  proof -
    from i have "i \<in> set all_ids" by (force simp: p(4) simp flip: p(2))
    with p(1) obtain name ids where s: "(name, ids) \<in> set (subscriptions config)" "i \<in> set ids"
      by (auto simp: sort_ids_eq set_dedupe)
    have "it_servers it = sort (map fst (filter (\<lambda>(name, ids). i \<in> set ids) (subscriptions config)))"
      using p(3) i by (auto simp: p(4))
    moreover from s have "name \<in> set (map fst (filter (\<lambda>(name, ids). i \<in> set ids) (subscriptions config)))"
      by force
    ultimately show ?thesis by (metis empty_iff empty_set set_sort)
  qed
  moreover have "case map_of (lk_buckets lock) grp of
        None \<Rightarrow> grp \<notin> item_groups lock
      | Some n \<Rightarrow> 1 \<le> n \<and> n \<le> 32 \<and> grp \<in> item_groups lock" for grp
  proof (cases "\<exists>(i, it) \<in> set (lk_items lock). group_of (it_servers it) = grp")
    case True
    then have "grp \<in> item_groups lock" by (force simp: item_groups_def)
    with True assms(3) [of grp] bucket_count_bounds show ?thesis
      unfolding refresh_sticky(1) [OF assms(1)] if_P [OF True] by (simp split: option.splits)
  next
    case False
    then show ?thesis unfolding refresh_sticky(1) [OF assms(1)] if_not_P [OF False] by (force simp: item_groups_def)
  qed
  moreover have "lk_solo lock = Some (512 * 2 ^ 20)"
    using assms(2) by (auto simp: refresh_sticky(2) [OF assms(1)])
  moreover have "\<forall>(i, it) \<in> set (lk_items lock). py_int i \<noteq> None"
    using refresh_ids(2) [OF assms(1)] by fastforce
  ultimately show ?thesis
    using refresh_ids(1,3) [OF assms(1)] refreshed_keyed [OF assms(1)] unfolding sound_lock_def by fast
qed

lemma reachable_sound:
  "reachable r \<Longrightarrow> repo_lock r \<noteq> None \<Longrightarrow>
     \<exists>lock. repo_lock r = Some (lock_text lock) \<and> read_lock False r = Inr lock \<and> sound_lock lock"
proof (induction rule: reachable.induct)
  case (fresh r)
  then show ?case by simp
next
  case (more r r')
  show ?case
  proof (cases "repo_lock r' = repo_lock r")
    case True
    with more read_cong [OF True] show ?thesis by simp
  next
    case False
    then obtain config api old lock where l: "read_lock True r = Inr old" "refresh config api old = Inr lock"
      "repo_lock r' = Some (lock_text lock)"
      using step_lock [OF more(2)] by blast
    have "old = no_lock \<or> sound_lock old"
    proof (cases "repo_lock r")
      case None
      with l(1) show ?thesis by (simp add: read_lock_def)
    next
      case (Some t)
      with more(3) obtain lock' where r: "read_lock False r = Inr lock'" "sound_lock lock'" by auto
      with l(1) read_locked [OF r(1), of True] show ?thesis by simp
    qed
    then have "sound_lock lock"
      by (intro refreshed_sound [OF l(2)]) (auto simp: no_lock_def dest: sound_solo counts_bounded)
    with read_refreshed [OF l(2,3)] l(3) show ?thesis by blast
  qed
qed

lemma reachable_reads: "reachable r \<Longrightarrow> read_lock False r = Inr lock \<Longrightarrow> sound_lock lock"
  using reachable_sound [of r] by (cases "repo_lock r") (auto simp: read_lock_def)

section \<open>A sound lockfile can be rendered\<close>

lemma sound_partitions: "sound_lock lock \<Longrightarrow> \<exists>p. partition_items lock = Inr p"
proof (rule partition_total)
  assume s: "sound_lock lock"
  then show "distinct (map fst (lk_items lock))" by (simp add: sound_lock_def)
  show "\<forall>(i, it) \<in> set (lk_items lock). py_int i \<noteq> None \<and>
      (\<exists>cnt. map_of (lk_buckets lock) (group_of (it_servers it)) = Some cnt \<and> cnt \<noteq> 0)"
  proof (rule ballI, clarify)
    fix i it
    assume i: "(i, it) \<in> set (lk_items lock)"
    then obtain n where "map_of (lk_buckets lock) (group_of (it_servers it)) = Some n"
      using counted_groups [OF s, of "group_of (it_servers it)"] by (force simp: item_groups_def)
    with counts_bounded [OF s this] i s
    show "py_int i \<noteq> None \<and> (\<exists>cnt. map_of (lk_buckets lock) (group_of (it_servers it)) = Some cnt \<and> cnt \<noteq> 0)"
      by (auto simp: sound_lock_def)
  qed
qed

lemma bucket_ids:
  assumes "partition_items lock = Inr p" and "(grp, bs) \<in> set p" and "(key, ids) \<in> set bs"
  shows "ids \<noteq> []" and "set ids \<subseteq> fst ` set (lk_items lock)"
proof -
  obtain q where q: "group_buckets lock q = Inr (grp, bs)"
    using rmap_mem_conv [OF assms(1) [unfolded partition_items_def] assms(2)] by blast
  have "distinct (map fst bs)" using group_buckets_eq(2) [of lock "fst q" "snd q"] q by simp
  moreover have "map_of p grp = Some bs" using assms(2) partition_keys(2) [OF assms(1)] by simp
  ultimately have "bucket_at p grp key = Some ids" using assms(3) by (simp add: bucket_at_def)
  then have "bucket_members lock grp key \<noteq> []" "set ids = set (bucket_members lock grp key)"
    unfolding bucket_at_eq [OF assms(1)] by (auto split: if_splits)
  moreover have "set (bucket_members lock grp key) \<subseteq> fst ` set (lk_items lock)"
    by (auto simp: bucket_members_def)
  ultimately show "ids \<noteq> []" "set ids \<subseteq> fst ` set (lk_items lock)" by auto
qed

lemma lock_item_total: "i \<in> fst ` set (lk_items lock) \<Longrightarrow> \<exists>it. lock_item lock i = Inr it"
  by (auto simp: lock_item_def weak_map_of_SomeI split: option.split dest: weak_map_of_SomeI)

lemma stage_total:
  assumes "ids \<noteq> []" and "set ids \<subseteq> fst ` set (lk_items lock)"
  shows "\<exists>ls. stage_lines lock grp (key, ids) = Inr ls"
proof -
  have it: "\<exists>it. lock_item lock i = Inr it" if "i \<in> set ids" for i
    using assms(2) that by (intro lock_item_total) blast
  have "\<exists>sizes. rmap (item_size lock) ids = Inr sizes"
    using it by (intro rmap_total) (fastforce simp: item_size_def)
  moreover obtain pinned where p: "rmap (pinned_line lock) ids = Inr pinned"
    using it rmap_total [of ids "pinned_line lock"] by (fastforce simp: pinned_line_def)
  moreover have "pinned \<noteq> []" using assms(1) p by (auto simp: rmap_Inr_iff)
  ultimately show ?thesis by (auto simp: stage_lines_def strip_last_def)
qed

lemma acf_total:
  assumes "\<forall>(i, it) \<in> set (lk_items lock). py_int i \<noteq> None"
  shows "\<exists>t. acf lock server = Inr t"
proof -
  have "\<exists>ids. acf_ids lock server = Inr ids" using assms by (fastforce simp: acf_ids_def sort_ids_eq)
  then obtain ids where ids: "acf_ids lock server = Inr ids" ..
  then have "set ids \<subseteq> fst ` set (lk_items lock)" by (force simp: acf_ids_def sort_ids_eq)
  then have "\<exists>its. rmap (\<lambda>i. rbind (lock_item lock i) (\<lambda>it. Inr (i, it))) ids = Inr its"
    by (intro rmap_total) (metis lock_item_total rbind_simps(2) subsetD)
  with ids show ?thesis by (auto simp: acf_def)
qed

lemma sound_generated:
  assumes "sound_lock lock"
  shows "\<exists>regions acfs. generated lock = Inr (regions, acfs)"
proof -
  obtain p where p: "partition_items lock = Inr p" using sound_partitions [OF assms] ..
  have grp: "\<exists>ls. rbind (rmap (stage_lines lock grp) (sort_key fst bs)) (\<lambda>ls. Inr (concat ls)) = Inr ls"
    if "(grp, bs) \<in> set p" for grp bs
  proof -
    have "\<exists>lss. rmap (stage_lines lock grp) (sort_key fst bs) = Inr lss"
    proof (rule rmap_total)
      fix x
      assume x: "x \<in> set (sort_key fst bs)"
      obtain key ids where "x = (key, ids)" by (cases x)
      with x bucket_ids [OF p that, of key ids] show "\<exists>y. stage_lines lock grp x = Inr y"
        by (simp add: stage_total)
    qed
    then show ?thesis by auto
  qed
  have "\<exists>lss. rmap (\<lambda>(grp, bs). rbind (rmap (stage_lines lock grp) (sort_key fst bs)) (\<lambda>ls. Inr (concat ls)))
      (sort_key fst p) = Inr lss"
    using grp by (intro rmap_total) auto
  then obtain stages where "dockerfile_stages lock p = Inr stages" by (auto simp: dockerfile_stages_def)
  moreover have "\<exists>acfs. rmap (\<lambda>server. rbind (acf lock server) (\<lambda>t. Inr (acf_path server, t))) (lock_servers lock) = Inr acfs"
  proof (rule rmap_total)
    fix s
    have "\<forall>(i, it) \<in> set (lk_items lock). py_int i \<noteq> None" using assms by (auto simp: sound_lock_def)
    from acf_total [OF this, of s] show "\<exists>y. rbind (acf lock s) (\<lambda>t. Inr (acf_path s, t)) = Inr y" by auto
  qed
  ultimately show ?thesis using p by (auto simp: generated_def)
qed

section \<open>Counts and buckets along a history\<close>

lemma reachable_along:
  "successively step rs \<Longrightarrow> reachable (hd rs) \<Longrightarrow> r \<in> set rs \<Longrightarrow> reachable r"
proof (induction rs)
  case Nil
  then show ?case by simp
next
  case (Cons s rs)
  then show ?case
    by (cases "rs = []") (auto simp: successively_Cons intro: reachable.more)
qed

lemma step_count:
  assumes "step r r'" and "read_lock False r = Inr a" and "read_lock False r' = Inr b"
    and "map_of (lk_buckets a) grp = Some m" and "map_of (lk_buckets b) grp = Some n"
  shows "n = m"
  using step_lock [OF assms(1)]
proof (elim disjE exE conjE)
  assume "repo_lock r' = repo_lock r"
  from read_cong [OF this, of False] assms(2-5) show ?thesis by simp
next
  fix config api old lock
  assume l: "read_lock True r = Inr old" "refresh config api old = Inr lock" "repo_lock r' = Some (lock_text lock)"
  have "old = a" "lock = b"
    using read_locked [OF assms(2), of True] l(1) read_refreshed [OF l(2,3), of False] assms(3) by simp_all
  with refresh_sticky(1) [OF l(2), of grp] assms(4,5) show ?thesis by (simp split: if_splits)
qed

lemma count_along:
  "successively step rs \<Longrightarrow>
   \<forall>r \<in> set rs. \<exists>a n. read_lock False r = Inr a \<and> map_of (lk_buckets a) grp = Some n \<Longrightarrow>
   \<exists>n. \<forall>r \<in> set rs. \<forall>a. read_lock False r = Inr a \<longrightarrow> map_of (lk_buckets a) grp = Some n"
proof (induction rs)
  case Nil
  then show ?case by simp
next
  case (Cons r rs)
  then obtain n where n: "\<forall>r \<in> set rs. \<forall>a. read_lock False r = Inr a \<longrightarrow> map_of (lk_buckets a) grp = Some n"
    by (auto simp: successively_Cons)
  from Cons.prems(2) obtain a m where a: "read_lock False r = Inr a" "map_of (lk_buckets a) grp = Some m" by auto
  show ?case
  proof (cases "rs = []")
    case True
    with a show ?thesis by auto
  next
    case False
    then have "hd rs \<in> set rs" by simp
    with Cons.prems(2) n obtain b where b: "read_lock False (hd rs) = Inr b" "map_of (lk_buckets b) grp = Some n" by fastforce
    from Cons.prems(1) False have "step r (hd rs)" by (simp add: successively_Cons)
    from step_count [OF this a(1) b(1) a(2) b(2)] a n show ?thesis by auto
  qed
qed

lemma in_its_bucket:
  assumes "sound_lock lock" and "map_of (lk_items lock) i = Some it"
    and "map_of (lk_buckets lock) (group_of (it_servers it)) = Some n" and "bucket_key lock n i = Inr key"
  shows "\<exists>p ids. partition_items lock = Inr p \<and> bucket_at p (group_of (it_servers it)) key = Some ids \<and> i \<in> set ids"
proof -
  obtain p where p: "partition_items lock = Inr p" using sound_partitions [OF assms(1)] ..
  have i: "(i, it) \<in> set (lk_items lock)" using assms(2) by (rule map_of_SomeD)
  have d: "distinct (map fst (lk_items lock))" using assms(1) by (simp add: sound_lock_def)
  from assms(3,4) have key: "bucket_key lock (the (map_of (lk_buckets lock) (group_of (it_servers it)))) i = Inr key" by simp
  from bucket_exists [OF p i key] obtain ids where "bucket_at p (group_of (it_servers it)) key = Some ids" ..
  with mem_bucket [OF p d i this] key p show ?thesis by blast
qed

lemma same_bucket_key:
  assumes "sound_lock a" and "sound_lock b"
    and "map_of (lk_items a) i = Some x" and "map_of (lk_items b) i = Some y"
    and "512 * 2 ^ 20 \<le> it_size x \<longleftrightarrow> 512 * 2 ^ 20 \<le> it_size y"
  shows "bucket_key a n i = bucket_key b n i"
  using sound_solo [OF assms(1)] sound_solo [OF assms(2)] assms(3-5)
  by (simp add: bucket_key_def lock_item_def solo_bytes_def)

section \<open>Checking after rendering\<close>

text \<open>
  Steps after which \<open>check\<close> has nothing new to say: rendering, checking, and
  edits of anything but the Dockerfile.
\<close>

inductive quiet :: "repo \<Rightarrow> repo \<Rightarrow> bool" where
  quiet_refl: "quiet r r"
| quiet_render: "quiet r s \<Longrightarrow> workshop_main DoRender s = Inr t \<Longrightarrow> quiet r t"
| quiet_check: "quiet r s \<Longrightarrow> workshop_main DoCheck s = Inr t \<Longrightarrow> quiet r t"
| quiet_edit: "quiet r s \<Longrightarrow> map_of d DOCKERFILE = map_of (repo_files s) DOCKERFILE \<Longrightarrow>
    quiet r (s\<lparr>repo_files := d\<rparr>)"

lemma check_ok:
  "check_lock lock d = Inr () \<longleftrightarrow>
     (\<exists>fs. rendered lock d = Inr fs \<and> (\<forall>t. (DOCKERFILE, t) \<in> set fs \<longrightarrow> map_of d DOCKERFILE = Some t))"
  by (auto simp: check_lock_def result_simps sync_check_clean up_to_date_def split: if_splits)

lemma check_dockerfile_only:
  "map_of d DOCKERFILE = map_of d' DOCKERFILE \<Longrightarrow> check_lock lock d = Inr () \<longleftrightarrow> check_lock lock d' = Inr ()"
  by (simp add: check_ok rendered_def)

lemma rendered_dockerfile:
  assumes "rendered lock d = Inr fs"
  shows "\<exists>t. (DOCKERFILE, t) \<in> set fs"
proof -
  from assms obtain t acfs where "fs = sort_key fst ((DOCKERFILE, t) # acfs)"
    by (auto simp: rendered_def result_simps split: option.splits)
  then have "(DOCKERFILE, t) \<in> set fs" by (simp only: set_sort list.set_intros)
  then show ?thesis ..
qed

lemma check_succeeds:
  "workshop_main DoCheck s = Inr t \<longleftrightarrow>
     t = s \<and> (\<exists>lock. read_lock False s = Inr lock \<and> check_lock lock (repo_files s) = Inr ())"
  by (auto simp: result_simps)

lemma render_succeeds:
  "workshop_main DoRender s = Inr t \<longleftrightarrow>
     (\<exists>lock fs. read_lock False s = Inr lock \<and> rendered lock (repo_files s) = Inr fs
        \<and> t = s\<lparr>repo_files := fst (sync True fs (repo_files s))\<rparr>)"
  by (auto simp: result_simps render_lock_def) (metis prod.collapse)

lemma render_keeps_checked:
  assumes "check_lock lock d = Inr ()" and "rendered lock d = Inr fs"
  shows "check_lock lock (fst (sync True fs d)) = Inr ()"
proof -
  obtain x where x: "(DOCKERFILE, x) \<in> set fs" using rendered_dockerfile [OF assms(2)] ..
  with assms have "map_of d DOCKERFILE = Some x" by (auto simp: check_ok)
  with sync_write [OF rendered_distinct [OF assms(2)] x]
  show ?thesis using assms(1) check_dockerfile_only [of "fst (sync True fs d)" d lock] by simp
qed

lemma quiet_checks:
  "quiet r s \<Longrightarrow> workshop_main DoCheck r = Inr r \<Longrightarrow> workshop_main DoCheck s = Inr s"
proof (induction rule: quiet.induct)
  case (quiet_render r s t)
  then show ?case
    by (auto simp: check_succeeds render_succeeds simp del: workshop_main.simps dest: render_keeps_checked)
next
  case (quiet_check r s t)
  then show ?case by (simp add: check_succeeds del: workshop_main.simps)
next
  case (quiet_edit r s d)
  then show ?case
    using check_dockerfile_only [of d "repo_files s"] by (auto simp: check_succeeds simp del: workshop_main.simps)
qed simp

section \<open>Properties\<close>

definition new_config :: server_config where
  "new_config = [(''test'', Some ''99''), (''main'', Some ''101
102
103'')]"

definition new_repo :: repo where
  "new_repo = \<lparr>repo_lock = None, repo_files = solo_dir\<rparr>"

definition first_lock :: lock where
  "first_lock = (case refresh sample_config sample_api no_lock of Inr lock \<Rightarrow> lock)"

definition second_lock :: lock where
  "second_lock = (case refresh new_config sample_api first_lock of Inr lock \<Rightarrow> lock)"

abbreviation first_repo :: repo where "first_repo \<equiv> write_lock first_lock new_repo"
abbreviation second_repo :: repo where "second_repo \<equiv> write_lock second_lock first_repo"

lemma sample_refreshes:
  "refresh sample_config sample_api no_lock = Inr first_lock"
  "refresh new_config sample_api first_lock = Inr second_lock"
  by code_simp+

lemma sample_reads: "read_lock b first_repo = Inr first_lock" "read_lock b second_repo = Inr second_lock"
  using sample_refreshes [THEN read_refreshed] by (simp_all add: write_lock_def)

lemma sample_steps: "step new_repo first_repo" "step first_repo second_repo"
proof -
  have "workshop_main (DoRefresh sample_config sample_api) new_repo = Inr first_repo"
    using sample_refreshes(1) by (simp add: read_lock_def new_repo_def)
  then show "step new_repo first_repo" by (rule step.ran)
  have "workshop_main (DoRefresh new_config sample_api) first_repo = Inr second_repo"
    using sample_refreshes(2) by (simp add: sample_reads)
  then show "step first_repo second_repo" by (rule step.ran)
qed

lemma sample_reachable: "reachable first_repo" "reachable second_repo"
proof -
  show "reachable first_repo"
    using reachable.more [OF reachable.fresh sample_steps(1)] by (simp add: new_repo_def)
  from reachable.more [OF this sample_steps(2)] show "reachable second_repo" .
qed

lemma sample_dir: "good_dir first_lock solo_doc (repo_files first_repo)"
proof -
  have "plain_lock first_lock" "good_doc solo_doc" "set (region_names first_lock) \<subseteq> set (regions_of solo_doc)"
    by code_simp+
  then show ?thesis by (simp add: good_dir_def solo_dir_def DOCKERFILE_def write_lock_def new_repo_def)
qed



lemma reachable_renders:
  assumes "reachable r" and "read_lock False r = Inr lock" and "good_dir lock doc (repo_files r)"
  shows "\<exists>r'. workshop_main DoRender r = Inr r' \<and> workshop_main DoCheck r' = Inr r'"
proof -
  obtain regions acfs where "generated lock = Inr (regions, acfs)"
    using sound_generated [OF reachable_reads [OF assms(1,2)]] by blast
  from rendered_eq [OF this assms(3)] obtain fs where fs: "rendered lock (repo_files r) = Inr fs" by blast
  then have "render_lock lock (repo_files r) = Inr (fst (sync True fs (repo_files r)), snd (sync True fs (repo_files r)))"
    by (simp add: render_lock_def)
  from check_after_render(1) [OF assms(3) this] fs assms(2) show ?thesis
    by (intro exI conjI, subst render_succeeds) (auto simp: check_succeeds simp del: workshop_main.simps)
qed

text \<open>
  C17. A lockfile that \<open>refresh\<close> wrote can always be rendered: over a Dockerfile
  with the marked regions, \<open>render\<close> of any reachable repository succeeds, with no
  missing count, item or number on the way, and \<open>check\<close> then passes.
\<close>

theorem every_lockfile_renders:
  assumes "reachable r" and "read_lock False r = Inr lock" and "good_dir lock doc (repo_files r)"
  shows "\<exists>r'. workshop_main DoRender r = Inr r' \<and> workshop_main DoCheck r' = Inr r'"
  using assms by (rule reachable_renders)

theorem every_lockfile_renders_witness:
  "\<exists>r'. workshop_main DoRender first_repo = Inr r' \<and> workshop_main DoCheck r' = Inr r'"
  by (rule every_lockfile_renders [OF sample_reachable(1) sample_reads(1) sample_dir])

text \<open>
  C16. Items keep their layer: while a group of subscribers has items at every
  point of a history, an item of that group is in the same bucket at any two
  points of it, whatever was added, dropped or re-pinned in between, as long as
  the item stays on the same side of the size that earns a layer of its own.
\<close>

theorem items_keep_their_layer:
  assumes "reachable (hd rs)" and "successively step rs" and "r \<in> set rs" and "r' \<in> set rs"
    and "\<forall>s \<in> set rs. \<exists>lock. read_lock False s = Inr lock \<and> grp \<in> item_groups lock"
    and "read_lock False r = Inr a" and "map_of (lk_items a) i = Some x" and "group_of (it_servers x) = grp"
    and "read_lock False r' = Inr b" and "map_of (lk_items b) i = Some y" and "group_of (it_servers y) = grp"
    and "512 * 2 ^ 20 \<le> it_size x \<longleftrightarrow> 512 * 2 ^ 20 \<le> it_size y"
  shows "\<exists>key p ids q ids'. partition_items a = Inr p \<and> bucket_at p grp key = Some ids \<and> i \<in> set ids
    \<and> partition_items b = Inr q \<and> bucket_at q grp key = Some ids' \<and> i \<in> set ids'"
proof -
  have sound: "sound_lock l" if "s \<in> set rs" "read_lock False s = Inr l" for s l
    using reachable_reads [OF reachable_along [OF assms(2,1) that(1)] that(2)] .
  have "\<forall>s \<in> set rs. \<exists>l n. read_lock False s = Inr l \<and> map_of (lk_buckets l) grp = Some n"
    using assms(5) counted_groups sound by meson
  from count_along [OF assms(2) this] obtain n where
    n: "map_of (lk_buckets a) grp = Some n" "map_of (lk_buckets b) grp = Some n"
    using assms(3,4,6,9) by blast
  note sa = sound [OF assms(3,6)] and sb = sound [OF assms(4,9)]
  obtain p where "partition_items a = Inr p" using sound_partitions [OF sa] ..
  from item_has_key [OF this map_of_SomeD [OF assms(7)]] n(1) assms(8)
  obtain key where key: "bucket_key a n i = Inr key" by auto
  then have "bucket_key b n i = Inr key" using same_bucket_key [OF sa sb assms(7,10,12)] by simp
  with in_its_bucket [OF sb assms(10), of n key] n(2) assms(11) obtain q ids' where
    "partition_items b = Inr q \<and> bucket_at q grp key = Some ids' \<and> i \<in> set ids'" by auto
  moreover from in_its_bucket [OF sa assms(7), of n key] key n(1) assms(8) obtain p ids where
    "partition_items a = Inr p \<and> bucket_at p grp key = Some ids \<and> i \<in> set ids" by auto
  ultimately show ?thesis by blast
qed

theorem items_keep_their_layer_witness:
  "\<exists>key p ids q ids'. partition_items first_lock = Inr p \<and> bucket_at p ''main'' key = Some ids
    \<and> ''101'' \<in> set ids \<and> partition_items second_lock = Inr q
    \<and> bucket_at q ''main'' key = Some ids' \<and> ''101'' \<in> set ids'"
proof -
  let ?it = "\<lparr>it_title = [], it_manifest = ''77'', it_size = 10, it_time = 5, it_servers = [''main'']\<rparr>"
  have it: "map_of (lk_items first_lock) ''101'' = Some ?it" "map_of (lk_items second_lock) ''101'' = Some ?it"
    by code_simp+
  have g: "group_of (it_servers ?it) = ''main''" by code_simp
  have h: "reachable (hd [first_repo, second_repo])" "successively step [first_repo, second_repo]"
    using sample_reachable(1) sample_steps(2) by simp_all
  from it g have "''main'' \<in> item_groups first_lock" "''main'' \<in> item_groups second_lock"
    by (force simp: item_groups_def dest: map_of_SomeD)+
  then have "\<forall>s \<in> set [first_repo, second_repo]. \<exists>lock. read_lock False s = Inr lock \<and> ''main'' \<in> item_groups lock"
    by (simp add: sample_reads)
  from items_keep_their_layer [OF h _ _ this sample_reads(1) it(1) g sample_reads(2) it(2) g] show ?thesis by simp
qed



end
