(* ===== verification/Loadouts.thy ===== *)
theory Loadouts
  imports Matching Dicts "HOL-Library.Product_Lexorder"
begin

text \<open>
  The loadout migration (\<open>tools/migrate_loadouts.py\<close>): rows of a MySQL dump are
  found by a regular expression, gathered per player and class, and written as
  one PostgreSQL statement.
\<close>

section \<open>Finding rows\<close>

text \<open>
  A match of \<open>\((\d+),(\d+),(\d+),'([^']*)','([^']*)',(?:'([^']*)'|NULL)\)\<close> at
  the start of a text: its groups and what follows.  A group that did not take
  part is the empty string, as \<open>findall\<close> has it.
\<close>

type_synonym groups = "string \<times> string \<times> string \<times> string \<times> string \<times> string"

definition match_row :: "string \<Rightarrow> (groups \<times> string) option" where
  "match_row s =
     obind (expect ''('' s) (\<lambda>s.
     obind (take_digits s) (\<lambda>(i, s).
     obind (expect '','' s) (\<lambda>s.
     obind (take_digits s) (\<lambda>(server, s).
     obind (expect '','' s) (\<lambda>s.
     obind (take_digits s) (\<lambda>(steam, s).
     obind (expect '','' s) (\<lambda>s.
     obind (take_quoted squote s) (\<lambda>(cls, s).
     obind (expect '','' s) (\<lambda>s.
     obind (take_quoted squote s) (\<lambda>(ty, s).
     obind (expect '','' s) (\<lambda>s.
     obind (case take_quoted squote s of
              Some (item, s) \<Rightarrow> Some (item, s)
            | None \<Rightarrow> map_option (\<lambda>s. ([], s)) (expect ''NULL'' s)) (\<lambda>(item, s).
     obind (expect '')'' s) (\<lambda>s.
       Some ((i, server, steam, cls, ty, item), s))))))))))))))"

lemma match_row_shorter: "match_row s = Some (g, t) \<Longrightarrow> length t < length s"
proof -
  assume m: "match_row s = Some (g, t)"
  then obtain u where u: "expect ''('' s = Some u" by (auto simp: match_row_def obind_Some)
  from m u have "length t \<le> length u"
    unfolding match_row_def obind_Some split_paired_Ex prod.case
    by (elim exE conjE) (auto split: option.splits dest!: expect_le take_digits_le take_quoted_le)
  with expect_shorter [OF u] show ?thesis by simp
qed

definition find_rows :: "string \<Rightarrow> groups list" where
  "find_rows = find_all match_row"

section \<open>Rows of server 1\<close>

type_synonym row = "int \<times> string \<times> string \<times> string"

definition parse_mysql_insert :: "string \<Rightarrow> row list" where
  "parse_mysql_insert line =
     (if \<not> sublist ''INSERT INTO'' line \<and> \<not> sublist ''saveloadout'' line then []
      else map (\<lambda>(i, server, steam, cls, ty, item). (int_of_digits steam, cls, ty, item))
             (filter (\<lambda>(i, server, steam, cls, ty, item). int_of_digits server = 1 \<and> item \<noteq> [])
               (find_rows line)))"

definition map_type_to_column :: "string \<Rightarrow> string" where
  "map_type_to_column ty =
     (let t = py_strip (py_lower ty)
      in if t \<in> {''gear'', ''gear_slot''} then ''gear''
         else if t \<in> {''primary'', ''primary_weapon''} then ''primary''
         else if t \<in> {''secondary'', ''secondary_weapon''} then ''secondary''
         else if t \<in> {''explosive'', ''explosives'', ''explosive_weapon''} then ''explosive''
         else t)"

section \<open>Gathering\<close>

type_synonym slots = "(string \<times> string list) list"
type_synonym loadouts = "((int \<times> string) \<times> slots) list"

definition no_slots :: slots where
  "no_slots = [(''gear'', []), (''primary'', []), (''secondary'', []), (''explosive'', [])]"

text \<open>\<open>self.loadouts[key]\<close> of the \<open>defaultdict\<close>: looking a key up creates it.\<close>

definition touch :: "int \<times> string \<Rightarrow> loadouts \<Rightarrow> loadouts" where
  "touch key d = (if map_of d key = None then d @ [(key, no_slots)] else d)"

definition add_row :: "loadouts \<Rightarrow> row \<Rightarrow> loadouts" where
  "add_row d = (\<lambda>(steam, cls, ty, item).
     if py_strip item = [] then d
     else let column = map_type_to_column ty; key = (steam, cls);
              d' = touch key d; slots = the (map_of d' key)
          in if map_of slots column = None then d'
             else AList.update key (dict_append column item slots) d')"

text \<open>\<open>line.strip().upper().startswith("INSERT")\<close>, on letters of ASCII.\<close>

definition upper_ascii :: "char \<Rightarrow> char" where
  "upper_ascii c = (let n = of_char c :: nat in if 97 \<le> n \<and> n \<le> 122 then char_of (n - 32) else c)"

definition is_insert :: "string \<Rightarrow> bool" where
  "is_insert line \<longleftrightarrow> prefix ''INSERT'' (map upper_ascii (py_strip line))"

definition dump_rows :: "string \<Rightarrow> row list" where
  "dump_rows handle = concat (map parse_mysql_insert (filter is_insert (lines_of handle)))"

definition process_file :: "string \<Rightarrow> loadouts" where
  "process_file handle =
     foldl (\<lambda>d line. if is_insert line then foldl add_row d (parse_mysql_insert line) else d)
       [] (lines_of handle)"

section \<open>The statement\<close>

definition escape_quotes :: "string \<Rightarrow> string" where
  "escape_quotes s = concat (map (\<lambda>c. if c = squote then [squote, squote] else [c]) s)"

definition format_postgres_value :: "string list \<Rightarrow> string" where
  "format_postgres_value items =
     (if items = [] then ''NULL''
      else squote # escape_quotes (join_with (CHR '';'') items) @ [squote])"

definition slot :: "slots \<Rightarrow> string \<Rightarrow> string list" where
  "slot slots column = the (map_of slots column)"

definition value_line :: "(int \<times> string) \<times> slots \<Rightarrow> string" where
  "value_line = (\<lambda>((steam, cls), slots).
     ''    ('' @ int_str steam @ '', '' @ squote # escape_quotes cls @ squote # '', ''
       @ format_postgres_value (slot slots ''gear'') @ '', ''
       @ format_postgres_value (slot slots ''primary'') @ '', ''
       @ format_postgres_value (slot slots ''secondary'') @ '', ''
       @ format_postgres_value (slot slots ''explosive'') @ '')'')"

definition generate_postgres_insert :: "string \<Rightarrow> loadouts \<Rightarrow> string" where
  "generate_postgres_insert input_file d =
     (let n = int_str (int (length d))
      in join_lines
           ([''-- ====================================================='',
             ''-- Migrated Loadout Data from MySQL saveloadout table'',
             ''-- Source: '' @ input_file,
             ''-- Filtered for server_id = 1 only'',
             ''-- Total loadouts: '' @ n,
             ''-- ====================================================='', []]
            @ (if d = [] then [''-- No loadouts found for server_id = 1'', []]
               else [''BEGIN;'', [],
                     ''INSERT INTO loadouts (steam_id, class_template, gear, primary_weapon, secondary_weapon, explosive)'',
                     ''VALUES'']
                    @ map (\<lambda>l. l @ '','') (butlast (map value_line (sort_key fst d)))
                    @ [last (map value_line (sort_key fst d)),
                     ''ON CONFLICT (steam_id, class_template) DO UPDATE SET'',
                     ''    gear = EXCLUDED.gear,'',
                     ''    primary_weapon = EXCLUDED.primary_weapon,'',
                     ''    secondary_weapon = EXCLUDED.secondary_weapon,'',
                     ''    explosive = EXCLUDED.explosive,'',
                     ''    updated_at = CURRENT_TIMESTAMP,'',
                     ''    update_count = loadouts.update_count + 1;'', [],
                     ''COMMIT;'', [],
                     ''-- Successfully migrated '' @ n @ '' loadouts'', []])))"

section \<open>What is gathered\<close>

definition columns :: "string list" where
  "columns = [''gear'', ''primary'', ''secondary'', ''explosive'']"

lemma columns_no_slots: "map fst no_slots = columns"
  by (simp add: no_slots_def columns_def)

text \<open>A row counts when its item is not blank.\<close>

definition counts :: "row \<Rightarrow> bool" where
  "counts = (\<lambda>(steam, cls, ty, item). py_strip item \<noteq> [])"

definition row_key :: "row \<Rightarrow> int \<times> string" where
  "row_key = (\<lambda>(steam, cls, ty, item). (steam, cls))"

definition row_item :: "row \<Rightarrow> string" where
  "row_item = (\<lambda>(steam, cls, ty, item). item)"

definition row_column :: "row \<Rightarrow> string" where
  "row_column = (\<lambda>(steam, cls, ty, item). map_type_to_column ty)"

lemma process_rows: "process_file handle = foldl add_row [] (dump_rows handle)"
proof -
  have "foldl (\<lambda>d line. if is_insert line then foldl add_row d (parse_mysql_insert line) else d) d ls =
      foldl add_row d (concat (map parse_mysql_insert (filter is_insert ls)))" for d ls
    by (induction ls arbitrary: d) auto
  then show ?thesis by (simp add: process_file_def dump_rows_def)
qed

text \<open>The slots of a key, as the rows fill them.\<close>

definition gathered :: "row list \<Rightarrow> int \<times> string \<Rightarrow> slots" where
  "gathered rows key =
     map (\<lambda>c. (c, map row_item (filter (\<lambda>r. counts r \<and> row_key r = key \<and> row_column r = c) rows))) columns"

lemma map_of_gathered: "map_of (gathered rows key) c =
    (if c \<in> set columns
     then Some (map row_item (filter (\<lambda>r. counts r \<and> row_key r = key \<and> row_column r = c) rows)) else None)"
  unfolding gathered_def by (rule map_of_map_restrict [THEN fun_cong, THEN trans]) (simp add: restrict_map_def comp_def)

lemma dict_append_gathered:
  assumes "distinct cs" and "c \<in> set cs"
  shows "dict_append c v (map (\<lambda>x. (x, f x)) cs) = map (\<lambda>x. (x, if x = c then f x @ [v] else f x)) cs"
  using assms by (induction cs) auto

lemma distinct_columns: "distinct columns"
  by (simp add: columns_def)

lemma gathered_Nil: "gathered [] key = no_slots"
  by (simp add: gathered_def columns_def no_slots_def)

lemma gathered_snoc:
  "gathered (rows @ [r]) key =
     (if counts r \<and> row_key r = key \<and> row_column r \<in> set columns
      then dict_append (row_column r) (row_item r) (gathered rows key) else gathered rows key)"
proof (cases "counts r \<and> row_key r = key \<and> row_column r \<in> set columns")
  case True
  then show ?thesis
    unfolding gathered_def by (simp add: dict_append_gathered distinct_columns cong: map_cong)
next
  case False
  then show ?thesis unfolding gathered_def by auto
qed

text \<open>One row, on the dictionary as a map.\<close>

definition slots_of :: "loadouts \<Rightarrow> int \<times> string \<Rightarrow> slots" where
  "slots_of d key = (case map_of d key of None \<Rightarrow> no_slots | Some slots \<Rightarrow> slots)"

lemma map_of_touch: "map_of (touch key d) = (map_of d)(key \<mapsto> slots_of d key)"
  by (auto simp: touch_def slots_of_def fun_eq_iff map_add_def split: option.splits)

lemma distinct_touch: "distinct (map fst d) \<Longrightarrow> distinct (map fst (touch key d))"
  by (auto simp: touch_def map_of_eq_None_iff simp del: not_None_eq)

lemma add_row_blank: "\<not> counts r \<Longrightarrow> add_row d r = d"
  by (cases r) (simp add: counts_def add_row_def)

lemma map_of_add_row:
  "counts r \<Longrightarrow> map_of (add_row d r) = (map_of d)(row_key r \<mapsto>
     (let slots = slots_of d (row_key r)
      in if map_of slots (row_column r) = None then slots else dict_append (row_column r) (row_item r) slots))"
  by (cases r)
     (simp add: counts_def add_row_def Let_def map_of_touch update_conv' row_key_def row_column_def row_item_def)

lemma distinct_add_row: "distinct (map fst d) \<Longrightarrow> distinct (map fst (add_row d r))"
  by (cases r) (simp add: add_row_def Let_def distinct_touch distinct_update)

lemma gathered_unseen:
  assumes "\<not> (\<exists>r \<in> set rows. counts r \<and> row_key r = key)"
  shows "gathered rows key = no_slots"
proof -
  from assms have "filter (\<lambda>r. counts r \<and> row_key r = key \<and> row_column r = c) rows = []" for c
    by (auto simp: filter_empty_conv)
  then show ?thesis by (simp add: gathered_def columns_def no_slots_def)
qed

lemma map_of_rows:
  "map_of (foldl add_row [] rows) key =
     (if \<exists>r \<in> set rows. counts r \<and> row_key r = key then Some (gathered rows key) else None)"
proof (induction rows arbitrary: key rule: rev_induct)
  case Nil
  then show ?case by simp
next
  case (snoc r rows)
  have slots: "slots_of (foldl add_row [] rows) key = gathered rows key" for key
    by (simp add: slots_of_def snoc gathered_unseen)
  show ?case
  proof (cases "counts r")
    case False
    with snoc show ?thesis by (simp add: add_row_blank gathered_snoc)
  next
    case True
    with snoc show ?thesis by (simp add: map_of_add_row slots Let_def gathered_snoc map_of_gathered)
  qed
qed

lemma distinct_rows: "distinct (map fst (foldl add_row [] rows))"
proof -
  have "distinct (map fst d) \<Longrightarrow> distinct (map fst (foldl add_row d rows))" for d
    by (induction rows arbitrary: d) (auto simp: distinct_add_row)
  then show ?thesis by simp
qed

section \<open>A dump read back\<close>

text \<open>A row as \<open>mysqldump\<close> writes it: \<open>None\<close> is an item that is \<open>NULL\<close>.\<close>

type_synonym dump_row = "int \<times> int \<times> int \<times> string \<times> string \<times> string option"

definition sql_quoted :: "string \<Rightarrow> string" where
  "sql_quoted s = squote # s @ [squote]"

definition row_text :: "dump_row \<Rightarrow> string" where
  "row_text = (\<lambda>(i, server, steam, cls, ty, item).
     ''('' @ int_str i @ '','' @ int_str server @ '','' @ int_str steam @ '','' @ sql_quoted cls
       @ '','' @ sql_quoted ty @ '','' @ (case item of None \<Rightarrow> ''NULL'' | Some t \<Rightarrow> sql_quoted t) @ '')'')"

definition dump_line :: "dump_row list \<Rightarrow> string" where
  "dump_line rows = ''INSERT INTO `saveloadout` VALUES '' @ join_with (CHR '','') (map row_text rows) @ '';''"

definition dump_field :: "string \<Rightarrow> bool" where
  "dump_field s \<longleftrightarrow> squote \<notin> set s \<and> newline \<notin> set s"

definition good_row :: "dump_row \<Rightarrow> bool" where
  "good_row = (\<lambda>(i, server, steam, cls, ty, item).
     0 \<le> i \<and> 0 \<le> server \<and> 0 \<le> steam \<and> dump_field cls \<and> dump_field ty
       \<and> (case item of None \<Rightarrow> True | Some t \<Rightarrow> dump_field t))"

definition kept_rows :: "dump_row list \<Rightarrow> row list" where
  "kept_rows rows = concat (map (\<lambda>(i, server, steam, cls, ty, item).
     case item of None \<Rightarrow> [] | Some t \<Rightarrow> if server = 1 \<and> t \<noteq> [] then [(steam, cls, ty, t)] else []) rows)"

lemma match_row_text:
  "good_row (i, server, steam, cls, ty, item) \<Longrightarrow>
     match_row (row_text (i, server, steam, cls, ty, item) @ s) =
       Some ((int_str i, int_str server, int_str steam, cls, ty, case item of None \<Rightarrow> [] | Some t \<Rightarrow> t), s)"
  by (cases item)
     (simp_all add: good_row_def row_text_def match_row_def sql_quoted_def dump_field_def expect_def)

definition groups_of :: "dump_row \<Rightarrow> groups" where
  "groups_of = (\<lambda>(i, server, steam, cls, ty, item).
     (int_str i, int_str server, int_str steam, cls, ty, case item of None \<Rightarrow> [] | Some t \<Rightarrow> t))"

lemma match_row_other: "c \<noteq> CHR ''('' \<Longrightarrow> match_row (c # s) = None"
  by (simp add: match_row_def)

lemma find_rows_skip: "CHR ''('' \<notin> set p \<Longrightarrow> find_rows (p @ s) = find_rows s"
  unfolding find_rows_def by (rule find_all_skips) (auto intro: match_row_other)

lemma find_rows_match: "match_row s = Some (g, t) \<Longrightarrow> find_rows s = g # find_rows t"
  unfolding find_rows_def by (rule find_all_match) (auto dest: match_row_shorter)

lemma find_rows_rows:
  assumes "\<forall>r \<in> set rows. good_row r"
  shows "find_rows (join_with (CHR '','') (map row_text rows) @ '';'') = map groups_of rows"
  using assms
proof (induction rows)
  case Nil
  show ?case using find_rows_skip [of "'';''" "[]"] by (simp add: find_rows_def)
next
  case (Cons r rows)
  obtain i server steam cls ty item where r: "r = (i, server, steam, cls, ty, item)" by (cases r)
  with Cons.prems have m: "match_row (row_text r @ s) = Some (groups_of r, s)" for s
    using match_row_text [of i server steam cls ty item s] by (simp add: groups_of_def)
  show ?case
  proof (cases rows)
    case Nil
    with Cons find_rows_match [OF m] show ?thesis by simp
  next
    case (Cons r' rows')
    let ?s = "join_with (CHR '','') (map row_text rows) @ '';''"
    have "join_with (CHR '','') (map row_text (r # rows)) @ '';'' = row_text r @ '','' @ ?s"
      using Cons by simp
    with find_rows_match [OF m] have
      "find_rows (join_with (CHR '','') (map row_text (r # rows)) @ '';'') = groups_of r # find_rows ('','' @ ?s)"
      by simp
    moreover have "find_rows ('','' @ ?s) = find_rows ?s" by (rule find_rows_skip) simp
    ultimately show ?thesis using Cons.IH Cons.prems by simp
  qed
qed

lemma row_text_newline: "good_row r \<Longrightarrow> newline \<notin> set (row_text r)"
proof -
  assume g: "good_row r"
  have "newline \<notin> set (int_str n)" if "0 \<le> n" for n
    using digits_ok [of n] that by (auto simp: int_str_def ascii_digit_def digit_value_def)
  with g show ?thesis
    by (auto simp: row_text_def good_row_def dump_field_def sql_quoted_def split: option.splits)
qed

lemma join_with_free: "c \<noteq> sep \<Longrightarrow> \<forall>l \<in> set ls. c \<notin> set l \<Longrightarrow> c \<notin> set (join_with sep ls)"
  by (induction sep ls rule: join_with.induct) auto

lemma is_insert_dump: "is_insert (dump_line rows)"
proof -
  have "py_strip (dump_line rows) = dump_line rows"
    by (rule py_strip_id) (simp_all add: dump_line_def py_isspace_def)
  then show ?thesis by (simp add: is_insert_def dump_line_def upper_ascii_def)
qed

lemma parse_dump_line:
  assumes "\<forall>r \<in> set rows. good_row r"
  shows "parse_mysql_insert (dump_line rows) = kept_rows rows"
proof -
  have "find_rows (dump_line rows) = map groups_of rows"
    unfolding dump_line_def by (subst find_rows_skip) (simp_all add: find_rows_rows assms)
  moreover have "sublist ''INSERT INTO'' (dump_line rows)"
    unfolding dump_line_def by (rule prefix_imp_sublist) simp
  ultimately have "parse_mysql_insert (dump_line rows) =
      map (\<lambda>(i, server, steam, cls, ty, item). (int_of_digits steam, cls, ty, item))
        (filter (\<lambda>(i, server, steam, cls, ty, item). int_of_digits server = 1 \<and> item \<noteq> []) (map groups_of rows))"
    by (simp add: parse_mysql_insert_def)
  also have "\<dots> = kept_rows rows"
    using assms
    by (induction rows) (auto simp: kept_rows_def groups_of_def good_row_def split: option.splits if_splits)
  finally show ?thesis .
qed

lemma dump_rows_text:
  assumes "\<forall>rows \<in> set stmts. \<forall>r \<in> set rows. good_row r"
  shows "dump_rows (join_lines (map dump_line stmts)) = concat (map kept_rows stmts)"
proof (cases "stmts = []")
  case True
  then show ?thesis by (simp add: dump_rows_def is_insert_def py_strip_def)
next
  case False
  have "newline \<notin> set (dump_line rows)" if "rows \<in> set stmts" for rows
  proof -
    have "newline \<notin> set (join_with (CHR '','') (map row_text rows))"
      using assms that row_text_newline by (intro join_with_free) auto
    then show ?thesis by (simp add: dump_line_def)
  qed
  then have "lines_of (join_lines (map dump_line stmts)) = map dump_line stmts"
    using False by (intro split_join) auto
  then have "dump_rows (join_lines (map dump_line stmts)) = concat (map parse_mysql_insert (map dump_line stmts))"
    by (simp add: dump_rows_def is_insert_dump filter_True)
  also have "map parse_mysql_insert (map dump_line stmts) = map kept_rows stmts"
    using assms parse_dump_line by simp
  finally show ?thesis .
qed

section \<open>Values read back\<close>

text \<open>
  A string literal as PostgreSQL reads it, with doubled quotes: its text and
  what follows; and the items of a column's value.
\<close>

fun sql_rest :: "string \<Rightarrow> (string \<times> string) option" where
  "sql_rest [] = None"
| "sql_rest (c # cs) =
     (if c \<noteq> squote then map_option (\<lambda>(t, rest). (c # t, rest)) (sql_rest cs)
      else (case cs of
              [] \<Rightarrow> Some ([], [])
            | d # ds \<Rightarrow>
                if d = squote then map_option (\<lambda>(t, rest). (squote # t, rest)) (sql_rest ds)
                else Some ([], cs)))"

definition read_items :: "string \<Rightarrow> (string list \<times> string) option" where
  "read_items s =
     (case expect ''NULL'' s of
        Some rest \<Rightarrow> Some ([], rest)
      | None \<Rightarrow> obind (expect [squote] s) (\<lambda>s.
          obind (sql_rest s) (\<lambda>(t, rest). Some (split_on (CHR '';'') t, rest))))"

lemma escape_quotes_simps [simp]:
  "escape_quotes [] = []"
  "escape_quotes (c # s) = (if c = squote then [squote, squote] else [c]) @ escape_quotes s"
  by (simp_all add: escape_quotes_def)

lemma sql_rest_escape: "\<not> prefix [squote] rest \<Longrightarrow> sql_rest (escape_quotes t @ squote # rest) = Some (t, rest)"
  by (induction t) (auto split: list.split)

lemma read_items_format:
  assumes "\<forall>t \<in> set items. CHR '';'' \<notin> set t" and "\<not> prefix [squote] rest"
  shows "read_items (format_postgres_value items @ rest) = Some (items, rest)"
proof (cases "items = []")
  case True
  then show ?thesis using expect_append [of "''NULL''" rest] by (simp add: read_items_def format_postgres_value_def)
next
  case False
  have "expect ''NULL'' (squote # s) = None" for s by (simp add: expect_def)
  with False assms show ?thesis
    by (simp add: read_items_def format_postgres_value_def sql_rest_escape split_join)
qed

section \<open>Properties\<close>




text \<open>
  A row whose \<open>type\<close> names no column still makes the player a loadout: the
  membership test looks the key up in a \<open>defaultdict\<close>, which creates it.  When
  all the rows of a key are like that, the tuple written for it is \<open>NULL\<close> in all
  four columns, and \<open>ON CONFLICT\<close> lets it overwrite what the table holds.
\<close>

lemma unknown_types_write_an_empty_loadout:
  assumes "r \<in> set (dump_rows handle)" and "counts r" and "row_key r = (steam, cls)"
    and "\<forall>r \<in> set (dump_rows handle). row_key r = (steam, cls) \<longrightarrow> row_column r \<notin> set columns"
  shows "map_of (process_file handle) (steam, cls) = Some no_slots
    \<and> value_line ((steam, cls), no_slots) =
      ''    ('' @ int_str steam @ '', '' @ squote # escape_quotes cls @ squote # '', NULL, NULL, NULL, NULL)''"
proof -
  have "filter (\<lambda>r. counts r \<and> row_key r = (steam, cls) \<and> row_column r = c) (dump_rows handle) = []"
    if "c \<in> set columns" for c
    using assms(4) that by (auto simp: filter_empty_conv)
  then have "gathered (dump_rows handle) (steam, cls) = no_slots"
    by (simp add: gathered_def columns_def no_slots_def)
  with assms(1-3) show ?thesis
    by (auto simp: process_rows map_of_rows value_line_def no_slots_def slot_def format_postgres_value_def)
qed

end
