(* ===== verification/Bsp.thy ===== *)
theory Bsp
  imports Bytes PyText
begin

text \<open>
  Reading a map (\<open>tools/bspaudit/bsplib.py\<close>): the header of 64 lump descriptors,
  the three lumps the tools look at, and a writer of the same layout that the
  reader inverts.  The zip file in the pakfile lump is read by Python's
  \<open>zipfile\<close>; its listing of a byte string is a parameter of \<open>packed\<close>, with \<open>None\<close>
  for the exceptions the code swallows.
\<close>

section \<open>Signed fields\<close>

definition get_i32 :: "bytes \<Rightarrow> int" where
  "get_i32 bs = (let u = get_u32 bs in if u < 2147483648 then u else u - 4294967296)"

section \<open>The reader\<close>

definition LUMP_ENTITIES :: nat where "LUMP_ENTITIES = 0"
definition LUMP_PAKFILE :: nat where "LUMP_PAKFILE = 40"
definition LUMP_TEXDATA_STRING_DATA :: nat where "LUMP_TEXDATA_STRING_DATA = 43"

record bsp =
  bsp_data :: bytes
  bsp_version :: int
  bsp_lumps :: "(int \<times> int) list"

definition VBSP :: bytes where
  "VBSP = [86, 66, 83, 80]"

definition lump_descriptor :: "bytes \<Rightarrow> nat \<Rightarrow> byte_error + int \<times> int" where
  "lump_descriptor data i =
     (let b = drop (8 + i * 16) data
      in if length b < 16 then Inl StructError else Inr (get_i32 b, get_i32 (drop 4 b)))"

definition read_bsp :: "bytes \<Rightarrow> byte_error + bsp" where
  "read_bsp data =
     (if take 4 data \<noteq> VBSP then Inl NotVbsp
      else if length data < 8 then Inl StructError
      else rbind (rmap (lump_descriptor data) [0..<64]) (\<lambda>lumps.
        Inr \<lparr>bsp_data = data, bsp_version = get_i32 (drop 4 data), bsp_lumps = lumps\<rparr>))"

definition lump :: "bsp \<Rightarrow> nat \<Rightarrow> bytes" where
  "lump b index = (let (off, ln) = bsp_lumps b ! index in py_slice (bsp_data b) off (off + ln))"

abbreviation nul :: char where "nul \<equiv> CHR 0x00"

definition entities :: "bsp \<Rightarrow> string" where
  "entities b = hd (split_on nul (latin1_decode (lump b LUMP_ENTITIES)))"

definition face_materials :: "bsp \<Rightarrow> string list" where
  "face_materials b =
     sort (remdups (map (posix \<circ> py_lower)
       (filter (\<lambda>s. s \<noteq> []) (split_on nul (latin1_decode (lump b LUMP_TEXDATA_STRING_DATA))))))"

definition pak_names :: "(bytes \<Rightarrow> string list option) \<Rightarrow> bytes \<Rightarrow> string set" where
  "pak_names namelist raw =
     (if raw = [] then {}
      else case namelist raw of None \<Rightarrow> {} | Some names \<Rightarrow> (posix \<circ> py_lower) ` set names)"

definition packed :: "(bytes \<Rightarrow> string list option) \<Rightarrow> bsp \<Rightarrow> string set" where
  "packed namelist b = pak_names namelist (lump b LUMP_PAKFILE)"

section \<open>A writer, and reading it back\<close>

definition lump_offset :: "bytes list \<Rightarrow> nat \<Rightarrow> int" where
  "lump_offset ls i = 1032 + int (length (concat (take i ls)))"

definition lump_header :: "bytes list \<Rightarrow> nat \<Rightarrow> bytes" where
  "lump_header ls i = le32 (lump_offset ls i) @ le32 (int (length (ls ! i))) @ le32 0 @ le32 0"

definition bsp_file :: "int \<Rightarrow> bytes list \<Rightarrow> bytes" where
  "bsp_file ver ls = VBSP @ le32 ver @ concat (map (lump_header ls) [0..<64]) @ concat ls"

lemma get_i32_le32: "0 \<le> n \<Longrightarrow> n < 2147483648 \<Longrightarrow> get_i32 (le32 n @ bs) = n"
  by (simp add: get_i32_def get_u32_le32)

lemma length_headers: "length (concat (map (lump_header ls) is)) = 16 * length is"
  by (induction "is") (simp_all add: lump_header_def)

lemma drop_headers:
  assumes "i < 64"
  shows "\<exists>rest. drop (8 + i * 16) (bsp_file ver ls) = lump_header ls i @ rest"
proof -
  have "[0..<64] = [0..<i] @ i # [Suc i..<64]"
    using assms upt_add_eq_append [of 0 i "64 - i"] upt_conv_Cons [of i 64] by simp
  then have "concat (map (lump_header ls) [0..<64]) =
      concat (map (lump_header ls) [0..<i]) @ lump_header ls i @ concat (map (lump_header ls) [Suc i..<64])"
    by simp
  then have "bsp_file ver ls = (VBSP @ le32 ver @ concat (map (lump_header ls) [0..<i])) @
      lump_header ls i @ concat (map (lump_header ls) [Suc i..<64]) @ concat ls"
    by (simp add: bsp_file_def)
  moreover have "length (VBSP @ le32 ver @ concat (map (lump_header ls) [0..<i])) = 8 + i * 16"
    by (simp add: VBSP_def length_headers)
  ultimately show ?thesis by (metis append_eq_conv_conj)
qed

lemma length_concat_take: "length (concat (take i ls)) \<le> length (concat ls)"
proof -
  have "concat ls = concat (take i ls) @ concat (drop i ls)"
    by (simp flip: concat_append)
  then show ?thesis by simp
qed

definition fits :: "int \<Rightarrow> bytes list \<Rightarrow> bool" where
  "fits ver ls \<longleftrightarrow> 0 \<le> ver \<and> ver < 2147483648 \<and> length ls = 64 \<and> 1032 + int (length (concat ls)) < 2147483648"

lemma fits_lump:
  assumes "fits ver ls" and "i < 64"
  shows "lump_offset ls i + int (length (ls ! i)) \<le> 1032 + int (length (concat ls))"
proof -
  have "concat (take (Suc i) ls) = concat (take i ls) @ ls ! i"
    using assms by (simp add: fits_def take_Suc_conv_app_nth)
  with length_concat_take [of "Suc i" ls] show ?thesis by (simp add: lump_offset_def)
qed

lemma read_bsp_file:
  assumes "fits ver ls"
  shows "read_bsp (bsp_file ver ls) =
    Inr \<lparr>bsp_data = bsp_file ver ls, bsp_version = ver,
         bsp_lumps = map (\<lambda>i. (lump_offset ls i, int (length (ls ! i)))) [0..<64]\<rparr>"
proof -
  have "lump_descriptor (bsp_file ver ls) i = Inr (lump_offset ls i, int (length (ls ! i)))" if "i < 64" for i
  proof -
    obtain rest where r: "drop (8 + i * 16) (bsp_file ver ls) = lump_header ls i @ rest"
      using drop_headers \<open>i < 64\<close> by blast
    have l: "0 \<le> lump_offset ls i" "lump_offset ls i < 2147483648" "int (length (ls ! i)) < 2147483648"
      using fits_lump [OF assms that] assms by (auto simp: fits_def lump_offset_def)
    have "get_i32 (lump_header ls i @ rest) = lump_offset ls i"
      using l by (simp add: lump_header_def get_i32_le32)
    moreover have "drop 4 (lump_header ls i @ rest) = le32 (int (length (ls ! i))) @ le32 0 @ le32 0 @ rest"
      by (simp add: lump_header_def)
    ultimately show ?thesis
      unfolding lump_descriptor_def r Let_def using l by (simp add: get_i32_le32 lump_header_def)
  qed
  then have "rmap (lump_descriptor (bsp_file ver ls)) [0..<64] =
      Inr (map (\<lambda>i. (lump_offset ls i, int (length (ls ! i)))) [0..<64])"
    by (intro rmap_eq_InrI) simp
  moreover have "get_i32 (drop 4 (bsp_file ver ls)) = ver"
    using assms by (simp add: bsp_file_def VBSP_def fits_def get_i32_le32)
  ultimately show ?thesis
    by (simp add: read_bsp_def bsp_file_def VBSP_def)
qed

lemma lump_bsp_file:
  assumes "fits ver ls" and "read_bsp (bsp_file ver ls) = Inr b" and "i < 64"
  shows "lump b i = ls ! i"
proof -
  let ?o = "nat (lump_offset ls i)"
  have b: "bsp_data b = bsp_file ver ls" "bsp_lumps b ! i = (lump_offset ls i, int (length (ls ! i)))"
    using assms by (auto simp: read_bsp_file)
  have len: "length (bsp_file ver ls) = 1032 + length (concat ls)"
    by (simp add: bsp_file_def VBSP_def length_headers)
  have o: "?o = 1032 + length (concat (take i ls))" by (simp add: lump_offset_def)
  have "?o + length (ls ! i) \<le> length (bsp_file ver ls)"
    using fits_lump [OF assms(1,3)] unfolding len o by (simp add: lump_offset_def)
  then have s: "py_slice (bsp_file ver ls) (lump_offset ls i) (lump_offset ls i + int (length (ls ! i))) =
      take (length (ls ! i)) (drop ?o (bsp_file ver ls))"
    by (simp add: py_slice_def slice_index_def Let_def lump_offset_def nat_add_distrib)
  have "concat ls = concat (take i ls @ ls ! i # drop (Suc i) ls)"
    using assms by (simp only: fits_def flip: id_take_nth_drop)
  then have "concat ls = concat (take i ls) @ ls ! i @ concat (drop (Suc i) ls)" by simp
  then have "bsp_file ver ls = (VBSP @ le32 ver @ concat (map (lump_header ls) [0..<64]) @ concat (take i ls))
      @ ls ! i @ concat (drop (Suc i) ls)"
    by (simp add: bsp_file_def)
  moreover have "length (VBSP @ le32 ver @ concat (map (lump_header ls) [0..<64]) @ concat (take i ls)) = ?o"
    by (simp add: VBSP_def length_headers o)
  ultimately have "drop ?o (bsp_file ver ls) = ls ! i @ concat (drop (Suc i) ls)"
    by (metis append_eq_conv_conj)
  with s show ?thesis unfolding lump_def b by simp
qed

text \<open>A Latin-1 text in a lump.\<close>

definition latin1_bytes :: "string \<Rightarrow> bytes" where
  "latin1_bytes s = map (\<lambda>c. word_of_nat (of_char c)) s"

lemma latin1_decode_bytes [simp]: "latin1_decode (latin1_bytes s) = s"
  by (simp add: latin1_decode_def latin1_bytes_def comp_def unat_byte)

lemma split_on_ends:
  "\<forall>m \<in> set ms. sep \<notin> set m \<Longrightarrow> split_on sep (concat (map (\<lambda>m. m @ [sep]) ms)) = ms @ [[]]"
  by (induction ms) (simp_all add: split_on_sep)

lemma entities_text:
  assumes "lump b LUMP_ENTITIES = latin1_bytes (t @ [nul])" and "nul \<notin> set t"
  shows "entities b = t"
  using assms split_on_sep [of nul t "[]"] by (simp add: entities_def)

lemma face_materials_text:
  assumes "lump b LUMP_TEXDATA_STRING_DATA = latin1_bytes (concat (map (\<lambda>m. m @ [nul]) ms))"
    and "\<forall>m \<in> set ms. nul \<notin> set m"
  shows "set (face_materials b) = {posix (py_lower m) | m. m \<in> set ms \<and> m \<noteq> []}"
  using assms by (auto simp: face_materials_def split_on_ends)

end
