(* ===== verification/BspAudit.thy ===== *)
theory BspAudit
  imports Bsp Matching Dicts
begin

text \<open>
  The asset audit of a map (\<open>tools/bspaudit/audit.py\<close>): the materials a map
  refers to, less what it packs and what a client has; the rules that strip the
  entities behind a finding and the stub materials for the brush faces.
\<close>

section \<open>References\<close>

definition MATERIAL_KEYS :: "string list" where
  "MATERIAL_KEYS = [''texture'', ''material'', ''detailmaterial'', ''overlaymaterial'']"

definition ENUM_MATERIAL_CLASSES :: "string list" where
  "ENUM_MATERIAL_CLASSES =
     [''func_breakable'', ''func_breakable_surf'', ''func_physbox'', ''prop_physics'',
      ''prop_physics_multiplayer'', ''prop_door_rotating'']"

definition drop_prefix :: "string \<Rightarrow> string \<Rightarrow> string" where
  "drop_prefix p s = (if prefix p s then drop (length p) s else s)"

definition drop_suffix :: "string \<Rightarrow> string \<Rightarrow> string" where
  "drop_suffix p s = (if suffix p s then take (length s - length p) s else s)"

definition lstrip_slash :: "string \<Rightarrow> string" where
  "lstrip_slash s = dropWhile (\<lambda>c. c = CHR ''/'') s"

definition normalise_material :: "string \<Rightarrow> string" where
  "normalise_material value =
     (let v = lstrip_slash (posix (py_lower (py_strip value)))
      in drop_suffix ''.vmt'' (drop_prefix ''materials/'' v))"

text \<open>\<open>\{[^{}]*\}\<close> and \<open>"([^"]+)"\s+"([^"]*)"\<close>\<close>

definition no_brace :: "char \<Rightarrow> bool" where
  "no_brace c \<longleftrightarrow> c \<noteq> CHR ''{'' \<and> c \<noteq> CHR ''}''"

definition match_block :: "string \<Rightarrow> (string \<times> string) option" where
  "match_block s =
     obind (expect ''{'' s) (\<lambda>s.
       let body = takeWhile no_brace s
       in obind (expect ''}'' (drop (length body) s)) (\<lambda>rest. Some (''{'' @ body @ ''}'', rest)))"

definition match_pair :: "string \<Rightarrow> ((string \<times> string) \<times> string) option" where
  "match_pair s =
     obind (take_quoted dquote s) (\<lambda>(key, s).
       if key = [] then None
       else obind (take_spaces s) (\<lambda>s.
            obind (take_quoted dquote s) (\<lambda>(v, s). Some ((key, v), s))))"

text \<open>\<open>dict(pairs)\<close>: the last value of a key.\<close>

definition keyvalues :: "string \<Rightarrow> (string \<Rightarrow> string option)" where
  "keyvalues block = map_of (rev (find_all match_pair block))"

definition get_or :: "(string \<Rightarrow> string option) \<Rightarrow> string \<Rightarrow> string \<Rightarrow> string" where
  "get_or d key dflt = (case d key of None \<Rightarrow> dflt | Some v \<Rightarrow> v)"

definition face_refs :: "bsp \<Rightarrow> (string \<times> string) list" where
  "face_refs b =
     map (\<lambda>norm. (norm, ''brush face'')) (filter (\<lambda>norm. norm \<noteq> []) (map normalise_material (face_materials b)))"

definition key_refs :: "(string \<Rightarrow> string option) \<Rightarrow> string \<Rightarrow> (string \<times> string) list" where
  "key_refs kvs key =
     (let classname = get_or kvs ''classname'' ''?''; val = get_or kvs key []; norm = normalise_material val
      in if val = [] then []
         else if key = ''material'' \<and> classname \<in> set ENUM_MATERIAL_CLASSES then []
         else if norm = [] \<or> py_isdigit norm then []
         else [(norm, classname @ CHR ''.'' # key)])"

definition model_refs :: "(string \<Rightarrow> string option) \<Rightarrow> (string \<times> string) list" where
  "model_refs kvs =
     (let model = get_or kvs ''model'' []
      in if suffix ''.vmt'' (py_lower model)
         then [(normalise_material model, get_or kvs ''classname'' ''?'' @ ''.model'')] else [])"

definition dict_refs :: "(string \<Rightarrow> string option) \<Rightarrow> (string \<times> string) list" where
  "dict_refs kvs = concat (map (key_refs kvs) MATERIAL_KEYS) @ model_refs kvs"

definition block_refs :: "string \<Rightarrow> (string \<times> string) list" where
  "block_refs block = dict_refs (keyvalues block)"

definition entity_refs :: "string \<Rightarrow> (string \<times> string) list" where
  "entity_refs ents = concat (map block_refs (find_all match_block ents))"

definition referenced_materials :: "bsp \<Rightarrow> (string \<times> string list) list" where
  "referenced_materials b = group_by fst snd (face_refs b @ entity_refs (entities b))"

section \<open>The content index\<close>

definition index_line :: "string \<Rightarrow> string option" where
  "index_line l =
     (let l = posix (py_lower (py_strip l))
      in if l = [] \<or> prefix ''#'' l then None
         else Some (drop_suffix ''.vmt'' (drop_prefix ''materials/'' l)))"

definition load_content_index :: "string \<Rightarrow> string set" where
  "load_content_index handle = set (List.map_filter index_line (lines_of handle))"

section \<open>The audit\<close>

record report =
  rp_map :: string
  rp_version :: int
  rp_referenced :: nat
  rp_packed_files :: nat
  rp_missing :: "(string \<times> string list) list"

definition resolved :: "string set \<Rightarrow> string set option \<Rightarrow> string \<Rightarrow> bool" where
  "resolved pack content mat \<longleftrightarrow>
     mat = [] \<or> prefix ''tools/'' mat \<or> ''materials/'' @ mat @ ''.vmt'' \<in> pack
       \<or> (case content of None \<Rightarrow> False | Some known \<Rightarrow> mat \<in> known)"

text \<open>\<open>sorted(set(xs))\<close>\<close>

definition sorted_set :: "'a::linorder list \<Rightarrow> 'a list" where
  "sorted_set xs = sort (remdups xs)"

definition missing_of :: "string set \<Rightarrow> string set option \<Rightarrow> (string \<times> string list) list \<Rightarrow> (string \<times> string list) list" where
  "missing_of pack content refs =
     map (\<lambda>(mat, reasons). (mat, sorted_set reasons))
       (filter (\<lambda>(mat, reasons). \<not> resolved pack content mat) (sort_key fst refs))"

text \<open>\<open>os.path.basename(path)\<close>\<close>

definition basename :: "string \<Rightarrow> string" where
  "basename path = (let (_, _, base) = rpartition (CHR ''/'') path in base)"

definition audit ::
  "(bytes \<Rightarrow> string list option) \<Rightarrow> string set option \<Rightarrow> string \<times> bytes \<Rightarrow> byte_error + report" where
  "audit namelist content = (\<lambda>(path, data).
     rbind (read_bsp data) (\<lambda>b.
       let pack = packed namelist b; refs = referenced_materials b
       in Inr \<lparr>rp_map = fst (splitext (basename path)), rp_version = bsp_version b,
               rp_referenced = length refs, rp_packed_files = card pack,
               rp_missing = missing_of pack content refs\<rparr>))"

text \<open>\<open>main\<close>: the maps in path order; one that cannot be read is reported and left out.\<close>

definition audit_all ::
  "(bytes \<Rightarrow> string list option) \<Rightarrow> string set option \<Rightarrow> (string \<times> bytes) list \<Rightarrow> report list" where
  "audit_all namelist content maps =
     concat (map (\<lambda>m. case audit namelist content m of Inl e \<Rightarrow> [] | Inr r \<Rightarrow> [r]) (sort_key fst maps))"

definition strippable :: "string list \<Rightarrow> bool" where
  "strippable reasons \<longleftrightarrow> (\<forall>rs \<in> set reasons. rs \<noteq> ''brush face'')"

section \<open>Rules that strip entities\<close>

definition NEVER_STRIP :: "string list" where
  "NEVER_STRIP = [''worldspawn'']"

definition rule_of :: "string \<Rightarrow> string \<Rightarrow> (string \<times> string \<times> string) list" where
  "rule_of mat reason =
     (let (classname, dot, key) = rpartition (CHR ''.'') reason
      in if \<not> dot \<or> classname \<in> set NEVER_STRIP then [] else [(mat, classname, key)])"

definition map_rules :: "report \<Rightarrow> (string \<times> string \<times> string) list" where
  "map_rules r =
     concat (map (\<lambda>(mat, reasons). concat (map (rule_of mat) reasons)) (sort_key fst (rp_missing r)))"

definition qstr :: "string \<Rightarrow> string" where
  "qstr s = dquote # s @ [dquote]"

definition rule_lines :: "nat \<times> string \<times> string \<times> string \<Rightarrow> string list" where
  "rule_lines = (\<lambda>(i, mat, classname, key).
     [[tab, tab] @ qstr (''rule'' @ int_str (int i)),
      [tab, tab] @ ''{'',
      [tab, tab, tab] @ qstr ''classname'' @ [tab, tab] @ qstr classname,
      [tab, tab, tab] @ qstr ''key'' @ [tab, tab, tab] @ qstr key,
      [tab, tab, tab] @ qstr ''value'' @ [tab, tab, tab] @ qstr mat,
      [tab, tab, tab] @ qstr ''note'' @ [tab, tab, tab]
        @ qstr ''Auto-generated: material not packed by the map and not resolvable by a client.'',
      [tab, tab] @ ''}''])"

definition strip_header :: "string list" where
  "strip_header =
     [''// Generated by tools/bspaudit/audit.py - review before use.'',
      ''//'',
      ''// One rule per material that is referenced by an entity and cannot be resolved by a client.'',
      ''// Removing the entity removes the reference, which is what stops the failed-material retry'',
      ''// storm. Findings that came from brush faces are NOT here - there is no entity to remove and'',
      ''// they need a stub material shipped to clients instead.'',
      qstr ''StripEntities'',
      ''{'']"

definition map_section :: "report \<Rightarrow> string list" where
  "map_section r =
     (let rules = map_rules r
      in if rules = [] then []
         else [tab # qstr (rp_map r), tab # ''{'']
              @ concat (map rule_lines (zip [0..<length rules] rules)) @ [tab # ''}''])"

definition write_strip_config :: "report list \<Rightarrow> string" where
  "write_strip_config reports =
     join_lines (strip_header @ concat (map map_section (sort_key rp_map reports)) @ [''}'', []])"

section \<open>Stub materials\<close>

definition STUB_BASETEXTURE :: string where
  "STUB_BASETEXTURE = ''dev/dev_measuregeneric01''"

definition stub_body :: "string \<Rightarrow> string list \<Rightarrow> string" where
  "stub_body mat maps =
     join_lines
       [''// STUB - generated by tools/bspaudit/audit.py'',
        ''//'',
        ''// '' @ mat,
        ''// Referenced by: '' @ join_by '', '' maps,
        ''//'',
        ''// This material is referenced by the map but is neither packed in its BSP nor resolvable by a'',
        ''// client. A failed VMT lookup is NOT cached, so the client retries it constantly and the'',
        ''// framerate collapses. This file exists so the lookup SUCCEEDS - it does not reproduce the'',
        ''// original art, and the surface renders as a placeholder grid.'',
        ''//'',
        ''// LightmappedGeneric because every one of these is a brush face. Materials referenced by an'',
        ''// entity are handled by removing the entity instead - see gg2_strip_entities.'',
        qstr ''LightmappedGeneric'',
        ''{'',
        tab # qstr ''$basetexture'' @ '' '' @ qstr STUB_BASETEXTURE,
        tab # qstr ''$surfaceprop'' @ '' '' @ qstr ''concrete'',
        ''}'',
        []]"

text \<open>\<open>re.sub(r"/{2,}", "/", mat)\<close>\<close>

fun one_slash :: "string \<Rightarrow> string" where
  "one_slash [] = []"
| "one_slash (c # cs) =
     (if c = CHR ''/'' \<and> prefix ''/'' cs then one_slash cs else c # one_slash cs)"

definition face_findings :: "report list \<Rightarrow> (string \<times> string) list" where
  "face_findings reports =
     concat (map (\<lambda>r. map (\<lambda>(mat, reasons). (mat, rp_map r))
       (filter (\<lambda>(mat, reasons). ''brush face'' \<in> set reasons) (rp_missing r))) reports)"

definition write_stubs :: "report list \<Rightarrow> (string \<times> string) list" where
  "write_stubs reports =
     map (\<lambda>(mat, maps). (one_slash mat @ ''.vmt'', stub_body mat (sorted_set maps)))
       (sort_key fst (group_by fst snd (face_findings reports)))"

end
