(* ===== verification/AuditFindings.thy ===== *)
theory AuditFindings
  imports BspAudit
begin

text \<open>
  What the audit finds: entity blocks as a compiler writes them are read back,
  the findings are the references that nothing resolves, and each is fixed by a
  strip rule or a stub, but for those of \<open>worldspawn\<close>.  A rule for a \<open>.vmt\<close>
  model never matches the entity it was made for.
\<close>

section \<open>Entity blocks read back\<close>

type_synonym keyvals = "(string \<times> string) list"

definition pair_text :: "string \<times> string \<Rightarrow> string" where
  "pair_text = (\<lambda>(k, v). qstr k @ '' '' @ qstr v @ [newline])"

definition block_text :: "keyvals \<Rightarrow> string" where
  "block_text kvs = ''{'' @ newline # concat (map pair_text kvs) @ ''}''"

definition entity_text :: "keyvals list \<Rightarrow> string" where
  "entity_text es = concat (map (\<lambda>kvs. block_text kvs @ [newline]) es)"

definition plain_text :: "string \<Rightarrow> bool" where
  "plain_text s \<longleftrightarrow> (\<forall>c \<in> set s. c \<notin> {dquote, CHR ''{'', CHR ''}'', nul})"

definition good_kvs :: "keyvals \<Rightarrow> bool" where
  "good_kvs kvs \<longleftrightarrow> (\<forall>(k, v) \<in> set kvs. k \<noteq> [] \<and> plain_text k \<and> plain_text v)"

lemma good_kvsD: "good_kvs kvs \<Longrightarrow> (k, v) \<in> set kvs \<Longrightarrow> k \<noteq> [] \<and> plain_text k \<and> plain_text v"
  by (auto simp: good_kvs_def)

lemma plain_textD:
  "plain_text s \<Longrightarrow> nul \<notin> set s" "plain_text s \<Longrightarrow> dquote \<notin> set s"
  "plain_text s \<Longrightarrow> c \<in> set s \<Longrightarrow> no_brace c"
  by (auto simp: plain_text_def no_brace_def)

lemma set_pair_text: "set (pair_text (k, v)) = set k \<union> set v \<union> {dquote, CHR '' '', newline}"
  by (auto simp: pair_text_def qstr_def)

lemma match_pair_text:
  "k \<noteq> [] \<Longrightarrow> plain_text k \<Longrightarrow> plain_text v \<Longrightarrow> match_pair (qstr k @ '' '' @ qstr v @ s) = Some ((k, v), s)"
proof -
  assume "k \<noteq> []" "plain_text k" "plain_text v"
  then have "k \<noteq> []" "dquote \<notin> set k" "dquote \<notin> set v" by (auto simp: plain_text_def)
  moreover have "take_spaces (CHR '' '' # dquote # t) = Some (dquote # t)" for t
    by (simp add: take_spaces_def py_isspace_def)
  ultimately show ?thesis by (simp add: match_pair_def qstr_def)
qed

lemma match_pair_other: "c \<noteq> dquote \<Longrightarrow> match_pair (c # s) = None"
  by (simp add: match_pair_def)

lemma find_pairs:
  "good_kvs kvs \<Longrightarrow> find_all match_pair (concat (map pair_text kvs) @ ''}'') = kvs"
proof (induction kvs)
  case Nil
  then show ?case by (simp add: find_all_skip match_pair_other)
next
  case (Cons p kvs)
  obtain k v where p: "p = (k, v)" by (cases p)
  let ?s = "concat (map pair_text kvs) @ ''}''"
  from Cons.prems have g: "k \<noteq> []" "plain_text k" "plain_text v" "good_kvs kvs"
    by (auto simp: good_kvs_def p)
  note m = match_pair_text [OF g(1-3), of "newline # ?s"]
  have "find_all match_pair (qstr k @ '' '' @ qstr v @ newline # ?s) = (k, v) # find_all match_pair (newline # ?s)"
    by (rule find_all_match [where m = match_pair, OF m]) (simp add: qstr_def)
  also have "find_all match_pair (newline # ?s) = find_all match_pair ?s"
    by (rule find_all_skip) (simp add: match_pair_other)
  finally show ?case using Cons.IH [OF g(4)] by (simp add: p pair_text_def)
qed

lemma keyvalues_block: "good_kvs kvs \<Longrightarrow> keyvalues (block_text kvs) = map_of (rev kvs)"
proof -
  assume g: "good_kvs kvs"
  have "find_all match_pair (block_text kvs) = find_all match_pair (concat (map pair_text kvs) @ ''}'')"
    by (simp add: block_text_def find_all_skip match_pair_other)
  with find_pairs [OF g] show ?thesis by (simp add: keyvalues_def)
qed

lemma block_no_brace: "good_kvs kvs \<Longrightarrow> \<forall>c \<in> set (newline # concat (map pair_text kvs)). no_brace c"
proof -
  assume g: "good_kvs kvs"
  have "\<forall>c \<in> set (pair_text (k, v)). no_brace c" if "(k, v) \<in> set kvs" for k v
    using good_kvsD [OF g that] plain_textD(3) [of k] plain_textD(3) [of v]
    unfolding set_pair_text by (simp add: ball_Un) (simp add: no_brace_def)
  then show ?thesis by (auto simp: no_brace_def)
qed

lemma match_block_text: "good_kvs kvs \<Longrightarrow> match_block (block_text kvs @ s) = Some (block_text kvs, s)"
proof -
  assume "good_kvs kvs"
  note b = block_no_brace [OF this]
  let ?b = "newline # concat (map pair_text kvs)"
  have "takeWhile no_brace (?b @ ''}'' @ s) = ?b"
    using b by (subst takeWhile_append2) (auto simp: no_brace_def)
  moreover have "block_text kvs @ s = ''{'' @ ?b @ ''}'' @ s" by (simp add: block_text_def)
  ultimately show ?thesis
    unfolding match_block_def by (simp add: block_text_def expect_def)
qed

lemma match_block_other: "c \<noteq> CHR ''{'' \<Longrightarrow> match_block (c # s) = None"
  by (simp add: match_block_def)

lemma find_blocks: "\<forall>kvs \<in> set es. good_kvs kvs \<Longrightarrow> find_all match_block (entity_text es) = map block_text es"
proof (induction es)
  case Nil
  then show ?case by (simp add: entity_text_def)
next
  case (Cons kvs es)
  have "find_all match_block (block_text kvs @ newline # entity_text es) =
      block_text kvs # find_all match_block (newline # entity_text es)"
    using Cons.prems by (intro find_all_match match_block_text) (auto simp: block_text_def)
  also have "find_all match_block (newline # entity_text es) = find_all match_block (entity_text es)"
    by (rule find_all_skip) (simp add: match_block_other)
  finally show ?case using Cons by (simp add: entity_text_def)
qed

text \<open>The references of an entity, from its keyvalues.\<close>

definition kvs_refs :: "keyvals \<Rightarrow> (string \<times> string) list" where
  "kvs_refs kvs = dict_refs (map_of (rev kvs))"

lemma entity_refs_text:
  "\<forall>kvs \<in> set es. good_kvs kvs \<Longrightarrow> entity_refs (entity_text es) = concat (map kvs_refs es)"
  by (simp add: entity_refs_def find_blocks block_refs_def kvs_refs_def keyvalues_block comp_def
      cong: map_cong)

section \<open>The findings\<close>

lemma sorted_set_iff: "xs = sorted_set ys \<longleftrightarrow> set xs = set ys \<and> sorted xs \<and> distinct xs"
  by (auto simp: sorted_set_def intro: sorted_distinct_set_unique)

lemma mem_missing:
  "(mat, reasons) \<in> set (missing_of pack content (group_by fst snd refs)) \<longleftrightarrow>
     \<not> resolved pack content mat \<and> reasons \<noteq> [] \<and> set reasons = {reason. (mat, reason) \<in> set refs}
       \<and> sorted reasons \<and> distinct reasons"
proof -
  have s: "set (map snd (filter (\<lambda>x. fst x = mat) refs)) = {reason. (mat, reason) \<in> set refs}"
    by force
  have keys: "mat \<in> fst ` set refs \<longleftrightarrow> {reason. (mat, reason) \<in> set refs} \<noteq> {}"
    by force
  have "(mat, reasons) \<in> set (missing_of pack content (group_by fst snd refs)) \<longleftrightarrow>
      \<not> resolved pack content mat \<and> mat \<in> fst ` set refs \<and> reasons = sorted_set (map snd (filter (\<lambda>x. fst x = mat) refs))"
    by (auto simp: missing_of_def mem_group_by image_iff)
  also have "\<dots> \<longleftrightarrow> \<not> resolved pack content mat \<and> reasons \<noteq> [] \<and> set reasons = {reason. (mat, reason) \<in> set refs}
       \<and> sorted reasons \<and> distinct reasons"
    unfolding sorted_set_iff s keys by (cases reasons) auto
  finally show ?thesis .
qed

text \<open>Why a map refers to a material: a brush face, or a keyvalue of an entity.\<close>

definition reasons_for :: "string list \<Rightarrow> keyvals list \<Rightarrow> string \<Rightarrow> string set" where
  "reasons_for ms es mat =
     {reason. reason = ''brush face'' \<and> (\<exists>m \<in> set ms. m \<noteq> [] \<and> normalise_material (posix (py_lower m)) = mat)
        \<or> (\<exists>kvs \<in> set es. (mat, reason) \<in> set (kvs_refs kvs))}"

definition map_holds :: "bytes list \<Rightarrow> keyvals list \<Rightarrow> string list \<Rightarrow> bool" where
  "map_holds ls es ms \<longleftrightarrow>
     ls ! LUMP_ENTITIES = latin1_bytes (entity_text es @ [nul]) \<and> (\<forall>kvs \<in> set es. good_kvs kvs)
     \<and> ls ! LUMP_TEXDATA_STRING_DATA = latin1_bytes (concat (map (\<lambda>m. m @ [nul]) ms))
     \<and> (\<forall>m \<in> set ms. nul \<notin> set m)"

lemma entity_text_nul: "\<forall>kvs \<in> set es. good_kvs kvs \<Longrightarrow> nul \<notin> set (entity_text es)"
proof -
  assume g: "\<forall>kvs \<in> set es. good_kvs kvs"
  have "nul \<notin> set (pair_text (k, v))" if "kvs \<in> set es" "(k, v) \<in> set kvs" for kvs k v
    using good_kvsD [OF bspec [OF g that(1)] that(2)] plain_textD(1) [of k] plain_textD(1) [of v]
    by (simp add: set_pair_text)
  then show ?thesis by (auto simp: entity_text_def block_text_def)
qed

lemma audit_map:
  assumes "fits ver ls" and "map_holds ls es ms"
  shows "\<exists>r. audit namelist content (path, bsp_file ver ls) = Inr r
    \<and> (\<forall>mat reasons. (mat, reasons) \<in> set (rp_missing r) \<longleftrightarrow>
         \<not> resolved (pak_names namelist (ls ! LUMP_PAKFILE)) content mat \<and> reasons \<noteq> []
           \<and> set reasons = reasons_for ms es mat \<and> sorted reasons \<and> distinct reasons)"
proof -
  obtain b where b: "read_bsp (bsp_file ver ls) = Inr b" using read_bsp_file [OF assms(1)] by blast
  note l = lump_bsp_file [OF assms(1) b]
  have "entities b = entity_text es"
    using assms(2) l [of LUMP_ENTITIES] entity_text_nul
    by (intro entities_text) (auto simp: map_holds_def LUMP_ENTITIES_def)
  then have e: "entity_refs (entities b) = concat (map kvs_refs es)"
    using assms(2) by (simp add: map_holds_def entity_refs_text)
  have f: "set (face_materials b) = {posix (py_lower m) | m. m \<in> set ms \<and> m \<noteq> []}"
    using assms(2) l [of LUMP_TEXDATA_STRING_DATA]
    by (intro face_materials_text) (auto simp: map_holds_def LUMP_TEXDATA_STRING_DATA_def)
  have p: "packed namelist b = pak_names namelist (ls ! LUMP_PAKFILE)"
    using l [of LUMP_PAKFILE] by (simp add: packed_def LUMP_PAKFILE_def)
  have "\<not> resolved pack content mat \<Longrightarrow>
      {reason. (mat, reason) \<in> set (face_refs b @ entity_refs (entities b))} = reasons_for ms es mat" for mat pack
    by (auto simp: e face_refs_def f reasons_for_def resolved_def)
  then show ?thesis
    by (auto simp: audit_def b Let_def p referenced_materials_def mem_missing)
qed

section \<open>What is done about them\<close>

lemma rule_of_reason: "CHR ''.'' \<notin> set key \<Longrightarrow>
    rule_of mat (cls @ CHR ''.'' # key) = (if cls = ''worldspawn'' then [] else [(mat, cls, key)])"
  by (simp add: rule_of_def rpartition_split NEVER_STRIP_def)

lemma rule_of_face: "rule_of mat ''brush face'' = []"
  by (simp add: rule_of_def rpartition_none)

lemma mem_map_rules:
  "rule \<in> set (map_rules r) \<longleftrightarrow>
     (\<exists>mat reasons. (mat, reasons) \<in> set (rp_missing r) \<and> (\<exists>reason \<in> set reasons. rule \<in> set (rule_of mat reason)))"
  by (force simp: map_rules_def)

lemma entity_reason:
  assumes "(mat, reason) \<in> set (dict_refs d)"
  obtains cls key where "reason = cls @ CHR ''.'' # key" "CHR ''.'' \<notin> set key"
proof -
  consider key where "key \<in> set MATERIAL_KEYS" "(mat, reason) \<in> set (key_refs d key)"
    | "(mat, reason) \<in> set (model_refs d)"
    using assms by (auto simp: dict_refs_def)
  then show thesis
  proof cases
    case 1
    then have "reason = get_or d ''classname'' ''?'' @ CHR ''.'' # key" "CHR ''.'' \<notin> set key"
      by (auto simp: key_refs_def Let_def MATERIAL_KEYS_def split: if_splits)
    then show thesis by (rule that)
  next
    case 2
    then have "reason = get_or d ''classname'' ''?'' @ CHR ''.'' # ''model''"
      by (auto simp: model_refs_def Let_def split: if_splits)
    then show thesis by (rule that) simp
  qed
qed

text \<open>Every reason is a brush face or names a class and a key.\<close>

lemma finding_reason:
  assumes "audit namelist content m = Inr r" and "(mat, reasons) \<in> set (rp_missing r)" and "reason \<in> set reasons"
  obtains "reason = ''brush face''" | d where "(mat, reason) \<in> set (dict_refs d)"
proof -
  obtain b where "(mat, reason) \<in> set (face_refs b @ entity_refs (entities b))"
    using assms by (cases m) (auto simp: audit_def result_simps Let_def referenced_materials_def mem_missing)
  with that show thesis by (auto simp: face_refs_def entity_refs_def block_refs_def)
qed

lemma stub_written:
  assumes "r \<in> set reports" and "(mat, reasons) \<in> set (rp_missing r)" and "''brush face'' \<in> set reasons"
  shows "one_slash mat @ ''.vmt'' \<in> fst ` set (write_stubs reports)"
proof -
  have "(mat, rp_map r) \<in> set (face_findings reports)"
    using assms by (force simp: face_findings_def)
  then have "mat \<in> fst ` set (group_by fst snd (face_findings reports))"
    by (force simp: keys_group_by)
  then show ?thesis by (force simp: write_stubs_def)
qed


definition sample_lumps :: "bytes list" where
  "sample_lumps = map (\<lambda>i.
     if i = LUMP_ENTITIES then latin1_bytes (entity_text [[(''classname'', ''infodecal''), (''texture'', ''decals/rug.vmt'')]] @ [nul])
     else if i = LUMP_TEXDATA_STRING_DATA then latin1_bytes (concat (map (\<lambda>m. m @ [nul]) [''Brick'', ''TOOLS/trigger'']))
     else []) [0..<64]"

lemma sample_holds:
  "fits 20 sample_lumps"
  "map_holds sample_lumps [[(''classname'', ''infodecal''), (''texture'', ''decals/rug.vmt'')]] [''Brick'', ''TOOLS/trigger'']"
proof -
  have "length (concat sample_lumps) = 76"
    by (simp add: sample_lumps_def upt_rec LUMP_ENTITIES_def LUMP_TEXDATA_STRING_DATA_def entity_text_def
        block_text_def pair_text_def qstr_def latin1_bytes_def)
  then show "fits 20 sample_lumps" by (simp add: fits_def) (simp add: sample_lumps_def)
  show "map_holds sample_lumps [[(''classname'', ''infodecal''), (''texture'', ''decals/rug.vmt'')]] [''Brick'', ''TOOLS/trigger'']"
    by (simp add: map_holds_def sample_lumps_def LUMP_ENTITIES_def LUMP_TEXDATA_STRING_DATA_def good_kvs_def plain_text_def)
qed

lemma sample_reasons:
  "reasons_for [''Brick'', ''TOOLS/trigger''] [[(''classname'', ''infodecal''), (''texture'', ''decals/rug.vmt'')]] ''brick'' = {''brush face''}"
  "reasons_for [''Brick'', ''TOOLS/trigger''] [[(''classname'', ''infodecal''), (''texture'', ''decals/rug.vmt'')]] ''decals/rug'' = {''infodecal.texture''}"
proof -
  have k: "set (kvs_refs [(''classname'', ''infodecal''), (''texture'', ''decals/rug.vmt'')]) = {(''decals/rug'', ''infodecal.texture'')}"
    by code_simp
  have n: "normalise_material (posix (py_lower ''Brick'')) = ''brick''"
    "normalise_material (posix (py_lower ''TOOLS/trigger'')) = ''tools/trigger''" by code_simp+
  show "reasons_for [''Brick'', ''TOOLS/trigger''] [[(''classname'', ''infodecal''), (''texture'', ''decals/rug.vmt'')]] ''brick'' = {''brush face''}"
    "reasons_for [''Brick'', ''TOOLS/trigger''] [[(''classname'', ''infodecal''), (''texture'', ''decals/rug.vmt'')]] ''decals/rug'' = {''infodecal.texture''}"
    by (auto simp: reasons_for_def k n)
qed

lemma sample_unresolved:
  "\<not> resolved (pak_names (\<lambda>_. None) (sample_lumps ! LUMP_PAKFILE)) (Some {''stock''}) ''brick''"
  by (simp add: resolved_def pak_names_def sample_lumps_def LUMP_PAKFILE_def LUMP_ENTITIES_def LUMP_TEXDATA_STRING_DATA_def)


lemma no_worldspawn_rule: "(mat, ''worldspawn'', key) \<notin> set (map_rules r)"
  by (auto simp: mem_map_rules rule_of_def NEVER_STRIP_def Let_def split: prod.splits if_splits)

text \<open>
  Every finding is dealt with, but for those of \<open>worldspawn\<close>: a material a
  face refers to gets a stub, one an entity refers to gets a rule that strips
  entities of that class.
\<close>

lemma findings_are_dealt_with:
  assumes "audit namelist content m = Inr r" and "r \<in> set reports"
    and "(mat, reasons) \<in> set (rp_missing r)" and "reason \<in> set reasons"
  shows "(reason = ''brush face'' \<and> one_slash mat @ ''.vmt'' \<in> fst ` set (write_stubs reports)
      \<or> (\<exists>cls key. reason = cls @ CHR ''.'' # key \<and> (cls = ''worldspawn'' \<or> (mat, cls, key) \<in> set (map_rules r))))
    \<and> (mat, ''worldspawn'', key') \<notin> set (map_rules r)"
proof -
  from assms(1,3,4) show ?thesis
  proof (rule finding_reason)
    assume "reason = ''brush face''"
    with stub_written [OF assms(2,3)] assms(4) no_worldspawn_rule show ?thesis by auto
  next
    fix d
    assume "(mat, reason) \<in> set (dict_refs d)"
    then obtain cls key where k: "reason = cls @ CHR ''.'' # key" "CHR ''.'' \<notin> set key"
      by (rule entity_reason)
    then have "cls = ''worldspawn'' \<or> (mat, cls, key) \<in> set (rule_of mat reason)"
      by (simp add: rule_of_reason)
    with k assms(3,4) have "cls = ''worldspawn'' \<or> (mat, cls, key) \<in> set (map_rules r)"
      by (auto simp: mem_map_rules)
    with k no_worldspawn_rule show ?thesis by auto
  qed
qed

section \<open>The plugin that strips\<close>

text \<open>
  \<open>BlockMatches\<close> of the plugin that reads the rules
  (\<open>plugins/sourcemod/scripting/gg2_strip_entities.sp\<close>): the quoted pairs have to
  occur in the text of the block as they are, whatever their case.
\<close>

definition ascii_lower :: "char \<Rightarrow> char" where
  "ascii_lower c = (let n = of_char c :: nat in if 65 \<le> n \<and> n \<le> 90 then char_of (n + 32) else c)"

definition str_contains :: "string \<Rightarrow> string \<Rightarrow> bool" where
  "str_contains block needle \<longleftrightarrow> sublist (map ascii_lower needle) (map ascii_lower block)"

definition block_matches :: "string \<Rightarrow> string \<times> string \<times> string \<Rightarrow> bool" where
  "block_matches block = (\<lambda>(val, classname, key).
     (classname = [] \<or> str_contains block (qstr ''classname'' @ '' '' @ qstr classname))
     \<and> (key = [] \<or> str_contains block (qstr key @ '' '' @ qstr val)))"

text \<open>Cutting a block at its quotes: keys, blanks and values in turn.\<close>

fun pieces :: "string \<Rightarrow> keyvals \<Rightarrow> string list" where
  "pieces h [] = [h @ ''}'']"
| "pieces h ((k, v) # kvs) = h # k # '' '' # v # pieces [newline] kvs"

lemma split_pieces:
  "\<forall>(k, v) \<in> set kvs. dquote \<notin> set k \<and> dquote \<notin> set v \<Longrightarrow> dquote \<notin> set h \<Longrightarrow>
     split_on dquote (h @ concat (map pair_text kvs) @ ''}'') = pieces h kvs"
proof (induction kvs arbitrary: h)
  case Nil
  then show ?case by (simp add: split_on_none)
next
  case (Cons p kvs)
  obtain k v where p: "p = (k, v)" by (cases p)
  from Cons.prems p have q: "dquote \<notin> set k" "dquote \<notin> set v" by auto
  have "split_on dquote ([newline] @ concat (map pair_text kvs) @ ''}'') = pieces [newline] kvs"
    using Cons.prems by (intro Cons.IH) auto
  moreover have "split_on dquote ('' '' @ dquote # s) = '' '' # split_on dquote s" for s
    by (rule split_on_sep) simp
  ultimately show ?case
    using Cons.prems q by (simp add: p pair_text_def qstr_def split_on_sep)
qed

lemma pieces_pair:
  "pieces h kvs = a @ [key, '' '', val] @ b \<Longrightarrow> a \<noteq> [] \<Longrightarrow> key \<noteq> '' '' \<Longrightarrow> key \<noteq> [newline] \<Longrightarrow> (key, val) \<in> set kvs"
proof (induction h kvs arbitrary: a rule: pieces.induct)
  case (1 h)
  then show ?case by (cases a) auto
next
  case (2 h k v kvs)
  obtain x a' where a: "a = x # a'" using "2.prems"(2) by (cases a) auto
  with "2.prems"(1) have p: "k # '' '' # v # pieces [newline] kvs = a' @ [key, '' '', val] @ b" by simp
  have hd: "hd (pieces [newline] kvs) \<noteq> '' ''" "pieces [newline] kvs \<noteq> []" by (cases kvs; auto)+
  consider "a' = []" | y where "a' = [y]" | y z where "a' = [y, z]"
    | y z w a'' where "a' = y # z # w # a''" by (cases a' rule: list.exhaust; metis neq_Nil_conv)
  then show ?case
  proof cases
    case 1 with p show ?thesis by simp
  next
    case 2 with p "2.prems" show ?thesis by simp
  next
    case 3 with p hd show ?thesis by (cases "pieces [newline] kvs") auto
  next
    case 4
    with p have "pieces [newline] kvs = a'' @ [key, '' '', val] @ b" by simp
    moreover from this "2.prems"(4) have "a'' \<noteq> []" by (cases kvs) auto
    ultimately show ?thesis using "2.IH" "2.prems" by auto
  qed
qed

lemma ascii_lower_cases: "ascii_lower c = c \<or> 97 \<le> (of_char (ascii_lower c) :: nat)"
  by (simp add: ascii_lower_def Let_def)

lemma ascii_lower_eq: "(of_char d :: nat) < 65 \<Longrightarrow> ascii_lower c = d \<longleftrightarrow> c = d"
  using ascii_lower_cases [of c] by (auto simp: ascii_lower_def Let_def)

lemma ascii_lower_pair:
  "map ascii_lower (pair_text (k, v)) = pair_text (map ascii_lower k, map ascii_lower v)"
  by (simp add: pair_text_def qstr_def ascii_lower_def)

definition lower_kvs :: "keyvals \<Rightarrow> keyvals" where
  "lower_kvs kvs = map (\<lambda>(k, v). (map ascii_lower k, map ascii_lower v)) kvs"

lemma lower_block: "map ascii_lower (block_text kvs) = block_text (lower_kvs kvs)"
proof -
  have "map ascii_lower (concat (map pair_text kvs)) = concat (map pair_text (lower_kvs kvs))"
    by (induction kvs) (auto simp: lower_kvs_def ascii_lower_pair)
  then show ?thesis by (simp add: block_text_def ascii_lower_def)
qed

lemma contains_pair:
  assumes "good_kvs kvs" and "str_contains (block_text kvs) (qstr key @ '' '' @ qstr val)"
    and "dquote \<notin> set key" and "dquote \<notin> set val" and "map ascii_lower key \<notin> {'' '', [newline]}"
  shows "\<exists>(k, v) \<in> set kvs. map ascii_lower k = map ascii_lower key \<and> map ascii_lower v = map ascii_lower val"
proof -
  let ?k = "map ascii_lower key" and ?v = "map ascii_lower val"
  have q: "dquote \<notin> set (map ascii_lower s)" if "dquote \<notin> set s" for s
  proof
    assume "dquote \<in> set (map ascii_lower s)"
    then obtain c where "c \<in> set s" "ascii_lower c = dquote" by (metis imageE set_map)
    with ascii_lower_eq [of dquote c] that show False by simp
  qed
  have good: "\<forall>(k, v) \<in> set (lower_kvs kvs). dquote \<notin> set k \<and> dquote \<notin> set v"
  proof (clarsimp simp: lower_kvs_def)
    fix k v assume "(k, v) \<in> set kvs"
    from good_kvsD [OF assms(1) this] show "dquote \<notin> ascii_lower ` set k \<and> dquote \<notin> ascii_lower ` set v"
      using q [of k] q [of v] plain_textD(2) [of k] plain_textD(2) [of v] by simp
  qed
  from assms(2) obtain p s where "block_text (lower_kvs kvs) = p @ dquote # ?k @ dquote # '' '' @ dquote # ?v @ dquote # s"
    by (auto simp: str_contains_def sublist_def lower_block qstr_def ascii_lower_def)
  then have "split_on dquote (block_text (lower_kvs kvs)) =
      split_on dquote p @ [?k, '' '', ?v] @ split_on dquote s"
    using split_on_append_sep [of dquote p] split_on_sep [OF q [OF assms(3)]] split_on_sep [OF q [OF assms(4)]]
      split_on_sep [of dquote "'' ''"] by simp
  moreover have "split_on dquote (block_text (lower_kvs kvs)) = pieces (''{'' @ [newline]) (lower_kvs kvs)"
    using split_pieces [OF good, of "''{'' @ [newline]"] by (simp add: block_text_def)
  ultimately have "(?k, ?v) \<in> set (lower_kvs kvs)"
    using assms(5) by (intro pieces_pair [where h = "''{'' @ [newline]"]) auto
  then show ?thesis by (force simp: lower_kvs_def)
qed

lemma suffix_dropWhile: "suffix (c # t) s \<Longrightarrow> \<not> P c \<Longrightarrow> suffix (c # t) (dropWhile P s)"
  by (auto simp: suffix_def dropWhile_append)

lemma isspace_lower [simp]: "py_isspace (lower_char c) = py_isspace c"
proof -
  have "(of_char c :: nat) < 256" by simp
  then show ?thesis by (auto simp: py_isspace_def lower_char_def Let_def)
qed

lemma strip_lower: "py_lower (py_strip s) = py_strip (py_lower s)"
  by (simp add: py_strip_def py_lower_def dropWhile_map rev_map comp_def)

lemma strip_suffix:
  assumes "suffix t s" and "t \<noteq> []" and "\<forall>c \<in> set t. \<not> py_isspace c"
  shows "suffix t (py_strip s)"
proof -
  obtain u where s: "s = u @ t" using assms(1) by (auto simp: suffix_def)
  obtain c t' where t: "t = c # t'" using assms(2) by (cases t) auto
  then have "suffix t (dropWhile py_isspace s)"
    using assms(1,3) by (auto intro!: suffix_dropWhile)
  then obtain u' where u: "dropWhile py_isspace s = u' @ t" by (auto simp: suffix_def)
  have "dropWhile py_isspace (rev t @ rev u') = rev t @ rev u'"
    using assms(2,3) by (cases t rule: rev_cases) auto
  then show ?thesis by (simp add: py_strip_def u suffix_def)
qed

lemma suffix_after_prefix:
  assumes "suffix t (p @ y)" and "p \<noteq> []" and "last p \<notin> set t"
  shows "suffix t y"
proof -
  consider "suffix t y" | u where "t = u @ y" "suffix u p" using assms(1) by (auto simp: suffix_append)
  then show ?thesis
  proof cases
    case 2
    with assms(2,3) have "u = []" by (cases u rule: rev_cases) (auto simp: suffix_def)
    with 2 show ?thesis by simp
  qed
qed

lemma vmt_shorter:
  assumes "suffix ''.vmt'' (py_lower v)"
  shows "length (normalise_material v) < length v"
proof -
  let ?x = "lstrip_slash (posix (py_lower (py_strip v)))"
  have "suffix ''.vmt'' (py_lower (py_strip v))"
    unfolding strip_lower using assms by (rule strip_suffix) (simp_all add: py_isspace_def)
  then have "suffix ''.vmt'' (posix (py_lower (py_strip v)))"
    by (auto simp: suffix_def posix_def)
  then have x: "suffix ''.vmt'' ?x"
    unfolding lstrip_slash_def by (rule suffix_dropWhile) simp
  have "suffix ''.vmt'' (drop_prefix ''materials/'' ?x)"
  proof (cases "prefix ''materials/'' ?x")
    case True
    then obtain y where y: "?x = ''materials/'' @ y" by (rule prefixE)
    from x have "suffix ''.vmt'' y" unfolding y by (rule suffix_after_prefix) simp_all
    then show ?thesis by (simp add: drop_prefix_def y)
  qed (simp add: drop_prefix_def x)
  moreover have "length (drop_prefix ''materials/'' ?x) \<le> length v"
  proof -
    have "length (py_strip v) \<le> length v"
      using length_dropWhile_le [of py_isspace v]
        length_dropWhile_le [of py_isspace "rev (dropWhile py_isspace v)"] by (simp add: py_strip_def)
    moreover have "length ?x \<le> length (py_strip v)"
      using length_dropWhile_le [of "\<lambda>c. c = CHR ''/''" "posix (py_lower (py_strip v))"]
      by (simp add: lstrip_slash_def posix_def)
    moreover have "length (drop_prefix ''materials/'' ?x) \<le> length ?x" by (simp add: drop_prefix_def)
    ultimately show ?thesis by linarith
  qed
  ultimately show ?thesis
    by (auto simp: normalise_material_def Let_def drop_suffix_def suffix_def)
qed

lemma set_normalise: "set (normalise_material v) \<subseteq> set (posix (py_lower v))"
proof -
  have "set (dropWhile P s) \<subseteq> set s" for P and s :: string by (auto dest: set_dropWhileD)
  then have "set (py_strip v) \<subseteq> set v" by (metis py_strip_def set_rev subset_trans)
  moreover have "set (drop_suffix p s) \<subseteq> set s" "set (drop_prefix p s) \<subseteq> set s" "set (lstrip_slash s) \<subseteq> set s" for p s
    by (auto simp: drop_suffix_def drop_prefix_def lstrip_slash_def dest: in_set_takeD in_set_dropD set_dropWhileD)
  moreover from this have "set (normalise_material v) \<subseteq> set (posix (py_lower (py_strip v)))"
    unfolding normalise_material_def Let_def by (meson subset_trans)
  moreover have "set (posix (py_lower (py_strip v))) \<subseteq> set (posix (py_lower v))"
    using \<open>set (py_strip v) \<subseteq> set v\<close> by (auto simp: posix_def py_lower_def)
  ultimately show ?thesis by blast
qed

lemma dquote_normalise: "dquote \<notin> set v \<Longrightarrow> dquote \<notin> set (normalise_material v)"
proof
  assume v: "dquote \<notin> set v" and "dquote \<in> set (normalise_material v)"
  with set_normalise obtain c where "c \<in> set v" "lower_char c = dquote"
    by (fastforce simp: posix_def py_lower_def split: if_splits)
  moreover from this(2) have "c = dquote"
  proof -
    have "(of_char c :: nat) < 256" by simp
    moreover have "(of_char (lower_char c) :: nat) = 34" using \<open>lower_char c = dquote\<close> by simp
    ultimately have "lower_char c = c" by (auto simp: lower_char_def Let_def split: if_splits)
    with \<open>lower_char c = dquote\<close> show ?thesis by simp
  qed
  ultimately show False using v by simp
qed

text \<open>
  The rule made for an entity whose \<open>model\<close> is a material strips nothing: the
  audit takes the \<open>.vmt\<close> off the value it writes, and the plugin looks for the
  quoted pair as it stands in the entity.
\<close>

lemma model_rules_never_match:
  assumes "good_kvs kvs" and "map_of (rev kvs) ''model'' = Some v"
    and "\<forall>(k, w) \<in> set kvs. map ascii_lower k = ''model'' \<longrightarrow> w = v"
    and "suffix ''.vmt'' (py_lower v)" and "get_or (map_of (rev kvs)) ''classname'' ''?'' = cls"
    and "cls \<noteq> ''worldspawn''"
  shows "(normalise_material v, cls @ ''.model'') \<in> set (block_refs (block_text kvs))
    \<and> rule_of (normalise_material v) (cls @ ''.model'') = [(normalise_material v, cls, ''model'')]
    \<and> \<not> block_matches (block_text kvs) (normalise_material v, cls, ''model'')"
proof -
  have v: "dquote \<notin> set v"
    using good_kvsD [OF assms(1), of "''model''" v] map_of_SomeD [OF assms(2)] plain_textD(2) by auto
  then have "dquote \<notin> set (normalise_material v)"
    by (rule dquote_normalise)
  then have "\<not> str_contains (block_text kvs) (qstr ''model'' @ '' '' @ qstr (normalise_material v))"
  proof (intro notI)
    assume "str_contains (block_text kvs) (qstr ''model'' @ '' '' @ qstr (normalise_material v))"
    from contains_pair [OF assms(1) this]
    obtain k w where "(k, w) \<in> set kvs" "map ascii_lower k = ''model''"
      "map ascii_lower w = map ascii_lower (normalise_material v)"
      using \<open>dquote \<notin> set (normalise_material v)\<close> by (auto simp: ascii_lower_def)
    with assms(3) have "map ascii_lower v = map ascii_lower (normalise_material v)" by auto
    from arg_cong [OF this, of length] vmt_shorter [OF assms(4)] show False by simp
  qed
  moreover have "(normalise_material v, cls @ ''.model'') \<in> set (block_refs (block_text kvs))"
    using assms by (simp add: block_refs_def keyvalues_block dict_refs_def model_refs_def get_or_def Let_def)
  moreover have "rule_of (normalise_material v) (cls @ ''.model'') = [(normalise_material v, cls, ''model'')]"
    using rule_of_reason [of "''model''" "normalise_material v" cls] assms(6) by simp
  ultimately show ?thesis by (simp add: block_matches_def)
qed

end
