(* ===== verification/AuditMain.thy ===== *)
theory AuditMain
  imports AuditFindings
begin

text \<open>
  The audit as a command (\<open>main\<close> of \<open>tools/bspaudit/audit.py\<close>): which maps it takes,
  the lines it prints, and the files it writes for them.  Argument parsing is left
  out: the options are arguments of the model.
\<close>

section \<open>Which maps\<close>

text \<open>\<open>os.walk(args.maps_dir)\<close>: each directory, as walking names it, with its files.\<close>

definition maps_below :: "(string \<times> string list) list \<Rightarrow> string list" where
  "maps_below walk =
     concat (map (\<lambda>(root, files). map (py_join root) (filter (\<lambda>f. suffix ''.bsp'' (py_lower f)) files)) walk)"

definition audit_paths :: "string list \<Rightarrow> (string \<times> string list) list option \<Rightarrow> string list" where
  "audit_paths bsps maps_dir = bsps @ (case maps_dir of None \<Rightarrow> [] | Some walk \<Rightarrow> maps_below walk)"

section \<open>What is printed\<close>

definition ljust :: "nat \<Rightarrow> string \<Rightarrow> string" where
  "ljust n s = s @ replicate (n - length s) (CHR '' '')"

definition finding_line :: "string \<times> string list \<Rightarrow> string" where
  "finding_line = (\<lambda>(mat, reasons).
     ''    '' @ ljust 44 mat @ '' '' @ ljust 28 (join_by '','' reasons) @ '' ''
       @ (if strippable reasons then ''STRIPPABLE'' else ''needs stub material''))"

definition missing_line :: "report \<Rightarrow> string" where
  "missing_line r =
     ljust 34 (rp_map r) @ '' '' @ int_str (int (length (rp_missing r))) @ '' missing of ''
       @ int_str (int (rp_referenced r)) @ '' referenced''"

definition clean_map_line :: "report \<Rightarrow> string" where
  "clean_map_line r =
     ljust 34 (rp_map r) @ '' clean ('' @ int_str (int (rp_referenced r)) @ '' referenced, ''
       @ int_str (int (rp_packed_files r)) @ '' packed)''"

definition report_lines :: "bool \<Rightarrow> report \<Rightarrow> string list" where
  "report_lines quiet r =
     (if rp_missing r \<noteq> [] then missing_line r # map finding_line (sort_key fst (rp_missing r))
      else if \<not> quiet then [clean_map_line r] else [])"

text \<open>
  The lines \<open>main\<close> itself prints; a map that cannot be read is a line of its
  own, with the text of the exception as a parameter.
\<close>

definition map_lines ::
  "(bytes \<Rightarrow> string list option) \<Rightarrow> (byte_error \<Rightarrow> string) \<Rightarrow> string set option \<Rightarrow> bool \<Rightarrow> string \<times> bytes \<Rightarrow> string list" where
  "map_lines namelist errtext content quiet m =
     (case audit namelist content m of
        Inl e \<Rightarrow> [ljust 34 (basename (fst m)) @ '' ERROR '' @ errtext e]
      | Inr r \<Rightarrow> report_lines quiet r)"

definition summary_lines :: "report list \<Rightarrow> string list" where
  "summary_lines reports =
     [[], int_str (int (length reports)) @ '' map(s) audited, ''
       @ int_str (int (length (filter (\<lambda>r. rp_missing r \<noteq> []) reports))) @ '' with findings.'']"

section \<open>The command\<close>

record audited =
  au_reports :: "report list"
  au_printed :: "string list"
  au_strip :: "string option"
  au_stubs :: "(string \<times> string) list option"

definition audit_main ::
  "(bytes \<Rightarrow> string list option) \<Rightarrow> (byte_error \<Rightarrow> string) \<Rightarrow> (string \<Rightarrow> bytes) \<Rightarrow> string list
     \<Rightarrow> (string \<times> string list) list option \<Rightarrow> string option \<Rightarrow> bool \<Rightarrow> bool \<Rightarrow> bool \<Rightarrow> byte_error + audited" where
  "audit_main namelist errtext read bsps maps_dir index quiet strip stub =
     (let paths = audit_paths bsps maps_dir; content = map_option load_content_index index;
          maps = map (\<lambda>p. (p, read p)) paths; reports = audit_all namelist content maps
      in if paths = [] then Inl (SystemExit ''audit.py'' ''no BSPs given'')
         else Inr \<lparr>au_reports = reports,
                   au_printed = concat (map (map_lines namelist errtext content quiet) (sort_key fst maps))
                     @ summary_lines reports,
                   au_strip = (if strip then Some (write_strip_config reports) else None),
                   au_stubs = (if stub then Some (write_stubs reports) else None)\<rparr>)"

section \<open>Reports of a run\<close>

lemma mem_audit_all:
  "r \<in> set (audit_all namelist content maps) \<longleftrightarrow> (\<exists>m \<in> set maps. audit namelist content m = Inr r)"
  by (force simp: audit_all_def split: sum.splits)

text \<open>A map that cannot be read costs its own report only.\<close>

lemma audit_all_readable:
  "audit_all namelist content maps =
     audit_all namelist content (filter (\<lambda>m. \<not> isl (audit namelist content m)) maps)"
proof -
  have "concat (map (\<lambda>m. case audit namelist content m of Inl e \<Rightarrow> [] | Inr r \<Rightarrow> [r]) ms) =
      concat (map (\<lambda>m. case audit namelist content m of Inl e \<Rightarrow> [] | Inr r \<Rightarrow> [r])
        (filter (\<lambda>m. \<not> isl (audit namelist content m)) ms))" for ms
    by (induction ms) (auto split: sum.split)
  from this [of "sort_key fst maps"] show ?thesis by (simp add: audit_all_def filter_sort)
qed

lemma audit_main_reports:
  "audit_main namelist errtext read bsps maps_dir index quiet strip stub = Inr out \<Longrightarrow>
     au_reports out = audit_all namelist (map_option load_content_index index)
       (map (\<lambda>p. (p, read p)) (audit_paths bsps maps_dir))"
  by (auto simp: audit_main_def Let_def split: if_splits)

lemma audit_main_total:
  "audit_paths bsps maps_dir \<noteq> [] \<Longrightarrow>
     \<exists>out. audit_main namelist errtext read bsps maps_dir index quiet strip stub = Inr out"
  by (simp add: audit_main_def Let_def)

lemma unreadable_report:
  "audit namelist content m = Inl e \<Longrightarrow> audit_all namelist content (m # maps) = audit_all namelist content maps"
  using audit_all_readable [of namelist content "m # maps"] audit_all_readable [of namelist content maps] by simp

lemma rule_in_config:
  assumes "r \<in> set reports" and "(mat, cls, key) \<in> set (map_rules r)"
  shows "\<exists>pre i post. write_strip_config reports = join_lines (pre @ rule_lines (i, mat, cls, key) @ post)"
proof -
  obtain i where "i < length (map_rules r)" "map_rules r ! i = (mat, cls, key)"
    using assms(2) by (auto simp: in_set_conv_nth)
  then have "(i, mat, cls, key) \<in> set (zip [0..<length (map_rules r)] (map_rules r))"
    by (force simp: set_zip)
  then obtain xs ys where "zip [0..<length (map_rules r)] (map_rules r) = xs @ (i, mat, cls, key) # ys"
    by (meson split_list)
  then have "\<exists>a b. map_section r = a @ rule_lines (i, mat, cls, key) @ b"
    using assms(2) by (auto simp: map_section_def Let_def) (metis append_Cons append_assoc)
  then obtain a b where sec: "map_section r = a @ rule_lines (i, mat, cls, key) @ b" by blast
  have "r \<in> set (sort_key rp_map reports)" using assms(1) by simp
  then obtain us vs where "sort_key rp_map reports = us @ r # vs" by (meson split_list)
  then have "strip_header @ concat (map map_section (sort_key rp_map reports)) @ [''}'', []] =
      (strip_header @ concat (map map_section us) @ a) @ rule_lines (i, mat, cls, key)
        @ (b @ concat (map map_section vs) @ [''}'', []])"
    by (simp add: sec)
  then show ?thesis unfolding write_strip_config_def by metis
qed

lemma printed_map:
  assumes "audit_main namelist errtext read bsps maps_dir index quiet strip stub = Inr out"
    and "p \<in> set (audit_paths bsps maps_dir)"
    and "l \<in> set (map_lines namelist errtext (map_option load_content_index index) quiet (p, read p))"
  shows "l \<in> set (au_printed out)"
  using assms by (auto simp: audit_main_def Let_def split: if_splits)

lemma printed_finding:
  assumes "audit_main namelist errtext read bsps maps_dir index quiet strip stub = Inr out"
    and "r \<in> set (au_reports out)" and "f \<in> set (rp_missing r)"
  shows "finding_line f \<in> set (au_printed out)"
proof -
  obtain p where p: "p \<in> set (audit_paths bsps maps_dir)"
    "audit namelist (map_option load_content_index index) (p, read p) = Inr r"
    using assms(2) audit_main_reports [OF assms(1)] by (auto simp: mem_audit_all)
  have "finding_line f \<in> set (report_lines quiet r)" using assms(3) by (auto simp: report_lines_def)
  with printed_map [OF assms(1) p(1)] p(2) show ?thesis by (simp add: map_lines_def)
qed

section \<open>Properties\<close>

text \<open>
  C24.  Every finding of a run is printed and dealt with: with a strip file and a
  stub directory asked for, a finding that is not labelled strippable has its
  stub written, each of its reasons other than a brush face has its rule in the
  strip file, unless the entity is \<open>worldspawn\<close>, and no rule strips \<open>worldspawn\<close>.
\<close>

theorem printed_findings_are_dealt_with:
  assumes "audit_main namelist errtext read bsps maps_dir index quiet True True = Inr out"
    and "r \<in> set (au_reports out)" and "(mat, reasons) \<in> set (rp_missing r)"
  shows "finding_line (mat, reasons) \<in> set (au_printed out)
    \<and> (\<not> strippable reasons \<longrightarrow> (\<exists>stubs. au_stubs out = Some stubs \<and> one_slash mat @ ''.vmt'' \<in> fst ` set stubs))
    \<and> (\<forall>reason \<in> set reasons. reason = ''brush face'' \<or> (\<exists>cls key. reason = cls @ CHR ''.'' # key \<and>
         (cls = ''worldspawn'' \<or> (\<exists>pre i post. au_strip out = Some (join_lines (pre @ rule_lines (i, mat, cls, key) @ post))))))
    \<and> (\<forall>key. (mat, ''worldspawn'', key) \<notin> set (map_rules r))"
proof -
  obtain m where m: "audit namelist (map_option load_content_index index) m = Inr r"
    using assms(2) audit_main_reports [OF assms(1)] by (auto simp: mem_audit_all)
  note dealt = findings_are_dealt_with [OF m assms(2,3)]
  have out: "au_strip out = Some (write_strip_config (au_reports out))" "au_stubs out = Some (write_stubs (au_reports out))"
    using assms(1) by (auto simp: audit_main_def Let_def split: if_splits)
  have "reason = ''brush face'' \<or> (\<exists>cls key. reason = cls @ CHR ''.'' # key \<and>
      (cls = ''worldspawn'' \<or> (\<exists>pre i post. au_strip out = Some (join_lines (pre @ rule_lines (i, mat, cls, key) @ post)))))"
    if "reason \<in> set reasons" for reason
    using dealt [OF that] rule_in_config [OF assms(2)] out(1) by fastforce
  moreover have "one_slash mat @ ''.vmt'' \<in> fst ` set (write_stubs (au_reports out))" if "\<not> strippable reasons"
    using that stub_written [OF assms(2,3)] by (auto simp: strippable_def)
  moreover have "(mat, ''worldspawn'', key) \<notin> set (map_rules r)" for key
    using no_worldspawn_rule .
  ultimately show ?thesis using printed_finding [OF assms] out(2) by blast
qed

lemma sample_brick:
  "\<exists>r. audit (\<lambda>_. None) (Some {''stock''}) (''maps/m.bsp'', bsp_file 20 sample_lumps) = Inr r
    \<and> (''brick'', [''brush face'']) \<in> set (rp_missing r)"
proof -
  obtain r where r: "audit (\<lambda>_. None) (Some {''stock''}) (''maps/m.bsp'', bsp_file 20 sample_lumps) = Inr r"
    and iff: "\<And>mat reasons. (mat, reasons) \<in> set (rp_missing r) \<longleftrightarrow>
         \<not> resolved (pak_names (\<lambda>_. None) (sample_lumps ! LUMP_PAKFILE)) (Some {''stock''}) mat \<and> reasons \<noteq> []
           \<and> set reasons = reasons_for [''Brick'', ''TOOLS/trigger'']
              [[(''classname'', ''infodecal''), (''texture'', ''decals/rug.vmt'')]] mat
           \<and> sorted reasons \<and> distinct reasons"
    using audit_map [OF sample_holds, of "\<lambda>_. None" "Some {''stock''}" "''maps/m.bsp''"] by blast
  have "(''brick'', [''brush face'']) \<in> set (rp_missing r)"
    unfolding iff using sample_unresolved by (simp add: sample_reasons)
  with r show ?thesis by blast
qed

lemma sample_index: "load_content_index ''stock'' = {''stock''}"
  by code_simp

theorem printed_findings_are_dealt_with_witness:
  "\<exists>out stubs. audit_main (\<lambda>_. None) (\<lambda>_. []) (\<lambda>_. bsp_file 20 sample_lumps) [] (Some [(''maps'', [''m.bsp'', ''m.nav''])])
      (Some ''stock'') False True True = Inr out
    \<and> ''    '' @ ljust 44 ''brick'' @ '' '' @ ljust 28 ''brush face'' @ '' needs stub material'' \<in> set (au_printed out)
    \<and> au_stubs out = Some stubs \<and> ''brick.vmt'' \<in> fst ` set stubs"
proof -
  have p: "audit_paths [] (Some [(''maps'', [''m.bsp'', ''m.nav''])]) = [''maps/m.bsp'']" by code_simp
  then obtain out where o: "audit_main (\<lambda>_. None) (\<lambda>_. []) (\<lambda>_. bsp_file 20 sample_lumps) []
      (Some [(''maps'', [''m.bsp'', ''m.nav''])]) (Some ''stock'') False True True = Inr out"
    using audit_main_total by (metis list.distinct(1))
  obtain r where r: "audit (\<lambda>_. None) (Some {''stock''}) (''maps/m.bsp'', bsp_file 20 sample_lumps) = Inr r"
    "(''brick'', [''brush face'']) \<in> set (rp_missing r)" using sample_brick by blast
  have "r \<in> set (au_reports out)"
    using audit_main_reports [OF o] r(1) by (auto simp: mem_audit_all p sample_index)
  note found = printed_findings_are_dealt_with [OF o this r(2)]
  have "\<not> strippable [''brush face'']" "one_slash ''brick'' @ ''.vmt'' = ''brick.vmt''"
    "finding_line (''brick'', [''brush face'']) =
       ''    '' @ ljust 44 ''brick'' @ '' '' @ ljust 28 ''brush face'' @ '' needs stub material''"
    by code_simp+
  with found o show ?thesis by auto
qed

text \<open>
  C25.  A map that cannot be read costs its own report only: naming it beside other
  maps gives the same reports, strip file and stubs as leaving it out, and a line
  with its name and the error.
\<close>

theorem unreadable_map_is_isolated:
  assumes "audit namelist (map_option load_content_index index) (p, read p) = Inl e"
    and "audit_main namelist errtext read bsps maps_dir index quiet strip stub = Inr out"
  shows "\<exists>out'. audit_main namelist errtext read (p # bsps) maps_dir index quiet strip stub = Inr out'
    \<and> au_reports out' = au_reports out \<and> au_strip out' = au_strip out \<and> au_stubs out' = au_stubs out
    \<and> ljust 34 (basename p) @ '' ERROR '' @ errtext e \<in> set (au_printed out')"
proof -
  have p: "audit_paths (p # bsps) maps_dir = p # audit_paths bsps maps_dir" by (simp add: audit_paths_def)
  then obtain out' where o': "audit_main namelist errtext read (p # bsps) maps_dir index quiet strip stub = Inr out'"
    using audit_main_total [of "p # bsps" maps_dir] by fastforce
  have r: "au_reports out' = au_reports out"
    using audit_main_reports [OF o'] audit_main_reports [OF assms(2)] unreadable_report [OF assms(1)] by (simp add: p)
  have "au_strip out' = au_strip out \<and> au_stubs out' = au_stubs out"
    using r o' assms(2) by (auto simp: audit_main_def Let_def split: if_splits)
  moreover have "ljust 34 (basename p) @ '' ERROR '' @ errtext e \<in>
      set (map_lines namelist errtext (map_option load_content_index index) quiet (p, read p))"
    using assms(1) by (simp add: map_lines_def)
  then have "ljust 34 (basename p) @ '' ERROR '' @ errtext e \<in> set (au_printed out')"
    by (rule printed_map [OF o', rotated]) (simp add: p)
  ultimately show ?thesis using o' r by blast
qed

theorem unreadable_map_is_isolated_witness:
  "\<exists>out out'. audit_main (\<lambda>_. None) (\<lambda>_. ''cut short'') (\<lambda>_. []) [''a.bsp''] None None True False False = Inr out
    \<and> audit_main (\<lambda>_. None) (\<lambda>_. ''cut short'') (\<lambda>_. []) [''maps/b.bsp'', ''a.bsp''] None None True False False = Inr out'
    \<and> au_reports out' = au_reports out \<and> ljust 34 ''b.bsp'' @ '' ERROR '' @ ''cut short'' \<in> set (au_printed out')"
proof -
  obtain out where o: "audit_main (\<lambda>_. None) (\<lambda>_. ''cut short'') (\<lambda>_. []) [''a.bsp''] None None True False False = Inr out"
    using audit_main_total [of "[''a.bsp'']" None] by (fastforce simp: audit_paths_def)
  have e: "audit (\<lambda>_. None) (map_option load_content_index None) (''maps/b.bsp'', []) = Inl NotVbsp"
    by code_simp
  have b: "basename ''maps/b.bsp'' = ''b.bsp''" by code_simp
  from unreadable_map_is_isolated [OF e o] o show ?thesis unfolding b by blast
qed

end
