(* ===== verification/ContentIndex.thy ===== *)
theory ContentIndex
  imports VpkReaders BspAudit
begin

text \<open>
  The list of materials a client has (\<open>tools/bspaudit/collect_content_index.py\<close>):
  scanning game and workshop folders for VPKs and loose files, finding the Steam
  libraries, and writing the list that the audit loads.  Paths are POSIX paths.
\<close>

section \<open>Scanning\<close>

definition normalise :: "string \<Rightarrow> string option" where
  "normalise p =
     (let p = lstrip_slash (posix (py_lower p))
      in if \<not> suffix ''.vmt'' p then None
         else Some (drop_prefix ''materials/'' (take (length p - 4) p)))"

text \<open>\<open>if n: out.add(n)\<close>\<close>

definition entry_names :: "string \<Rightarrow> string set" where
  "entry_names p = (case normalise p of None \<Rightarrow> {} | Some n \<Rightarrow> if n = [] then {} else {n})"

definition is_dir_vpk :: "string \<Rightarrow> bool" where
  "is_dir_vpk low \<longleftrightarrow> suffix ''_dir.vpk'' low \<or> suffix ''.vpk'' low \<and> \<not> sublist ''_0'' low"

text \<open>\<open>rel[i:]\<close> from the first \<open>materials/\<close>, or all of it.\<close>

fun from_materials :: "string \<Rightarrow> string option" where
  "from_materials [] = None"
| "from_materials (c # cs) =
     (if prefix ''materials/'' (py_lower (c # cs)) then Some (c # cs) else from_materials cs)"

definition scan_file :: "content \<Rightarrow> string \<Rightarrow> string \<Rightarrow> string set" where
  "scan_file c dirpath fn =
     (let rel = rel_path dirpath fn; low = py_lower fn
      in if is_dir_vpk low then \<Union> (entry_names ` set (vpk_entries (read_file c rel)))
         else if suffix ''.vmt'' low
         then entry_names (case from_materials rel of None \<Rightarrow> rel | Some r \<Rightarrow> r)
         else {})"

definition scan_dir :: "content \<Rightarrow> string set \<Rightarrow> string set" where
  "scan_dir c out =
     foldl (\<lambda>out (dirpath, filenames). foldl (\<lambda>out fn. out \<union> scan_file c dirpath fn) out filenames)
       out (walk_dirs c)"

section \<open>Steam libraries\<close>

text \<open>\<open>os.path.normpath\<close>, as POSIX has it.\<close>

definition norm_comp :: "bool \<Rightarrow> string list \<Rightarrow> string \<Rightarrow> string list" where
  "norm_comp rooted comps part =
     (if part = [] \<or> part = ''.'' then comps
      else if part \<noteq> ''..'' \<or> \<not> rooted \<and> comps = [] \<or> comps \<noteq> [] \<and> last comps = ''..'' then comps @ [part]
      else butlast comps)"

definition normpath :: "string \<Rightarrow> string" where
  "normpath path =
     (let slashes = (if \<not> prefix ''/'' path then []
                     else if prefix ''//'' path \<and> \<not> prefix ''///'' path then ''//'' else ''/'');
          p = slashes @ join_with (CHR ''/'') (foldl (norm_comp (slashes \<noteq> [])) [] (split_on (CHR ''/'') path))
      in if p = [] then ''.'' else p)"

text \<open>\<open>"([^"]*)"\s+"([^"]*)"\<close>\<close>

definition match_vdf :: "string \<Rightarrow> ((string \<times> string) \<times> string) option" where
  "match_vdf s =
     obind (take_quoted dquote s) (\<lambda>(key, s).
     obind (take_spaces s) (\<lambda>s.
     obind (take_quoted dquote s) (\<lambda>(v, s). Some ((key, v), s))))"

text \<open>\<open>value.replace("\\\\", "\\")\<close>: each pair of backslashes, from the left.\<close>

fun unescape :: "string \<Rightarrow> string" where
  "unescape [] = []"
| "unescape [c] = [c]"
| "unescape (c # d # cs) =
     (if c = backslash \<and> d = backslash then backslash # unescape cs else c # unescape (d # cs))"

definition vdf_libs :: "(string \<Rightarrow> bool) \<Rightarrow> string \<Rightarrow> string list" where
  "vdf_libs isdir t =
     map (\<lambda>(key, v). normpath (unescape v))
       (filter (\<lambda>(key, v). (key = ''path'' \<or> py_isdigit key) \<and> isdir (unescape v)) (find_all match_vdf t))"

text \<open>
  The file system is its directories and the texts of its \<open>.vdf\<close> files; a file
  that cannot be opened is one that is not there.
\<close>

definition library_folders :: "(string \<Rightarrow> bool) \<Rightarrow> (string \<Rightarrow> string option) \<Rightarrow> string \<Rightarrow> string list" where
  "library_folders isdir vdf steam_root =
     dedupe {} (steam_root # concat (map (\<lambda>f. case vdf (py_join steam_root f) of None \<Rightarrow> [] | Some t \<Rightarrow> vdf_libs isdir t)
       [''steamapps/libraryfolders.vdf'', ''config/libraryfolders.vdf'']))"

definition GAME_FOLDER :: string where "GAME_FOLDER = ''insurgency2''"
definition APP :: string where "APP = ''222880''"

definition autodetect ::
  "(string \<Rightarrow> bool) \<Rightarrow> (string \<Rightarrow> string option) \<Rightarrow> string list \<Rightarrow> string list \<times> string list" where
  "autodetect isdir vdf steam_roots =
     (let libs = concat (map (library_folders isdir vdf) steam_roots)
      in (dedupe {} (filter isdir (map (\<lambda>lib. py_join lib (''steamapps/common/'' @ GAME_FOLDER)) libs)),
          dedupe {} (filter isdir (map (\<lambda>lib. py_join lib (''steamapps/workshop/content/'' @ APP)) libs))))"

section \<open>The list\<close>

definition index_header :: string where
  "index_header =
     ''# material paths resolvable by this client, no '' @ squote # ''materials/'' @ squote # '' prefix, no ''
       @ squote # ''.vmt'' @ [squote]"

definition index_text :: "string set \<Rightarrow> string" where
  "index_text out = join_lines (index_header # sorted_list_of_set out @ [[]])"

definition collect_index :: "content list \<Rightarrow> content list \<Rightarrow> string" where
  "collect_index games shops =
     index_text (foldl (\<lambda>out d. scan_dir d out) (foldl (\<lambda>out d. scan_dir d out) {} games) shops)"

section \<open>The audit loads what the collector writes\<close>

definition index_name :: "string \<Rightarrow> bool" where
  "index_name n \<longleftrightarrow>
     n \<noteq> [] \<and> newline \<notin> set n \<and> py_strip n = n \<and> py_lower n = n \<and> posix n = n
       \<and> \<not> prefix ''#'' n \<and> \<not> prefix ''materials/'' n \<and> \<not> suffix ''.vmt'' n"

lemma index_line_name: "index_name n \<Longrightarrow> index_line n = Some n"
  by (simp add: index_name_def index_line_def Let_def drop_prefix_def drop_suffix_def)

lemma index_line_header: "index_line index_header = None"
  by code_simp

lemma index_line_Nil: "index_line [] = None"
  by code_simp

lemma load_index_text:
  assumes "finite out"
  shows "load_content_index (index_text out) = {n. \<exists>m \<in> out. \<exists>l \<in> set (lines_of m). index_line l = Some n}"
proof -
  have "lines_of (index_text out) = index_header # concat (map lines_of (sorted_list_of_set out)) @ [[]]"
    unfolding index_text_def by (subst split_join_concat) (simp_all add: split_on_none index_header_def)
  then show ?thesis
    using assms by (force simp: load_content_index_def List.map_filter_def index_line_header index_line_Nil)
qed

lemma load_index_mem:
  "finite out \<Longrightarrow> n \<in> out \<Longrightarrow> index_name n \<Longrightarrow> n \<in> load_content_index (index_text out)"
  by (auto simp: load_index_text index_name_def split_on_none index_line_name intro!: bexI [of _ n])

lemma load_index_exact:
  "finite out \<Longrightarrow> \<forall>n \<in> out. index_name n \<Longrightarrow> load_content_index (index_text out) = out"
  by (auto simp: load_index_text split_on_none index_line_name index_name_def)

section \<open>The audit names materials as the collector does\<close>

lemma agree:
  assumes "normalise p = Some n" and "py_strip p = p"
  shows "normalise_material p = n"
proof -
  let ?p = "lstrip_slash (posix (py_lower p))"
  from assms(1) obtain u where u: "?p = u @ ''.vmt''" "n = drop_prefix ''materials/'' u"
    by (auto simp: normalise_def Let_def suffix_def split: if_splits)
  have "drop_suffix ''.vmt'' (drop_prefix ''materials/'' (u @ ''.vmt'')) = drop_prefix ''materials/'' u"
  proof (cases "prefix ''materials/'' u")
    case True
    then obtain y where "u = ''materials/'' @ y" by (rule prefixE)
    then show ?thesis by (simp add: drop_prefix_def drop_suffix_def suffix_def)
  next
    case False
    have "\<not> prefix ''materials/'' (u @ ''.vmt'')"
    proof
      assume "prefix ''materials/'' (u @ ''.vmt'')"
      with False obtain q where q: "''materials/'' = u @ q" "prefix q ''.vmt''" by (auto simp: prefix_append)
      with False have "CHR ''.'' \<in> set q" by (cases q) auto
      then have "CHR ''.'' \<in> set ''materials/''" unfolding q(1) by simp
      then show False by simp
    qed
    with False show ?thesis by (simp add: drop_prefix_def drop_suffix_def suffix_def)
  qed
  then show ?thesis by (simp add: normalise_material_def assms(2) u Let_def)
qed

lemma entry_names_material: "index_name n \<Longrightarrow> entry_names (''materials/'' @ n @ ''.vmt'') = {n}"
proof -
  assume n: "index_name n"
  have "posix (py_lower (''materials/'' @ n @ ''.vmt'')) = ''materials/'' @ n @ ''.vmt''"
    using n by (simp add: index_name_def) (simp add: py_lower_def lower_char_def posix_def)
  then have "normalise (''materials/'' @ n @ ''.vmt'') = Some n"
    by (simp add: normalise_def Let_def lstrip_slash_def suffix_def drop_prefix_def)
  with n show ?thesis by (simp add: entry_names_def index_name_def)
qed

section \<open>What a scan finds\<close>

lemma scan_dir_eq:
  "scan_dir c out = out \<union> (\<Union>(d, fs) \<in> set (walk_dirs c). \<Union>f \<in> set fs. scan_file c d f)"
proof -
  have "foldl (\<lambda>out fn. out \<union> scan_file c d fn) out fs = out \<union> (\<Union>f \<in> set fs. scan_file c d f)" for out d fs
    by (induction fs arbitrary: out) auto
  then have f: "(\<lambda>out (d, fs). foldl (\<lambda>out fn. out \<union> scan_file c d fn) out fs) =
      (\<lambda>out (d, fs). out \<union> (\<Union>f \<in> set fs. scan_file c d f))"
    by (auto simp: fun_eq_iff)
  have "foldl (\<lambda>out (d, fs). out \<union> (\<Union>f \<in> set fs. scan_file c d f)) out ws =
      out \<union> (\<Union>(d, fs) \<in> set ws. \<Union>f \<in> set fs. scan_file c d f)" for ws
    by (induction ws arbitrary: out) auto
  then show ?thesis by (simp add: scan_dir_def f)
qed

lemma finite_scan_dir: "finite out \<Longrightarrow> finite (scan_dir c out)"
proof -
  have "finite (entry_names p)" for p by (simp add: entry_names_def split: option.split)
  then have "finite (scan_file c d f)" for d f by (auto simp: scan_file_def Let_def)
  moreover assume "finite out"
  ultimately show ?thesis by (auto simp: scan_dir_eq)
qed

text \<open>
  A lone VPK with \<open>_0\<close> in its name is taken for a numbered archive and nothing of
  it is listed.
\<close>

lemma zero_named_vpk_is_skipped:
  "suffix ''.vpk'' (py_lower fn) \<Longrightarrow> \<not> suffix ''_dir.vpk'' (py_lower fn) \<Longrightarrow> sublist ''_0'' (py_lower fn) \<Longrightarrow>
     scan_file c dirpath fn = {}"
  by (auto simp: scan_file_def Let_def is_dir_vpk_def suffix_def)

definition scan_all :: "content list \<Rightarrow> string set" where
  "scan_all ds = foldl (\<lambda>out d. scan_dir d out) {} ds"

lemma scan_all_eq: "scan_all ds = (\<Union>d \<in> set ds. scan_dir d {})"
proof -
  have "foldl (\<lambda>out d. scan_dir d out) out ds = out \<union> (\<Union>d \<in> set ds. scan_dir d {})" for out
    by (induction ds arbitrary: out) (auto simp: scan_dir_eq)
  then show ?thesis by (simp add: scan_all_def)
qed

lemma collect_index_all: "collect_index games shops = index_text (scan_all (games @ shops))"
  by (simp add: collect_index_def scan_all_def)

lemma finite_scan_all: "finite (scan_all ds)"
  by (auto simp: scan_all_eq finite_scan_dir)

lemma scanned_file:
  "d \<in> set ds \<Longrightarrow> (dirpath, filenames) \<in> set (walk_dirs d) \<Longrightarrow> fn \<in> set filenames \<Longrightarrow>
     n \<in> scan_file d dirpath fn \<Longrightarrow> n \<in> scan_all ds"
  by (fastforce simp: scan_all_eq scan_dir_eq)

section \<open>Properties\<close>

text \<open>
  The two halves of the audit agree on names: what the collector makes of a
  path is what the audit makes of it, and the audit loads exactly the names the
  collector wrote.
\<close>

lemma audit_loads_what_was_collected:
  assumes "\<forall>n \<in> scan_all (games @ shops). index_name n"
  shows "load_content_index (collect_index games shops) = scan_all (games @ shops)
    \<and> (normalise p = Some n \<and> py_strip p = p \<longrightarrow> normalise_material p = n)"
  using assms agree by (auto simp: collect_index_all load_index_exact finite_scan_all)

end
