(* ===== verification/ContentMain.thy ===== *)
theory ContentMain
  imports ContentIndex
begin

text \<open>
  Where the collector looks (\<open>main\<close> of \<open>tools/bspaudit/collect_content_index.py\<close>):
  the Steam installations of a POSIX system, the libraries they name, the game and
  workshop folders in them, and the command that scans these folders or those it
  is given.  The second half is about the \<open>libraryfolders.vdf\<close> files: the pairs the
  regular expression finds are the pairs of the file.
\<close>

section \<open>Steam installations\<close>

text \<open>
  The machine: the home directory, which paths are directories, the text of each
  \<open>.vdf\<close> file that can be opened, and what walking a directory yields.
\<close>

record client =
  cl_home :: string
  cl_isdir :: "string \<Rightarrow> bool"
  cl_vdf :: "string \<Rightarrow> string option"
  cl_tree :: "string \<Rightarrow> content"

text \<open>\<open>os.path.expanduser\<close> of \<open>~\<close> and what follows it.\<close>

definition expanduser :: "string \<Rightarrow> string \<Rightarrow> string" where
  "expanduser home rest = rev (dropWhile (\<lambda>c. c = CHR ''/'') (rev home)) @ rest"

definition steam_guesses :: "string \<Rightarrow> string list" where
  "steam_guesses home =
     [''C:'' @ backslash # ''Program Files (x86)'' @ backslash # ''Steam'',
      ''C:'' @ backslash # ''Program Files'' @ backslash # ''Steam'',
      expanduser home ''/.steam/steam'',
      expanduser home ''/.local/share/Steam'',
      expanduser home ''/Library/Application Support/Steam'']"

definition steam_roots :: "client \<Rightarrow> string list" where
  "steam_roots c = dedupe {} (map normpath (filter (cl_isdir c) (steam_guesses (cl_home c))))"

section \<open>The command\<close>

text \<open>
  With no game folder the command lists the installations it looked in and exits;
  otherwise it writes the list.
\<close>

definition collect_main :: "client \<Rightarrow> string list \<Rightarrow> string list \<Rightarrow> string list + string" where
  "collect_main c game_dir workshop_dir =
     (let (auto_game, auto_shop) =
            (if game_dir = [] \<or> workshop_dir = [] then autodetect (cl_isdir c) (cl_vdf c) (steam_roots c) else ([], []));
          games = (if game_dir \<noteq> [] then game_dir else auto_game);
          shops = (if workshop_dir \<noteq> [] then workshop_dir else auto_shop)
      in if games = [] then Inl (steam_roots c)
         else Inr (collect_index (map (cl_tree c) games) (map (cl_tree c) shops)))"

section \<open>The text of a \<open>.vdf\<close> file\<close>

text \<open>
  A pair, with what stands before it and between its halves, or the name of a
  block with what opens it; braces are part of what stands between.
\<close>

datatype vdf_part =
    Entry string string string string
  | Opening string string string

fun part_text :: "vdf_part \<Rightarrow> string" where
  "part_text (Entry gap key ws v) = gap @ dquote # key @ dquote # ws @ dquote # v @ [dquote]"
| "part_text (Opening gap key brace) = gap @ dquote # key @ dquote # brace"

definition vdf_text :: "vdf_part list \<Rightarrow> string \<Rightarrow> string" where
  "vdf_text ps tail = concat (map part_text ps) @ tail"

text \<open>No quotes inside, no key that starts with a blank, and a block is opened by something visible.\<close>

definition unquoted :: "string \<Rightarrow> bool" where
  "unquoted s \<longleftrightarrow> dquote \<notin> set s"

definition good_key :: "string \<Rightarrow> bool" where
  "good_key key \<longleftrightarrow> unquoted key \<and> (key = [] \<or> \<not> py_isspace (hd key))"

fun good_part :: "vdf_part \<Rightarrow> bool" where
  "good_part (Entry gap key ws v) \<longleftrightarrow>
     unquoted gap \<and> good_key key \<and> ws \<noteq> [] \<and> list_all py_isspace ws \<and> unquoted v"
| "good_part (Opening gap key brace) \<longleftrightarrow>
     unquoted gap \<and> good_key key \<and> unquoted brace \<and> \<not> list_all py_isspace brace"

fun part_pairs :: "vdf_part \<Rightarrow> (string \<times> string) list" where
  "part_pairs (Entry gap key ws v) = [(key, v)]"
| "part_pairs (Opening gap key brace) = []"

lemma skip_unquoted: "unquoted g \<Longrightarrow> find_all match_vdf (g @ s) = find_all match_vdf s"
  by (rule find_all_skips) (auto simp: unquoted_def match_vdf_def take_quoted_def)

lemma quote_no_space [simp]: "\<not> py_isspace dquote"
  by code_simp

lemma match_entry:
  assumes "good_part (Entry gap key ws v)"
  shows "match_vdf (dquote # key @ dquote # ws @ dquote # v @ dquote # s) = Some ((key, v), s)"
proof -
  have "dropWhile py_isspace (ws @ dquote # v @ dquote # s) = dquote # v @ dquote # s"
    using assms by (simp add: dropWhile_append2 list_all_iff)
  with assms show ?thesis
    by (auto simp: match_vdf_def good_key_def unquoted_def take_spaces_def list_all_iff neq_Nil_conv)
qed

lemma match_opening:
  assumes "good_part (Opening gap key brace)"
  shows "match_vdf (dquote # key @ dquote # brace @ s) = None"
proof -
  obtain a c b where b: "brace = a @ c # b" "list_all py_isspace a" "\<not> py_isspace c"
    using assms split_list_first_prop [of brace "\<lambda>c. \<not> py_isspace c"] by (fastforce simp: list_all_iff)
  then have "dropWhile py_isspace (brace @ s) = c # b @ s"
    by (simp add: dropWhile_append2 list_all_iff)
  moreover have "c \<noteq> dquote" using assms b(1) by (auto simp: unquoted_def)
  ultimately show ?thesis
    using assms by (simp add: match_vdf_def good_key_def unquoted_def take_spaces_def)
qed

text \<open>From the end of a block's name no pair can start: the next name follows its quote at once.\<close>

lemma match_misaligned:
  assumes "unquoted b" and "\<forall>p \<in> set ps. good_part p" and "unquoted tail"
  shows "match_vdf (dquote # b @ vdf_text ps tail) = None"
proof (cases ps)
  case Nil
  have "dropWhile (\<lambda>x. x \<noteq> dquote) (b @ tail) = []"
    using assms(1,3) by (simp add: unquoted_def) blast
  then have "take_quoted dquote (dquote # b @ tail) = None"
    by (simp del: dropWhile_append dropWhile_eq_Nil_conv add: take_quoted_def)
  with Nil show ?thesis by (simp add: match_vdf_def vdf_text_def)
next
  case (Cons p ps')
  then obtain gap key rest where r: "vdf_text ps tail = gap @ dquote # key @ dquote # rest" "unquoted gap" "good_key key"
    using assms(2) by (cases p) (auto simp: vdf_text_def)
  then have "take_quoted dquote (dquote # (b @ gap) @ dquote # key @ dquote # rest) = Some (b @ gap, key @ dquote # rest)"
    using assms(1) by (intro take_quoted_run) (simp add: unquoted_def)
  moreover have "take_spaces (key @ dquote # rest) = None"
    using r(3) by (cases key) (auto simp: take_spaces_def good_key_def)
  ultimately show ?thesis by (simp add: r(1) match_vdf_def)
qed

lemma find_vdf:
  assumes "\<forall>p \<in> set ps. good_part p" and "unquoted tail"
  shows "find_all match_vdf (vdf_text ps tail) = concat (map part_pairs ps)"
  using assms(1)
proof (induction ps)
  case Nil
  then show ?case using skip_unquoted [OF assms(2), of "[]"] by (simp add: vdf_text_def)
next
  case (Cons p ps)
  show ?case
  proof (cases p)
    case (Entry gap key ws v)
    with Cons.prems have "match_vdf (dquote # key @ dquote # ws @ dquote # v @ dquote # vdf_text ps tail)
        = Some ((key, v), vdf_text ps tail)"
      by (intro match_entry) auto
    with Cons Entry show ?thesis
      by (simp add: vdf_text_def skip_unquoted find_all_match)
  next
    case (Opening gap key brace)
    with Cons.prems have b: "unquoted brace" "unquoted key" "unquoted gap" by (auto simp: good_key_def)
    have 1: "match_vdf (dquote # key @ dquote # brace @ vdf_text ps tail) = None"
      using Cons.prems Opening by (intro match_opening) auto
    have 2: "match_vdf (dquote # brace @ vdf_text ps tail) = None"
      using Cons.prems assms(2) b(1) by (intro match_misaligned) auto
    have "find_all match_vdf (vdf_text (p # ps) tail) = find_all match_vdf (vdf_text ps tail)"
      using 1 2 b by (simp add: Opening vdf_text_def skip_unquoted find_all_skip)
    with Cons Opening show ?thesis by simp
  qed
qed

section \<open>What the machine names is scanned\<close>

text \<open>How Steam writes a path: every backslash twice.\<close>

fun escape :: "string \<Rightarrow> string" where
  "escape [] = []"
| "escape (c # cs) = (if c = backslash then [backslash, backslash] else [c]) @ escape cs"

lemma unescape_other: "c \<noteq> backslash \<Longrightarrow> unescape (c # s) = c # unescape s"
  by (cases s) auto

lemma unescape_escape [simp]: "unescape (escape s) = s"
  by (induction s) (auto simp: unescape_other)

text \<open>A file of an installation names a library, among whatever other blocks and pairs.\<close>

definition names_library :: "client \<Rightarrow> string \<Rightarrow> string \<Rightarrow> bool" where
  "names_library c root lib \<longleftrightarrow>
     (\<exists>f \<in> {''steamapps/libraryfolders.vdf'', ''config/libraryfolders.vdf''}. \<exists>ps tail gap key ws.
        cl_vdf c (py_join root f) = Some (vdf_text ps tail) \<and> (\<forall>p \<in> set ps. good_part p) \<and> unquoted tail \<and>
        Entry gap key ws (escape lib) \<in> set ps \<and> (key = ''path'' \<or> py_isdigit key))"

definition game_folder :: "string \<Rightarrow> string" where
  "game_folder lib = py_join lib (''steamapps/common/'' @ GAME_FOLDER)"

lemma named_library:
  assumes "names_library c root lib" and "cl_isdir c lib"
  shows "normpath lib \<in> set (library_folders (cl_isdir c) (cl_vdf c) root)"
proof -
  from assms(1) obtain f ps tail gap key ws where
    f: "f \<in> {''steamapps/libraryfolders.vdf'', ''config/libraryfolders.vdf''}"
      "cl_vdf c (py_join root f) = Some (vdf_text ps tail)"
    and ps: "\<forall>p \<in> set ps. good_part p" "unquoted tail"
    and e: "Entry gap key ws (escape lib) \<in> set ps" "key = ''path'' \<or> py_isdigit key"
    unfolding names_library_def by blast
  have "(key, escape lib) \<in> set (find_all match_vdf (vdf_text ps tail))"
    using find_vdf [OF ps] e(1) by force
  with e(2) assms(2) have "normpath lib \<in> set (vdf_libs (cl_isdir c) (vdf_text ps tail))"
    by (force simp: vdf_libs_def)
  with f show ?thesis by (auto simp: library_folders_def set_dedupe)
qed

lemma autodetect_games:
  "g \<in> set (fst (autodetect isdir vdf roots)) \<longleftrightarrow>
     isdir g \<and> (\<exists>root \<in> set roots. \<exists>lib \<in> set (library_folders isdir vdf root).
       g = game_folder lib)"
  by (auto simp: autodetect_def game_folder_def Let_def set_dedupe)

lemma collected:
  assumes "g \<in> set games" and "n \<in> scan_dir (t g) {}" and "index_name n"
  shows "n \<in> load_content_index (collect_index (map t games) (map t shops))"
proof -
  have "n \<in> scan_all (map t games @ map t shops)" using assms(1,2) by (auto simp: scan_all_eq)
  then show ?thesis
    unfolding collect_index_all using finite_scan_all assms(3) by (intro load_index_mem)
qed

lemma collect_main_default:
  "collect_main c [] shops =
     (let games = fst (autodetect (cl_isdir c) (cl_vdf c) (steam_roots c));
          shops' = (if shops \<noteq> [] then shops else snd (autodetect (cl_isdir c) (cl_vdf c) (steam_roots c)))
      in if games = [] then Inl (steam_roots c) else Inr (collect_index (map (cl_tree c) games) (map (cl_tree c) shops')))"
  by (simp add: collect_main_def split_def Let_def)

text \<open>Without a folder to scan, the command exits exactly when no library has the game.\<close>

lemma exits_without_the_game:
  "collect_main c [] shops = Inl roots \<longleftrightarrow>
     roots = steam_roots c \<and>
     (\<forall>root \<in> set (steam_roots c). \<forall>lib \<in> set (library_folders (cl_isdir c) (cl_vdf c) root).
        \<not> cl_isdir c (game_folder lib))"
proof -
  have "fst (autodetect (cl_isdir c) (cl_vdf c) (steam_roots c)) = [] \<longleftrightarrow>
     (\<forall>root \<in> set (steam_roots c). \<forall>lib \<in> set (library_folders (cl_isdir c) (cl_vdf c) root).
        \<not> cl_isdir c (game_folder lib))"
    using autodetect_games [of _ "cl_isdir c" "cl_vdf c" "steam_roots c"] by (metis empty_iff list.set(1) list.set_intros(1) neq_Nil_conv)
  then show ?thesis by (auto simp: collect_main_default Let_def)
qed

lemma library_is_scanned:
  assumes "root \<in> set (steam_roots c)" and "names_library c root lib" and "cl_isdir c lib"
    and "cl_isdir c (game_folder (normpath lib))"
    and "n \<in> scan_dir (cl_tree c (game_folder (normpath lib))) {}" and "index_name n"
  shows "\<exists>t. collect_main c [] shops = Inr t \<and> n \<in> load_content_index t"
proof -
  have "game_folder (normpath lib) \<in> set (fst (autodetect (cl_isdir c) (cl_vdf c) (steam_roots c)))"
    using assms(1,4) named_library [OF assms(2,3)] by (auto simp: autodetect_games)
  with collected [where t = "cl_tree c", OF this assms(5,6)] show ?thesis
    by (auto simp: collect_main_default Let_def)
qed

section \<open>Properties\<close>


definition two_drives :: client where
  "two_drives = \<lparr>cl_home = ''/home/u/'',
     cl_isdir = (\<lambda>p. p \<in> {''/home/u/.steam/steam'', ''/mnt//games'', ''/mnt/games/steamapps/common/insurgency2''}),
     cl_vdf = (\<lambda>p. if p = ''/home/u/.steam/steam/steamapps/libraryfolders.vdf''
       then Some (vdf_text [Opening [] ''libraryfolders'' ''
{'', Opening ''
'' ''0'' ''
{'', Entry ''
'' ''path'' '' '' ''/mnt//games'', Entry ''
'' ''label'' '' '' [], Opening ''
'' ''apps'' ''
{'', Entry ''
'' ''222880'' '' '' ''9''] ''
}}}'') else None),
     cl_tree = (\<lambda>p. \<lparr>walk_dirs = [(''insurgency/materials/a'', [''b.vmt''])], read_file = \<lambda>_. []\<rparr>)\<rparr>"

lemma two_drives_names: "names_library two_drives ''/home/u/.steam/steam'' ''/mnt//games''"
proof -
  let ?ps = "[Opening [] ''libraryfolders'' ''
{'', Opening ''
'' ''0'' ''
{'', Entry ''
'' ''path'' '' '' ''/mnt//games'', Entry ''
'' ''label'' '' '' [], Opening ''
'' ''apps'' ''
{'', Entry ''
'' ''222880'' '' '' ''9'']"
  have "cl_vdf two_drives (py_join ''/home/u/.steam/steam'' ''steamapps/libraryfolders.vdf'') = Some (vdf_text ?ps ''
}}}'')"
    by (simp add: two_drives_def py_join_def)
  moreover have "\<forall>p \<in> set ?ps. good_part p" "unquoted ''
}}}''" by code_simp+
  moreover have "Entry ''
'' ''path'' '' '' (escape ''/mnt//games'') \<in> set ?ps" by code_simp
  ultimately show ?thesis
    unfolding names_library_def by blast
qed

lemma two_drives_root: "''/home/u/.steam/steam'' \<in> set (steam_roots two_drives)"
  by code_simp


end
