(* ===== verification/VoteScan.thy ===== *)
theory VoteScan
  imports Bsp VpkReaders Matching WorkshopRender
begin

text \<open>
  Reading workshop content for the vote images (the first part of
  \<open>fastdl/tools/mapvote_images.py\<close>): which maps, images and textures a content
  directory holds, and which versions an \<open>appworkshop_222880.acf\<close> records.
\<close>

section \<open>Images\<close>

definition VOTE_DIR :: string where "VOTE_DIR = ''vgui/endroundlobby/maps/''"
definition LOADING_DIR :: string where "LOADING_DIR = ''vgui/maps/''"

definition image_of :: "string \<Rightarrow> string \<Rightarrow> string option" where
  "image_of ext path =
     (let p = posix (py_lower path)
      in if \<not> (prefix ''materials/'' p \<and> suffix ext p) then None
         else let q = drop (length ''materials/'') (take (length p - length ext) p)
              in if prefix VOTE_DIR q \<or> prefix LOADING_DIR q then Some q else None)"

section \<open>Scanning a content directory\<close>

text \<open>\<open>re.search(r"_\d{3}\.vpk$", low)\<close> on a name that ends in \<open>.vpk\<close>.\<close>

definition numbered_vpk :: "string \<Rightarrow> bool" where
  "numbered_vpk low \<longleftrightarrow>
     (let stem = take (length low - 4) low; ds = drop (length stem - 3) stem
      in 4 \<le> length stem \<and> (\<forall>c \<in> set ds. ascii_digit c) \<and> stem ! (length stem - 4) = CHR ''_'')"

text \<open>
  The names one file contributes.  A damaged VPK contributes only its own name.
  For a map the code catches \<open>OSError\<close> and \<open>ValueError\<close> but not \<open>struct.error\<close>,
  so a map that breaks off in its header ends the scan.
\<close>

definition file_names ::
  "(bytes \<Rightarrow> string list option) \<Rightarrow> content \<Rightarrow> string \<times> string \<Rightarrow> byte_error + string set" where
  "file_names namelist c = (\<lambda>(f, rel).
     let name = py_lower rel; low = py_lower f
      in if suffix ''.vpk'' low \<and> \<not> numbered_vpk low
         then (case vpk_names (read_file c rel) of Inl e \<Rightarrow> Inr {name} | Inr ns \<Rightarrow> Inr (insert name ns))
         else if suffix ''.bsp'' low
         then (case read_bsp (read_file c rel) of
                 Inl e \<Rightarrow> if e = NotVbsp then Inr {name} else Inl e
               | Inr b \<Rightarrow> Inr (insert name (packed namelist b)))
         else Inr {name})"

definition walk_files :: "content \<Rightarrow> (string \<times> string) list" where
  "walk_files c = concat (map (\<lambda>(dirpath, files). map (\<lambda>f. (f, rel_path dirpath f)) files) (walk_dirs c))"

definition map_names :: "content \<Rightarrow> string list" where
  "map_names c =
     map (\<lambda>(f, rel). take (length f - 4) (py_lower f)) (filter (\<lambda>(f, rel). suffix ''.bsp'' (py_lower f)) (walk_files c))"

definition images_in :: "string \<Rightarrow> string set \<Rightarrow> string set" where
  "images_in ext names = \<Union> ((\<lambda>n. case image_of ext n of None \<Rightarrow> {} | Some i \<Rightarrow> if i = [] then {} else {i}) ` names)"

definition scan ::
  "(bytes \<Rightarrow> string list option) \<Rightarrow> content \<Rightarrow> byte_error + string list \<times> string list \<times> string list" where
  "scan namelist c =
     rbind (rmap (file_names namelist c) (walk_files c)) (\<lambda>nss.
       let names = \<Union> (set nss)
       in Inr (sorted_list_of_set (set (map_names c)), sorted_list_of_set (images_in ''.vmt'' names),
               sorted_list_of_set (images_in ''.vtf'' names)))"

section \<open>Installed versions\<close>

definition ascii_letter :: "char \<Rightarrow> bool" where
  "ascii_letter c \<longleftrightarrow> (let n = of_char c :: nat in 65 \<le> n \<and> n \<le> 90 \<or> 97 \<le> n \<and> n \<le> 122)"

text \<open>\<open>s.strip('"')\<close>\<close>

definition strip_quotes :: "string \<Rightarrow> string" where
  "strip_quotes s = rev (dropWhile (\<lambda>c. c = dquote) (rev (dropWhile (\<lambda>c. c = dquote) s)))"

definition section_start :: "string \<Rightarrow> bool" where
  "section_start l \<longleftrightarrow>
     (case l of c # d # e # _ \<Rightarrow> c = tab \<and> d = dquote \<and> ascii_letter e | _ \<Rightarrow> False)"

definition match_item :: "string \<Rightarrow> string option" where
  "match_item l =
     obind (expect [tab, tab, dquote] l) (\<lambda>s.
     obind (take_digits s) (\<lambda>(i, s).
     obind (expect [dquote] s) (\<lambda>s. if \<forall>c \<in> set s. py_isspace c then Some i else None)))"

definition match_manifest :: "string \<Rightarrow> (string \<times> string) option" where
  "match_manifest s =
     obind (expect (dquote # ''manifest'' @ [dquote]) s) (\<lambda>s.
     obind (take_spaces s) (\<lambda>s.
     obind (expect [dquote] s) (\<lambda>s.
     obind (take_digits s) (\<lambda>(m, s).
     obind (expect [dquote] s) (\<lambda>s. Some (m, s))))))"

type_synonym acf_state = "string \<times> string option \<times> (string \<times> string) list"

definition acf_line :: "acf_state \<Rightarrow> string \<Rightarrow> acf_state" where
  "acf_line = (\<lambda>(sect, item, out) line.
     let sect = if section_start line then strip_quotes (py_strip line) else sect
     in if sect \<noteq> ''WorkshopItemsInstalled'' then (sect, item, out)
        else let item = (case match_item line of Some i \<Rightarrow> Some i | None \<Rightarrow> item)
             in case (find_first match_manifest line, item) of
                  (Some m, Some i) \<Rightarrow> (sect, item, AList.update i m out)
                | _ \<Rightarrow> (sect, item, out))"

definition acf_manifests :: "string option \<Rightarrow> (string \<times> string) list" where
  "acf_manifests file =
     (case file of None \<Rightarrow> []
      | Some t \<Rightarrow> snd (snd (foldl acf_line ([], None, []) (lines_of t))))"

section \<open>The acf files that render writes\<close>

definition all_digits :: "string \<Rightarrow> bool" where
  "all_digits s \<longleftrightarrow> s \<noteq> [] \<and> (\<forall>c \<in> set s. ascii_digit c)"

lemma not_digit_chars [simp]:
  "\<not> ascii_digit (CHR ''m'')" "\<not> ascii_digit dquote" "\<not> ascii_digit newline" "\<not> ascii_digit tab"
  by (simp_all add: ascii_digit_def digit_value_def)

lemma all_digits_notin: "all_digits s \<Longrightarrow> \<not> ascii_digit c \<Longrightarrow> c \<notin> set s"
  by (auto simp: all_digits_def)

lemma take_digits_all: "all_digits s \<Longrightarrow> take_digits (s @ dquote # t) = Some (s, dquote # t)"
  by (simp add: all_digits_def take_digits_def takeWhile_append2 Let_def)

text \<open>A line without \<open>"m\<close> holds no manifest.\<close>

lemma match_manifest_start: "match_manifest s = Some x \<Longrightarrow> prefix [dquote, CHR ''m''] s"
  by (auto simp: match_manifest_def obind_Some expect_def prefix_def split: if_splits)

lemma no_manifest: "\<not> sublist [dquote, CHR ''m''] l \<Longrightarrow> find_first match_manifest l = None"
proof (induction l)
  case (Cons c l)
  then have "match_manifest (c # l) = None"
    using match_manifest_start [of "c # l"] by (cases "match_manifest (c # l)") (auto intro: prefix_imp_sublist)
  with Cons show ?case by (auto intro: sublist_Cons_right [THEN iffD2])
qed simp

lemma no_m: "CHR ''m'' \<notin> set l \<Longrightarrow> \<not> sublist [dquote, CHR ''m''] l"
  using set_mono_sublist [of "[dquote, CHR ''m'']" l] by auto

lemma find_first_skip: "m (c # l) = None \<Longrightarrow> find_first m (c # l) = find_first m l"
  by simp

lemma match_manifest_other: "c \<noteq> dquote \<Longrightarrow> match_manifest (c # s) = None"
  by (simp add: match_manifest_def expect_def)

text \<open>What each kind of line does to the state inside the installed section.\<close>

lemma installed_line:
  assumes "\<not> section_start l"
  shows "acf_line (''WorkshopItemsInstalled'', item, out) l =
    (let item' = (case match_item l of Some i \<Rightarrow> Some i | None \<Rightarrow> item)
     in case (find_first match_manifest l, item') of
          (Some m, Some i) \<Rightarrow> (''WorkshopItemsInstalled'', item', AList.update i m out)
        | _ \<Rightarrow> (''WorkshopItemsInstalled'', item', out))"
  using assms by (simp add: acf_line_def Let_def)

lemma other_line: "\<not> section_start l \<Longrightarrow> sect \<noteq> ''WorkshopItemsInstalled'' \<Longrightarrow> acf_line (sect, item, out) l = (sect, item, out)"
  by (simp add: acf_line_def)

lemma not_start: "section_start (tab # tab # s) = False" "section_start (tab # CHR ''{'' # s) = False"
  "section_start (tab # CHR ''}'' # s) = False" "section_start [] = False" "c \<noteq> tab \<Longrightarrow> section_start (c # s) = False"
  by (auto simp: section_start_def split: list.split)


lemma int_str_m: "CHR ''m'' \<notin> set (int_str n)"
proof -
  have "\<forall>c \<in> set (int_str n). c = CHR ''-'' \<or> ascii_digit c"
    using digits_ok [of n] digits_ok [of "- n"] by (auto simp: int_str_def)
  then show ?thesis by force
qed

lemma match_item_quoted: "all_digits i \<Longrightarrow> match_item ([tab, tab] @ quoted i) = Some i"
  using take_digits_all [of i "[]"] by (simp add: match_item_def quoted_def expect_def)

lemma match_item_other: "d \<noteq> dquote \<Longrightarrow> match_item (tab # tab # d # s) = None"
  by (simp add: match_item_def expect_def)

lemma quiet_line:
  "\<not> section_start l \<Longrightarrow> match_item l = None \<Longrightarrow> find_first match_manifest l = None \<Longrightarrow>
     acf_line (''WorkshopItemsInstalled'', item, out) l = (''WorkshopItemsInstalled'', item, out)"
  by (simp add: installed_line)

lemma find_manifest:
  "all_digits m \<Longrightarrow> find_first match_manifest (pair_line 3 ''manifest'' m) = Some m"
  using take_digits_all [of m "[]"]
  by (simp add: pair_line_def quoted_def numeral_3_eq_3 match_manifest_other)
     (simp add: match_manifest_def expect_def take_spaces_def py_isspace_def)

lemma no_time_manifest: "find_first match_manifest (pair_line 3 ''timeupdated'' (int_str n)) = None"
  by (rule no_manifest)
     (auto simp: pair_line_def quoted_def numeral_3_eq_3 sublist_Cons_right int_str_m no_m
       dest!: set_mono_sublist set_mono_prefix)

lemma no_size_manifest: "find_first match_manifest (pair_line 3 ''size'' (int_str n)) = None"
  by (rule no_manifest, rule no_m) (simp add: pair_line_def quoted_def int_str_m)

lemma installed_item:
  assumes "all_digits i" and "all_digits (it_manifest it)"
  shows "foldl acf_line (''WorkshopItemsInstalled'', item, out) (acf_installed (i, it)) =
    (''WorkshopItemsInstalled'', Some i, AList.update i (it_manifest it) out)"
proof -
  let ?q = "(''WorkshopItemsInstalled'', Some i, out)"
  have m: "CHR ''m'' \<notin> set ([tab, tab] @ quoted i)"
    using all_digits_notin [OF assms(1), of "CHR ''m''"] by (simp add: quoted_def)
  have "acf_line (''WorkshopItemsInstalled'', item, out) ([tab, tab] @ quoted i) = ?q"
    using no_manifest [OF no_m [OF m]] match_item_quoted [OF assms(1)]
    by (subst installed_line) (simp_all add: not_start)
  moreover have "acf_line ?q ([tab, tab] @ ''{'') = ?q"
    by (rule quiet_line) (simp_all add: not_start match_item_other match_manifest_other)
  moreover have "acf_line ?q (pair_line 3 ''size'' (int_str (it_size it))) = ?q"
    by (rule quiet_line [OF _ _ no_size_manifest])
       (simp_all add: pair_line_def quoted_def numeral_3_eq_3 not_start match_item_other)
  moreover have "acf_line ?q (pair_line 3 ''timeupdated'' (int_str (it_time it))) = ?q"
    by (rule quiet_line [OF _ _ no_time_manifest])
       (simp_all add: pair_line_def quoted_def numeral_3_eq_3 not_start match_item_other)
  moreover have "acf_line ?q (pair_line 3 ''manifest'' (it_manifest it)) =
      (''WorkshopItemsInstalled'', Some i, AList.update i (it_manifest it) out)"
    using find_manifest [OF assms(2)]
    by (subst installed_line)
       (simp_all add: pair_line_def quoted_def numeral_3_eq_3 not_start match_item_other)
  moreover have "acf_line (''WorkshopItemsInstalled'', Some i, out') ([tab, tab] @ ''}'') =
      (''WorkshopItemsInstalled'', Some i, out')" for out'
    by (rule quiet_line) (simp_all add: not_start match_item_other match_manifest_other)
  ultimately show ?thesis by (simp add: acf_installed_def block_def numeral_2_eq_2)
qed

lemma update_absent: "k \<notin> fst ` set d \<Longrightarrow> AList.update k v d = d @ [(k, v)]"
  by (induction d) auto

lemma installed_items:
  "\<forall>(i, it) \<in> set its. all_digits i \<and> all_digits (it_manifest it) \<Longrightarrow>
     distinct (map fst out @ map fst its) \<Longrightarrow>
     \<exists>item'. foldl acf_line (''WorkshopItemsInstalled'', item, out) (concat (map acf_installed its)) =
       (''WorkshopItemsInstalled'', item', out @ map (\<lambda>(i, it). (i, it_manifest it)) its)"
proof (induction its arbitrary: item out)
  case Nil
  then show ?case by simp
next
  case (Cons p its)
  obtain i it where p: "p = (i, it)" by (cases p)
  from Cons.prems p have d: "all_digits i" "all_digits (it_manifest it)" by auto
  from Cons.prems p have "i \<notin> fst ` set out" by auto
  then have "foldl acf_line (''WorkshopItemsInstalled'', item, out) (acf_installed p) =
      (''WorkshopItemsInstalled'', Some i, out @ [(i, it_manifest it)])"
    using installed_item [OF d] by (simp add: p update_absent)
  moreover obtain item' where "foldl acf_line (''WorkshopItemsInstalled'', Some i, out @ [(i, it_manifest it)])
      (concat (map acf_installed its)) = (''WorkshopItemsInstalled'', item',
        (out @ [(i, it_manifest it)]) @ map (\<lambda>(i, it). (i, it_manifest it)) its)"
    using Cons.IH [of "out @ [(i, it_manifest it)]" "Some i"] Cons.prems p by auto
  ultimately show ?case by (simp add: p)
qed

lemma quiet_lines:
  "\<forall>l \<in> set ls. \<not> section_start l \<Longrightarrow> sect \<noteq> ''WorkshopItemsInstalled'' \<Longrightarrow>
     foldl acf_line (sect, item, out) ls = (sect, item, out)"
  by (induction ls) (auto simp: other_line)

lemma two_tabs: "section_start ([tab, tab] @ s) = False" "section_start (pair_line 3 k v) = False"
  by (simp_all add: pair_line_def not_start numeral_3_eq_3)

lemma detail_quiet: "\<forall>l \<in> set (acf_detail p). \<not> section_start l"
proof -
  obtain i it where "p = (i, it)" by (cases p)
  then show ?thesis by (simp add: acf_detail_def block_def numeral_2_eq_2 two_tabs not_start)
qed

text \<open>Before the first item nothing is recorded.\<close>

lemma itemless_line: "match_item l = None \<Longrightarrow> \<exists>sect'. acf_line (sect, None, []) l = (sect', None, [])"
  by (auto simp: acf_line_def Let_def split: option.splits)

lemma itemless_lines:
  "\<forall>l \<in> set ls. match_item l = None \<Longrightarrow> \<exists>sect'. foldl acf_line (sect, None, []) ls = (sect', None, [])"
proof (induction ls arbitrary: sect)
  case Nil
  then show ?case by simp
next
  case (Cons l ls)
  then obtain s where "acf_line (sect, None, []) l = (s, None, [])" using itemless_line by fastforce
  with Cons show ?case by auto
qed

lemma match_item_one_tab: "c \<noteq> tab \<Longrightarrow> match_item (c # s) = None" "d \<noteq> tab \<Longrightarrow> match_item (tab # d # s) = None"
  by (simp_all add: match_item_def expect_def)

lemma acf_lines_read:
  assumes "\<forall>(i, it) \<in> set its. all_digits i \<and> all_digits (it_manifest it)" and "distinct (map fst its)"
  shows "snd (snd (foldl acf_line ([], None, []) (acf_lines its))) = map (\<lambda>(i, it). (i, it_manifest it)) its"
proof -
  have "\<forall>l \<in> set ([quoted ''AppWorkshop'', ''{''] @ acf_header n). match_item l = None" for n
    by (simp add: acf_header_def pair_line_def quoted_def match_item_one_tab)
  then obtain s where h: "foldl acf_line ([], None, [])
      ([quoted ''AppWorkshop'', ''{''] @ acf_header (sum_list (map (it_size \<circ> snd) its))) = (s, None, [])"
    using itemless_lines by blast
  have start: "foldl acf_line (s, None, []) [[tab] @ quoted ''WorkshopItemsInstalled'', [tab] @ ''{''] =
      (''WorkshopItemsInstalled'', None, [])"
    by code_simp
  obtain item where items: "foldl acf_line (''WorkshopItemsInstalled'', None, []) (concat (map acf_installed its)) =
      (''WorkshopItemsInstalled'', item, map (\<lambda>(i, it). (i, it_manifest it)) its)"
    using installed_items [of its "[]" None] assms by auto
  have last: "foldl acf_line (''WorkshopItemsInstalled'', item, out)
      [[tab] @ ''}'', [tab] @ quoted ''WorkshopItemDetails'', [tab] @ ''{''] = (''WorkshopItemDetails'', item, out)" for out
  proof -
    have "acf_line (''WorkshopItemsInstalled'', item, out) ([tab] @ ''}'') = (''WorkshopItemsInstalled'', item, out)"
      by (rule quiet_line) (simp_all add: not_start match_item_one_tab match_manifest_other)
    moreover have "section_start ([tab] @ quoted ''WorkshopItemDetails'')"
      "strip_quotes (py_strip ([tab] @ quoted ''WorkshopItemDetails'')) = ''WorkshopItemDetails''" by code_simp+
    ultimately show ?thesis by (simp add: acf_line_def Let_def not_start)
  qed
  have rest: "foldl acf_line (''WorkshopItemDetails'', item, out)
      (concat (map acf_detail its) @ [[tab] @ ''}'', ''}'', []]) = (''WorkshopItemDetails'', item, out)" for out
    using detail_quiet by (intro quiet_lines) (auto simp: not_start)
  define H S M R where "H = [quoted ''AppWorkshop'', ''{''] @ acf_header (sum_list (map (it_size \<circ> snd) its))"
    and "S = [[tab] @ quoted ''WorkshopItemsInstalled'', [tab] @ ''{'']"
    and "M = [[tab] @ ''}'', [tab] @ quoted ''WorkshopItemDetails'', [tab] @ ''{'']"
    and "R = concat (map acf_detail its) @ [[tab] @ ''}'', ''}'', []]"
  have "acf_lines its = H @ S @ concat (map acf_installed its) @ M @ R"
    by (simp add: acf_lines_def block_def H_def S_def M_def R_def)
  with h start last rest show ?thesis
    unfolding H_def [symmetric] S_def [symmetric] M_def [symmetric] R_def [symmetric]
    by (simp add: items)
qed

lemma py_int_digits: "py_int s \<noteq> None \<longleftrightarrow> all_digits s"
  by (simp add: py_int_def all_digits_def)

definition line_free :: "string \<Rightarrow> bool" where
  "line_free s \<longleftrightarrow> newline \<notin> set s"

lemma line_free_simps [simp]:
  "line_free []" "line_free (c # s) \<longleftrightarrow> c \<noteq> newline \<and> line_free s" "line_free (s @ t) \<longleftrightarrow> line_free s \<and> line_free t"
  "line_free (quoted s) \<longleftrightarrow> line_free s" "line_free (replicate n tab)"
  "line_free (pair_line n k v) \<longleftrightarrow> line_free k \<and> line_free v" "line_free (int_str x)"
  using angle_free_int_str [of x]
  by (auto simp: line_free_def quoted_def pair_line_def angle_free_def)

lemma line_free_digits: "all_digits s \<Longrightarrow> line_free s"
  by (simp add: line_free_def all_digits_notin)

lemma line_free_acf:
  assumes "\<forall>(i, it) \<in> set its. all_digits i \<and> all_digits (it_manifest it)"
  shows "\<forall>l \<in> set (acf_lines its). line_free l"
proof -
  have "\<forall>l \<in> set (acf_installed p) \<union> set (acf_detail p). line_free l" if p: "p \<in> set its" for p
  proof -
    obtain i it where q: "p = (i, it)" by (cases p)
    with assms p have "all_digits i" "all_digits (it_manifest it)" by auto
    then have "line_free i" "line_free (it_manifest it)" by (simp_all add: line_free_digits)
    then show ?thesis by (simp add: q acf_installed_def acf_detail_def block_def)
  qed
  then have items: "\<forall>l \<in> set (concat (map acf_installed its)) \<union> set (concat (map acf_detail its)). line_free l"
    by auto
  have "line_free APPID" by (simp add: APPID_def)
  then have "\<forall>l \<in> set (acf_header n). line_free l" for n
    by (simp add: acf_header_def)
  with items show ?thesis by (simp add: acf_lines_def block_def ball_Un)
qed

lemma acf_read_back:
  assumes "acf lock server = Inr t" and "acf_ids lock server = Inr ids" and "distinct (map fst (lk_items lock))"
    and "\<forall>(i, it) \<in> set (lk_items lock). all_digits (it_manifest it)"
  shows "acf_manifests (Some t) = map (\<lambda>i. (i, it_manifest (the (map_of (lk_items lock) i)))) ids"
proof -
  obtain its where its: "rmap (\<lambda>i. rbind (lock_item lock i) (\<lambda>it. Inr (i, it))) ids = Inr its"
    "t = join_lines (acf_lines its)"
    using assms(1,2) by (auto simp: acf_def result_simps)
  have item: "\<exists>it. map_of (lk_items lock) i = Some it \<and> p = (i, it)"
    if "rbind (lock_item lock i) (\<lambda>it. Inr (i, it)) = Inr p" for i p
    using that by (auto simp: lock_item_def result_simps split: option.splits)
  have "list_all2 (\<lambda>i p. map_of (lk_items lock) i = Some (snd p) \<and> fst p = i) ids its"
    using its(1) [unfolded rmap_Inr_iff] by (rule list_all2_mono) (auto dest: item)
  then have eq: "its = map (\<lambda>i. (i, the (map_of (lk_items lock) i))) ids"
    and some: "\<forall>i \<in> set ids. map_of (lk_items lock) i \<noteq> None"
    by (induction ids its rule: list_all2_induct) auto
  have ids: "\<forall>i \<in> set ids. all_digits i" "distinct ids"
    using assms(2,3) unfolding acf_ids_def sort_ids_eq py_int_digits by (auto intro: distinct_map_filter)
  have its_ok: "\<forall>(i, it) \<in> set its. all_digits i \<and> all_digits (it_manifest it)"
    using ids(1) some assms(4) by (fastforce simp: eq dest: map_of_SomeD)
  have "distinct (map fst its)" using ids(2) by (simp add: eq comp_def)
  note read = acf_lines_read [OF its_ok this]
  have "lines_of t = acf_lines its"
    using line_free_acf [OF its_ok] unfolding its(2)
    by (intro split_join) (auto simp: acf_lines_def line_free_def)
  with read show ?thesis by (simp add: acf_manifests_def eq)
qed

section \<open>Damaged files\<close>

lemma read_bsp_errors: "read_bsp data = Inl e \<Longrightarrow> e = NotVbsp \<or> e = StructError"
proof -
  have "rmap (lump_descriptor data) is = Inl e \<Longrightarrow> e = StructError" for "is"
    by (induction "is") (auto simp: result_simps lump_descriptor_def Let_def split: if_splits)
  then show "read_bsp data = Inl e \<Longrightarrow> e = NotVbsp \<or> e = StructError"
    by (auto simp: read_bsp_def result_simps split: if_splits)
qed

lemma file_names_errors: "file_names namelist c p = Inl e \<Longrightarrow> e = StructError"
  using read_bsp_errors by (cases p) (auto simp: file_names_def Let_def split: if_splits sum.splits)

lemma rmap_Inl: "x \<in> set xs \<Longrightarrow> f x = Inl e \<Longrightarrow> (\<And>x e. f x = Inl e \<Longrightarrow> e = e0) \<Longrightarrow> rmap f xs = Inl e0"
proof (induction xs)
  case (Cons y ys)
  then show ?case by (cases "f y"; cases "rmap f ys") auto
qed simp

text \<open>
  A map that breaks off inside its header ends the whole scan with
  \<open>struct.error\<close>, which is not among the exceptions that are caught there,
  where a damaged VPK is only warned about.
\<close>

lemma truncated_map_ends_the_scan:
  assumes "(f, rel) \<in> set (walk_files c)" and "suffix ''.bsp'' (py_lower f)"
    and "take 4 (read_file c rel) = VBSP" and "length (read_file c rel) < 1032"
  shows "scan namelist c = Inl StructError"
proof -
  have "lump_descriptor (read_file c rel) 63 = Inl StructError"
    using assms(4) by (auto simp: lump_descriptor_def Let_def)
  moreover have "e = StructError" if "lump_descriptor (read_file c rel) i = Inl e" for i e
    using that by (simp add: lump_descriptor_def Let_def split: if_splits)
  ultimately have "rmap (lump_descriptor (read_file c rel)) [0..<64] = Inl StructError"
    by (intro rmap_Inl [of 63]) auto
  then have "read_bsp (read_file c rel) = Inl StructError"
    using assms(3) by (simp add: read_bsp_def)
  moreover have "\<not> suffix ''.vpk'' (py_lower f)" using assms(2) by (auto simp: suffix_def)
  ultimately have "file_names namelist c (f, rel) = Inl StructError"
    using assms(2) by (simp add: file_names_def Let_def)
  then have "rmap (file_names namelist c) (walk_files c) = Inl StructError"
    using assms(1) file_names_errors by (intro rmap_Inl)
  then show ?thesis by (simp add: scan_def)
qed

lemma damaged_vpk_is_listed_by_name:
  "suffix ''.vpk'' (py_lower f) \<Longrightarrow> \<exists>names. file_names namelist c (f, rel) = Inr names \<and> py_lower rel \<in> names"
proof -
  assume "suffix ''.vpk'' (py_lower f)"
  moreover from this have "\<not> suffix ''.bsp'' (py_lower f)" by (auto simp: suffix_def)
  ultimately show ?thesis
    by (cases "vpk_names (read_file c rel)") (auto simp: file_names_def Let_def)
qed

section \<open>Properties\<close>

text \<open>
  C27.  The two tools agree on the acf file: reading the file \<open>render\<close> writes for a
  server gives exactly the items of the lockfile that server subscribes to, in
  order, each at the manifest the lockfile pins, when manifests are numbers.
\<close>

theorem acf_is_read_as_written:
  assumes "acf lock server = Inr t" and "acf_ids lock server = Inr ids" and "distinct (map fst (lk_items lock))"
    and "\<forall>(i, it) \<in> set (lk_items lock). all_digits (it_manifest it)"
  shows "acf_manifests (Some t) = map (\<lambda>i. (i, it_manifest (the (map_of (lk_items lock) i)))) ids"
  using assms by (rule acf_read_back)

theorem acf_is_read_as_written_witness:
  "\<exists>t. acf sample_lock ''main'' = Inr t \<and> acf_manifests (Some t) = [(''101'', ''77''), (''102'', ''77'')]"
proof -
  have i: "acf_ids sample_lock ''main'' = Inr [''101'', ''102'']" by code_simp
  then obtain t where t: "acf sample_lock ''main'' = Inr t"
    by (auto simp: acf_def lock_item_def sample_lock_def)
  have "distinct (map fst (lk_items sample_lock))"
    "\<forall>(i, it) \<in> set (lk_items sample_lock). all_digits (it_manifest it)" by code_simp+
  from acf_is_read_as_written [OF t i this] t show ?thesis
    by (simp add: sample_lock_def sample_pin_def)
qed

end
