(* ===== verification/VoteIndex.thy ===== *)
theory VoteIndex
  imports VoteScan
begin

text \<open>
  The index of what every pinned workshop item holds (\<open>refresh_index\<close> and
  \<open>fetch_and_index\<close> of \<open>fastdl/tools/mapvote_images.py\<close>).  What is on disk is an
  input: the base game, the content roots with their acf files, and for the items
  that are downloaded the directory a run of steamcmd leaves, a function of the
  items it was asked for.
\<close>

section \<open>The index\<close>

record entry =
  en_manifest :: string
  en_maps :: "string list"
  en_images :: "string list"
  en_textures :: "string list option"

record index =
  ix_base_maps :: "string list"
  ix_base_images :: "string list"
  ix_base_textures :: "string list option"
  ix_items :: "(string \<times> entry) list"

definition no_index :: index where
  "no_index = \<lparr>ix_base_maps = [], ix_base_images = [], ix_base_textures = None, ix_items = []\<rparr>"

text \<open>The base game, where \<open>gameinfo.txt\<close> is: its files and the files of \<open>maps/\<close>.\<close>

record game =
  gm_files :: "(string \<times> bytes) list"
  gm_maps :: "string list"

text \<open>A content root: its acf file and the directories of the items it has.\<close>

record root =
  rt_acf :: "string option"
  rt_items :: "string \<Rightarrow> content option"

section \<open>The base game\<close>

definition index_base :: "game option \<Rightarrow> index \<Rightarrow> byte_error + index" where
  "index_base game ix =
     (case game of
        Some g \<Rightarrow>
          rbind (rmap (\<lambda>(f, b). vpk_names b) (filter (\<lambda>(f, b). suffix ''_dir.vpk'' f) (sort_key fst (gm_files g)))) (\<lambda>nss.
            let names = \<Union> (set nss)
            in Inr (ix\<lparr>ix_base_maps := sort (map (\<lambda>f. py_lower (take (length f - 4) f)) (filter (suffix ''.bsp'') (gm_maps g))),
                 ix_base_images := sorted_list_of_set (images_in ''.vmt'' names),
                 ix_base_textures := Some (sorted_list_of_set (images_in ''.vtf'' names))\<rparr>))
      | None \<Rightarrow>
          if ix_base_images ix = [] then Inl (SystemExit ''No base game and none indexed yet'' []) else Inr ix)"

section \<open>Items that are on disk\<close>

definition stale :: "lock \<Rightarrow> index \<Rightarrow> string list" where
  "stale lock ix =
     map fst (filter (\<lambda>(i, it).
       case map_of (ix_items ix) i of
         None \<Rightarrow> True
       | Some e \<Rightarrow> en_manifest e \<noteq> it_manifest it \<or> en_textures e = None) (lk_items lock))"

definition drop_gone :: "lock \<Rightarrow> index \<Rightarrow> index" where
  "drop_gone lock ix = ix\<lparr>ix_items := filter (\<lambda>(i, e). i \<in> fst ` set (lk_items lock)) (ix_items ix)\<rparr>"

definition pin_of :: "lock \<Rightarrow> string \<Rightarrow> string" where
  "pin_of lock i = it_manifest (the (map_of (lk_items lock) i))"

text \<open>The first root that has the item, unless its acf file says it is at another version.\<close>

fun find_local :: "root list \<Rightarrow> string \<Rightarrow> string \<Rightarrow> content option" where
  "find_local [] item manifest = None"
| "find_local (r # rs) item manifest =
     (case rt_items r item of
        None \<Rightarrow> find_local rs item manifest
      | Some c \<Rightarrow>
          (case map_of (acf_manifests (rt_acf r)) item of
             None \<Rightarrow> Some c
           | Some have \<Rightarrow> if have \<noteq> manifest then find_local rs item manifest else Some c))"

definition index_item ::
  "(bytes \<Rightarrow> string list option) \<Rightarrow> content \<Rightarrow> string \<Rightarrow> string \<Rightarrow> index \<Rightarrow> byte_error + index" where
  "index_item namelist c item manifest ix =
     rbind (scan namelist c) (\<lambda>(maps, images, textures).
       Inr (ix\<lparr>ix_items := AList.update item
         \<lparr>en_manifest = manifest, en_maps = maps, en_images = images, en_textures = Some textures\<rparr> (ix_items ix)\<rparr>))"

fun index_local ::
  "(bytes \<Rightarrow> string list option) \<Rightarrow> lock \<Rightarrow> root list \<Rightarrow> string list \<Rightarrow> index \<Rightarrow> byte_error + index \<times> string list" where
  "index_local namelist lock roots [] ix = Inr (ix, [])"
| "index_local namelist lock roots (item # rest) ix =
     (case find_local roots item (pin_of lock item) of
        Some c \<Rightarrow>
          rbind (index_item namelist c item (pin_of lock item) ix) (\<lambda>ix. index_local namelist lock roots rest ix)
      | None \<Rightarrow>
          rbind (index_local namelist lock roots rest ix) (\<lambda>(ix, missing). Inr (ix, item # missing)))"

section \<open>Items that are downloaded\<close>

definition batch_step ::
  "int \<Rightarrow> (string \<Rightarrow> int) \<Rightarrow> string list list \<times> string list \<times> int \<Rightarrow> string \<Rightarrow> string list list \<times> string list \<times> int" where
  "batch_step limit sz = (\<lambda>(batches, cur, amount) i.
     let (batches, cur, amount) =
       (if cur \<noteq> [] \<and> limit < amount + sz i then (batches @ [cur], [], 0) else (batches, cur, amount))
     in (batches, cur @ [i], amount + sz i))"

definition make_batches :: "int \<Rightarrow> (string \<Rightarrow> int) \<Rightarrow> string list \<Rightarrow> string list list" where
  "make_batches limit sz ids =
     (let (batches, cur, amount) = foldl (batch_step limit sz) ([], [], 0) (sort_key sz ids)
      in if cur \<noteq> [] then batches @ [cur] else batches)"

text \<open>One item of a batch: \<open>got.get(i) or "?"\<close> is the version it is indexed at.\<close>

fun fetch_batch ::
  "(bytes \<Rightarrow> string list option) \<Rightarrow> root \<Rightarrow> string list \<Rightarrow> index \<Rightarrow> byte_error + index \<times> string list" where
  "fetch_batch namelist ws [] ix = Inr (ix, [])"
| "fetch_batch namelist ws (i # rest) ix =
     (case rt_items ws i of
        None \<Rightarrow> rbind (fetch_batch namelist ws rest ix) (\<lambda>(ix, left). Inr (ix, i # left))
      | Some c \<Rightarrow>
          rbind (index_item namelist c i (case map_of (acf_manifests (rt_acf ws)) i of None \<Rightarrow> ''?'' | Some m \<Rightarrow> m) ix)
            (\<lambda>ix. fetch_batch namelist ws rest ix))"

fun fetch_batches ::
  "(bytes \<Rightarrow> string list option) \<Rightarrow> (string list \<Rightarrow> root) \<Rightarrow> string list list \<Rightarrow> index \<Rightarrow> byte_error + index \<times> string list" where
  "fetch_batches namelist steam [] ix = Inr (ix, [])"
| "fetch_batches namelist steam (b # bs) ix =
     rbind (fetch_batch namelist (steam b) b ix) (\<lambda>(ix, left).
     rbind (fetch_batches namelist steam bs ix) (\<lambda>(ix, left'). Inr (ix, left @ left')))"

definition size_of :: "lock \<Rightarrow> string \<Rightarrow> int" where
  "size_of lock i = it_size (the (map_of (lk_items lock) i))"

definition fetch_and_index ::
  "(bytes \<Rightarrow> string list option) \<Rightarrow> (string list \<Rightarrow> root) \<Rightarrow> lock \<Rightarrow> int \<Rightarrow> string list \<Rightarrow> index \<Rightarrow> byte_error + index \<times> string list" where
  "fetch_and_index namelist steam lock batch_bytes ids ix =
     fetch_batches namelist steam (make_batches batch_bytes (size_of lock) ids) ix"

section \<open>Refreshing\<close>

definition refresh_index ::
  "(bytes \<Rightarrow> string list option) \<Rightarrow> (string list \<Rightarrow> root) option \<Rightarrow> game option \<Rightarrow> root list \<Rightarrow> int \<Rightarrow> lock
     \<Rightarrow> index \<Rightarrow> byte_error + index \<times> string list" where
  "refresh_index namelist fetch game roots batch_bytes lock ix =
     rbind (index_base game (drop_gone lock ix)) (\<lambda>ix.
     rbind (index_local namelist lock roots (stale lock ix) ix) (\<lambda>(ix, missing).
       case fetch of
         Some steam \<Rightarrow> if missing = [] then Inr (ix, missing) else fetch_and_index namelist steam lock batch_bytes missing ix
       | None \<Rightarrow> Inr (ix, missing)))"

section \<open>Batches\<close>

definition batch_ok :: "int \<Rightarrow> (string \<Rightarrow> int) \<Rightarrow> string list \<Rightarrow> bool" where
  "batch_ok limit sz b \<longleftrightarrow> b \<noteq> [] \<and> (sum_list (map sz b) \<le> limit \<or> length b = 1)"

definition batching :: "int \<Rightarrow> (string \<Rightarrow> int) \<Rightarrow> string list list \<times> string list \<times> int \<Rightarrow> bool" where
  "batching limit sz = (\<lambda>(batches, cur, amount).
     amount = sum_list (map sz cur) \<and> (\<forall>b \<in> set batches. batch_ok limit sz b) \<and> (cur \<noteq> [] \<longrightarrow> batch_ok limit sz cur))"

lemma batch_step_ok: "batching limit sz st \<Longrightarrow> batching limit sz (batch_step limit sz st i)"
  by (cases st) (auto simp: batching_def batch_step_def batch_ok_def)

lemma batch_step_concat:
  "batch_step limit sz (batches, cur, amount) i = (batches', cur', amount') \<Longrightarrow>
     concat batches' @ cur' = (concat batches @ cur) @ [i] \<and> cur' \<noteq> []"
  by (auto simp: batch_step_def split: if_splits)

lemma batch_loop:
  "batching limit sz st \<Longrightarrow> foldl (batch_step limit sz) st ids = (batches, cur, amount) \<Longrightarrow>
     batching limit sz (batches, cur, amount) \<and> concat batches @ cur = concat (fst st) @ fst (snd st) @ ids"
proof (induction ids arbitrary: st)
  case Nil
  then show ?case by simp
next
  case (Cons i ids)
  obtain b c t where st: "st = (b, c, t)" by (cases st) auto
  obtain b' c' t' where s: "batch_step limit sz st i = (b', c', t')" by (cases "batch_step limit sz st i") auto
  have "batching limit sz (b', c', t')" using batch_step_ok [OF Cons.prems(1), of i] by (simp add: s)
  from Cons.IH [OF this] Cons.prems(2) s batch_step_concat [OF s [unfolded st]]
  show ?case by (simp add: st)
qed

lemma make_batches_ok:
  "concat (make_batches limit sz ids) = sort_key sz ids \<and> (\<forall>b \<in> set (make_batches limit sz ids). batch_ok limit sz b)"
proof -
  obtain b c t where f: "foldl (batch_step limit sz) ([], [], 0) (sort_key sz ids) = (b, c, t)"
    by (cases "foldl (batch_step limit sz) ([], [], 0) (sort_key sz ids)") auto
  have "batching limit sz ([], [], 0)" by (simp add: batching_def)
  from batch_loop [OF this f] show ?thesis
    by (auto simp: make_batches_def f batching_def)
qed

section \<open>What a refresh leaves indexed\<close>

definition indexed :: "index \<Rightarrow> string \<Rightarrow> bool" where
  "indexed ix i \<longleftrightarrow> (\<exists>e. map_of (ix_items ix) i = Some e \<and> en_textures e \<noteq> None)"

definition up_to_pin :: "lock \<Rightarrow> index \<Rightarrow> string \<Rightarrow> bool" where
  "up_to_pin lock ix i \<longleftrightarrow>
     (\<exists>e. map_of (ix_items ix) i = Some e \<and> en_manifest e = pin_of lock i \<and> en_textures e \<noteq> None)"

definition same_base :: "index \<Rightarrow> index \<Rightarrow> bool" where
  "same_base ix ix' \<longleftrightarrow> ix_base_maps ix' = ix_base_maps ix \<and> ix_base_images ix' = ix_base_images ix
     \<and> ix_base_textures ix' = ix_base_textures ix"

definition keys :: "index \<Rightarrow> string set" where
  "keys ix = fst ` set (ix_items ix)"

text \<open>Indexing an item: its entry, nothing else.\<close>

lemma index_item_effect:
  assumes "index_item namelist c i m ix = Inr ix'"
  shows "\<exists>e. map_of (ix_items ix') = (map_of (ix_items ix))(i \<mapsto> e) \<and> en_manifest e = m \<and> en_textures e \<noteq> None"
    and "same_base ix ix'" and "keys ix' = insert i (keys ix)"
proof -
  obtain maps images textures where ix': "ix' = ix\<lparr>ix_items := AList.update i
       \<lparr>en_manifest = m, en_maps = maps, en_images = images, en_textures = Some textures\<rparr> (ix_items ix)\<rparr>"
    using assms by (auto simp: index_item_def result_simps)
  show "\<exists>e. map_of (ix_items ix') = (map_of (ix_items ix))(i \<mapsto> e) \<and> en_manifest e = m \<and> en_textures e \<noteq> None"
    by (auto simp: ix' update_conv' intro!: exI [of _ "\<lparr>en_manifest = m, en_maps = maps, en_images = images, en_textures = Some textures\<rparr>"])
  show "same_base ix ix'" by (simp add: ix' same_base_def)
  show "keys ix' = insert i (keys ix)"
    by (simp add: ix' keys_def update_conv' flip: dom_map_of_conv_image_fst)
qed

lemma same_base_trans: "same_base a b \<Longrightarrow> same_base b c \<Longrightarrow> same_base a c"
  by (simp add: same_base_def)

lemma index_local_effect:
  "index_local namelist lock roots ids ix = Inr (ix', missing) \<Longrightarrow>
     missing = filter (\<lambda>i. find_local roots i (pin_of lock i) = None) ids
     \<and> (\<forall>i \<in> set ids. find_local roots i (pin_of lock i) = None \<or> up_to_pin lock ix' i)
     \<and> (\<forall>i. i \<notin> set ids \<or> find_local roots i (pin_of lock i) = None \<longrightarrow>
            map_of (ix_items ix') i = map_of (ix_items ix) i)
     \<and> same_base ix ix' \<and> keys ix' \<subseteq> keys ix \<union> set ids"
proof (induction ids arbitrary: ix missing)
  case Nil
  then show ?case by (simp add: same_base_def)
next
  case (Cons item ids)
  show ?case
  proof (cases "find_local roots item (pin_of lock item)")
    case None
    then obtain m where m: "index_local namelist lock roots ids ix = Inr (ix', m)" "missing = item # m"
      using Cons.prems by (auto simp: result_simps)
    show ?thesis using Cons.IH [OF m(1)] None m(2) by auto
  next
    case (Some c)
    then obtain ix1 where i: "index_item namelist c item (pin_of lock item) ix = Inr ix1"
      and r: "index_local namelist lock roots ids ix1 = Inr (ix', missing)"
      using Cons.prems by (auto simp: result_simps)
    note e = index_item_effect [OF i]
    have "up_to_pin lock ix' item"
    proof (cases "item \<in> set ids")
      case True
      with Cons.IH [OF r] Some show ?thesis by auto
    next
      case False
      with Cons.IH [OF r] have "map_of (ix_items ix') item = map_of (ix_items ix1) item" by simp
      with e(1) show ?thesis by (auto simp: up_to_pin_def)
    qed
    moreover have "map_of (ix_items ix1) i = map_of (ix_items ix) i"
      if "find_local roots i (pin_of lock i) = None" for i
      using e(1) that Some by (cases "i = item") auto
    moreover have "map_of (ix_items ix1) i = map_of (ix_items ix) i" if "i \<noteq> item" for i
      using e(1) that by auto
    ultimately show ?thesis
      using Cons.IH [OF r] Some e(2,3) same_base_trans by auto
  qed
qed

text \<open>What is indexed stays indexed, and every item of a batch is indexed or left.\<close>

lemma index_item_indexed:
  "index_item namelist c i m ix = Inr ix' \<Longrightarrow> indexed ix' i \<and> (indexed ix j \<longrightarrow> indexed ix' j)"
  using index_item_effect(1) [of namelist c i m ix ix'] by (auto simp: indexed_def)

lemma fetch_batch_indexed:
  "fetch_batch namelist ws b ix = Inr (ix', left) \<Longrightarrow>
     (\<forall>j. indexed ix j \<longrightarrow> indexed ix' j) \<and> (\<forall>i \<in> set b. i \<in> set left \<or> indexed ix' i)
     \<and> keys ix' \<subseteq> keys ix \<union> set b"
proof (induction b arbitrary: ix left)
  case Nil
  then show ?case by simp
next
  case (Cons i b)
  show ?case
  proof (cases "rt_items ws i")
    case None
    with Cons show ?thesis by (auto simp: result_simps) blast+
  next
    case (Some c)
    then obtain m ix1 where i: "index_item namelist c i m ix = Inr ix1"
      and r: "fetch_batch namelist ws b ix1 = Inr (ix', left)"
      using Cons.prems by (auto simp: result_simps)
    from Cons.IH [OF r] index_item_indexed [OF i] index_item_effect(3) [OF i] show ?thesis by auto
  qed
qed

lemma fetch_batches_indexed:
  "fetch_batches namelist steam bs ix = Inr (ix', left) \<Longrightarrow>
     (\<forall>j. indexed ix j \<longrightarrow> indexed ix' j) \<and> (\<forall>i \<in> set (concat bs). i \<in> set left \<or> indexed ix' i)
     \<and> keys ix' \<subseteq> keys ix \<union> set (concat bs)"
proof (induction bs arbitrary: ix left)
  case Nil
  then show ?case by simp
next
  case (Cons b bs)
  then obtain ix1 l1 l2 where b: "fetch_batch namelist (steam b) b ix = Inr (ix1, l1)"
    and r: "fetch_batches namelist steam bs ix1 = Inr (ix', l2)" and l: "left = l1 @ l2"
    by (auto simp: result_simps)
  from Cons.IH [OF r] fetch_batch_indexed [OF b] show ?case by (auto simp: l)
qed

text \<open>The stale items, one by one.\<close>

definition is_stale :: "lock \<Rightarrow> index \<Rightarrow> string \<Rightarrow> bool" where
  "is_stale lock ix i \<longleftrightarrow> \<not> up_to_pin lock ix i"

lemma stale_eq:
  assumes "distinct (map fst (lk_items lock))"
  shows "stale lock ix = filter (is_stale lock ix) (map fst (lk_items lock))"
proof -
  have "(case map_of (ix_items ix) i of None \<Rightarrow> True
       | Some e \<Rightarrow> en_manifest e \<noteq> it_manifest it \<or> en_textures e = None) = is_stale lock ix i"
    if "(i, it) \<in> set (lk_items lock)" for i it
    using that assms by (auto simp: is_stale_def up_to_pin_def pin_of_def split: option.split)
  then have "filter (\<lambda>(i, it). case map_of (ix_items ix) i of None \<Rightarrow> True
       | Some e \<Rightarrow> en_manifest e \<noteq> it_manifest it \<or> en_textures e = None) (lk_items lock) =
      filter (is_stale lock ix \<circ> fst) (lk_items lock)"
    by (intro filter_cong) auto
  then show ?thesis by (simp add: stale_def filter_map)
qed

lemma refresh_index_parts:
  assumes "refresh_index namelist fetch game roots limit lock ix = Inr (ix', missing)"
  obtains ix1 ix2 m where "index_base game (drop_gone lock ix) = Inr ix1"
    and "index_local namelist lock roots (stale lock ix1) ix1 = Inr (ix2, m)"
    and "fetch = None \<and> ix' = ix2 \<and> missing = m \<or> fetch \<noteq> None \<and> m = [] \<and> ix' = ix2 \<and> missing = []
      \<or> (\<exists>steam. fetch = Some steam \<and> fetch_and_index namelist steam lock limit m ix2 = Inr (ix', missing))"
proof -
  obtain ix1 ix2 m where p: "index_base game (drop_gone lock ix) = Inr ix1"
    "index_local namelist lock roots (stale lock ix1) ix1 = Inr (ix2, m)"
    and r: "(case fetch of
         Some steam \<Rightarrow> if m = [] then Inr (ix2, m) else fetch_and_index namelist steam lock limit m ix2
       | None \<Rightarrow> Inr (ix2, m)) = Inr (ix', missing)"
    using assms by (auto simp: refresh_index_def result_simps)
  from r show thesis
    by (intro that [OF p]) (cases fetch; cases "m = []"; simp)
qed

lemma index_base_items: "index_base game ix = Inr ix' \<Longrightarrow> ix_items ix' = ix_items ix"
  by (auto simp: index_base_def result_simps Let_def split: option.splits if_splits)

lemma index_base_again:
  "index_base game ix = Inr ix1 \<Longrightarrow> same_base ix1 ix2 \<Longrightarrow> index_base game ix2 = Inr ix2"
  by (auto simp: index_base_def result_simps Let_def same_base_def split: option.splits if_splits)

lemma stale_locked: "set (stale lock ix) \<subseteq> fst ` set (lk_items lock)"
  by (force simp: stale_def)

lemma keys_drop_gone: "keys (drop_gone lock ix) \<subseteq> fst ` set (lk_items lock)"
  by (force simp: keys_def drop_gone_def)

lemma drop_gone_id: "keys ix \<subseteq> fst ` set (lk_items lock) \<Longrightarrow> drop_gone lock ix = ix"
  unfolding drop_gone_def keys_def by (subst filter_True) force+

lemma local_stale:
  assumes "distinct (map fst (lk_items lock))"
    and "index_local namelist lock roots (stale lock ix) ix = Inr (ix', missing)"
  shows "missing = stale lock ix'"
    and "\<forall>i \<in> set missing. find_local roots i (pin_of lock i) = None"
proof -
  note l = index_local_effect [OF assms(2)]
  have "is_stale lock ix' i \<longleftrightarrow> is_stale lock ix i \<and> find_local roots i (pin_of lock i) = None"
    if i: "i \<in> fst ` set (lk_items lock)" for i
  proof -
    have s: "i \<in> set (stale lock ix) \<longleftrightarrow> is_stale lock ix i"
      using i by (simp add: stale_eq [OF assms(1)])
    consider "is_stale lock ix i" "find_local roots i (pin_of lock i) \<noteq> None"
      | "\<not> is_stale lock ix i \<or> find_local roots i (pin_of lock i) = None" by blast
    then show ?thesis
    proof cases
      case 1
      with l s show ?thesis by (auto simp: is_stale_def)
    next
      case 2
      with l s have "map_of (ix_items ix') i = map_of (ix_items ix) i" by blast
      with 2 show ?thesis by (auto simp: is_stale_def up_to_pin_def)
    qed
  qed
  then have "filter (is_stale lock ix') (map fst (lk_items lock)) =
      filter (\<lambda>i. find_local roots i (pin_of lock i) = None) (filter (is_stale lock ix) (map fst (lk_items lock)))"
    by (auto intro!: filter_cong simp: conj_commute)
  with l show "missing = stale lock ix'" by (simp add: stale_eq [OF assms(1)])
  show "\<forall>i \<in> set missing. find_local roots i (pin_of lock i) = None" using l by auto
qed

lemma index_local_none:
  "\<forall>i \<in> set ids. find_local roots i (pin_of lock i) = None \<Longrightarrow> index_local namelist lock roots ids ix = Inr (ix, ids)"
  by (induction ids) auto

text \<open>What a refresh does, all of it.\<close>

lemma refresh_effect:
  assumes "distinct (map fst (lk_items lock))"
    and "refresh_index namelist fetch game roots limit lock ix = Inr (ix', missing)"
  shows "fst ` set (ix_items ix') \<subseteq> fst ` set (lk_items lock)
    \<and> (\<forall>(i, it) \<in> set (lk_items lock). i \<in> set missing
         \<or> (\<exists>e. map_of (ix_items ix') i = Some e \<and> en_textures e \<noteq> None))
    \<and> (fetch = None \<longrightarrow> missing = stale lock ix'
         \<and> refresh_index namelist None game roots limit lock ix' = Inr (ix', missing))"
  using assms(2)
proof (rule refresh_index_parts)
  fix ix1 ix2 m
  assume b: "index_base game (drop_gone lock ix) = Inr ix1"
    and l: "index_local namelist lock roots (stale lock ix1) ix1 = Inr (ix2, m)"
    and f: "fetch = None \<and> ix' = ix2 \<and> missing = m \<or> fetch \<noteq> None \<and> m = [] \<and> ix' = ix2 \<and> missing = []
      \<or> (\<exists>steam. fetch = Some steam \<and> fetch_and_index namelist steam lock limit m ix2 = Inr (ix', missing))"
  have "keys ix1 \<subseteq> fst ` set (lk_items lock)"
    using keys_drop_gone [of lock ix] index_base_items [OF b] by (simp add: keys_def)
  then have k2: "keys ix2 \<subseteq> fst ` set (lk_items lock)"
    using index_local_effect [OF l] stale_locked [of lock ix1] by blast
  note s = local_stale [OF assms(1) l]
  have i2: "i \<in> set m \<or> indexed ix2 i" if "i \<in> fst ` set (lk_items lock)" for i
    using that unfolding s(1) stale_eq [OF assms(1)] by (auto simp: is_stale_def up_to_pin_def indexed_def)
  have m: "set m \<subseteq> fst ` set (lk_items lock)" unfolding s(1) by (rule stale_locked)
  have fetched: "keys ix' \<subseteq> fst ` set (lk_items lock) \<and> (\<forall>i \<in> fst ` set (lk_items lock). i \<in> set missing \<or> indexed ix' i)"
    using f
  proof (elim disjE exE conjE)
    fix steam
    assume "fetch_and_index namelist steam lock limit m ix2 = Inr (ix', missing)"
    note f = fetch_batches_indexed [OF this [unfolded fetch_and_index_def]]
    have c: "set (concat (make_batches limit (size_of lock) m)) = set m"
      using make_batches_ok [of limit "size_of lock" m] by (metis set_sort)
    from f k2 m have "keys ix' \<subseteq> fst ` set (lk_items lock)" unfolding c by blast
    moreover have "i \<in> set missing \<or> indexed ix' i" if "i \<in> fst ` set (lk_items lock)" for i
      using f i2 [OF that] unfolding c by blast
    ultimately show ?thesis by blast
  qed (use k2 i2 in auto)
  have again: "refresh_index namelist None game roots limit lock ix2 = Inr (ix2, m)"
  proof -
    have "index_base game (drop_gone lock ix2) = Inr ix2"
      using index_base_again [OF b] index_local_effect [OF l] drop_gone_id [OF k2] by simp
    moreover have "index_local namelist lock roots m ix2 = Inr (ix2, m)"
      using s(2) by (rule index_local_none)
    ultimately show ?thesis by (simp add: refresh_index_def flip: s(1))
  qed
  have "i \<in> set missing \<or> (\<exists>e. map_of (ix_items ix') i = Some e \<and> en_textures e \<noteq> None)"
    if "(i, it) \<in> set (lk_items lock)" for i it
  proof -
    have "i \<in> fst ` set (lk_items lock)" using that by force
    with fetched show ?thesis unfolding indexed_def by blast
  qed
  then have all: "\<forall>(i, it) \<in> set (lk_items lock). i \<in> set missing
      \<or> (\<exists>e. map_of (ix_items ix') i = Some e \<and> en_textures e \<noteq> None)" by blast
  have "missing = stale lock ix' \<and> refresh_index namelist None game roots limit lock ix' = Inr (ix', missing)"
    if "fetch = None"
  proof -
    have "ix' = ix2" "missing = m" using f that by simp_all
    with s(1) again show ?thesis by simp
  qed
  with all fetched show ?thesis unfolding keys_def by blast
qed

lemma refreshed_is_indexed:
  assumes "distinct (map fst (lk_items lock))"
    and "refresh_index namelist fetch game roots limit lock ix = Inr (ix', missing)"
  shows "\<forall>(i, it) \<in> set (lk_items lock). i \<in> set missing \<or> indexed ix' i"
  using refresh_effect [OF assms] by (simp add: indexed_def)

section \<open>Properties\<close>

text \<open>
  Downloads are cut into batches that fit the disk: every item is in exactly
  one batch, in order of size, no batch is empty, and a batch exceeds the limit
  only when it is a single item that does.
\<close>

lemma batches_fit:
  "concat (make_batches limit sz ids) = sort_key sz ids
   \<and> (\<forall>b \<in> set (make_batches limit sz ids). b \<noteq> [] \<and> (sum_list (map sz b) \<le> limit \<or> length b = 1))"
  using make_batches_ok [of limit sz ids] by (simp add: batch_ok_def)

text \<open>
  What a refresh reports is what is left: after it the index holds only
  items of the lockfile, and each of them is indexed with its textures or
  reported missing.  Without downloads the missing items are exactly those whose
  entry is not at the pinned manifest, and a second refresh scans nothing and
  changes nothing.
\<close>

lemma refresh_leaves_the_missing:
  assumes "distinct (map fst (lk_items lock))"
    and "refresh_index namelist fetch game roots limit lock ix = Inr (ix', missing)"
  shows "fst ` set (ix_items ix') \<subseteq> fst ` set (lk_items lock)
    \<and> (\<forall>(i, it) \<in> set (lk_items lock). i \<in> set missing
         \<or> (\<exists>e. map_of (ix_items ix') i = Some e \<and> en_textures e \<noteq> None))
    \<and> (fetch = None \<longrightarrow> missing = stale lock ix'
         \<and> refresh_index namelist None game roots limit lock ix' = Inr (ix', missing))"
  using assms by (rule refresh_effect)

definition vote_root :: root where
  "vote_root = \<lparr>rt_acf = None, rt_items = (\<lambda>i. if i = ''101''
     then Some \<lparr>walk_dirs = [(''materials/vgui/maps'', [''A_large.vmt'', ''readme.txt''])], read_file = \<lambda>_. []\<rparr> else None)\<rparr>"

definition vote_entry :: entry where
  "vote_entry = \<lparr>en_manifest = ''77'', en_maps = [], en_images = [''vgui/maps/a_large''], en_textures = Some []\<rparr>"

definition stock_index :: index where
  "stock_index = no_index\<lparr>ix_base_images := [''vgui/maps/ministry_large'']\<rparr>"

lemma vote_refresh:
  "refresh_index (\<lambda>_. None) None None [vote_root] 0 sample_lock stock_index =
     Inr (stock_index\<lparr>ix_items := [(''101'', vote_entry)]\<rparr>, [''102''])"
  by code_simp

end
