(* ===== verification/VoteImages.thy ===== *)
theory VoteImages
  imports VoteIndex
begin

text \<open>
  Deciding which maps get a vote image and making it (the last part of
  \<open>fastdl/tools/mapvote_images.py\<close>): the mapcycles and overrides, which maps have
  an image on which server, what becomes of each map that has none, and the files
  that are written.  The answers of the Steam API and of the web are parameters.
\<close>

section \<open>Inputs\<close>

fun first_by :: "('a \<Rightarrow> 'k) \<Rightarrow> 'k set \<Rightarrow> 'a list \<Rightarrow> 'a list" where
  "first_by key seen [] = []"
| "first_by key seen (x # xs) =
     (if key x \<in> seen then first_by key seen xs else x # first_by key (insert (key x) seen) xs)"

definition mapcycle :: "string \<Rightarrow> string list" where
  "mapcycle handle =
     first_by py_lower {} (concat (map (\<lambda>l. take 1 (py_words (cut_comment l))) (lines_of handle)))"

text \<open>The listing of \<open>server config/\<close>: each name with the text of its mapcycle, if it has one.\<close>

definition cycle_servers :: "(string \<times> string option) list \<Rightarrow> (string \<times> string) list" where
  "cycle_servers config =
     map (\<lambda>(s, t). (s, the t)) (filter (\<lambda>(s, t). s \<notin> NOT_SERVERS \<and> t \<noteq> None) (sort_key fst config))"

text \<open>\<open>re.sub(r"(^|\s)//.*", "", line)\<close>\<close>

fun cut_after_blank :: "string \<Rightarrow> string" where
  "cut_after_blank [] = []"
| "cut_after_blank (c # cs) = (if py_isspace c \<and> prefix ''//'' cs then [] else c # cut_after_blank cs)"

definition override_line :: "string \<Rightarrow> string" where
  "override_line l = (if prefix ''//'' l then [] else cut_after_blank l)"

datatype override = Skip | FromItem string | FromUrl string | AliasOf string

definition parse_override :: "string list \<Rightarrow> (string \<times> override) option" where
  "parse_override tok =
     (case tok of
        [m, w] \<Rightarrow> if w = ''skip'' then Some (py_lower m, Skip) else None
      | [m, w, x] \<Rightarrow>
          if w = ''item'' then Some (py_lower m, FromItem x)
          else if w = ''url'' then Some (py_lower m, FromUrl x)
          else if w = ''alias'' then Some (py_lower m, AliasOf x) else None
      | _ \<Rightarrow> None)"

fun read_override_lines :: "string list \<Rightarrow> (string \<times> override) list \<Rightarrow> byte_error + (string \<times> override) list" where
  "read_override_lines [] out = Inr out"
| "read_override_lines (l # ls) out =
     (let tok = py_words (override_line l)
      in if tok = [] then read_override_lines ls out
         else case parse_override tok of
                None \<Rightarrow> Inl (SystemExit ''cannot parse '' (py_strip l))
              | Some (m, ov) \<Rightarrow> read_override_lines ls (AList.update m ov out))"

definition read_overrides :: "string option \<Rightarrow> byte_error + (string \<times> override) list" where
  "read_overrides file = (case file of None \<Rightarrow> Inr [] | Some t \<Rightarrow> read_override_lines (lines_of t) [])"

text \<open>What is already in the output directory, by the lowercased name of the map.\<close>

definition is_output :: "string \<Rightarrow> bool" where
  "is_output f \<longleftrightarrow> py_lower (snd (splitext f)) \<in> {''.jpg'', ''.png'', ''.vmt''}"

definition output_key :: "string \<Rightarrow> string" where
  "output_key f = py_lower (fst (splitext f))"

definition outputs :: "string list \<Rightarrow> (string \<times> string) list" where
  "outputs listing = foldl (\<lambda>out f. if is_output f then AList.update (output_key f) f out else out) [] listing"

section \<open>Coverage\<close>

definition covered :: "string \<Rightarrow> string set \<Rightarrow> bool" where
  "covered name images \<longleftrightarrow>
     (let n = py_lower name
      in VOTE_DIR @ n \<in> images \<or> LOADING_DIR @ n @ ''_large'' \<in> images \<or> LOADING_DIR @ n @ ''_small'' \<in> images)"

definition subscribed_items :: "lock \<Rightarrow> string \<Rightarrow> string list" where
  "subscribed_items lock s = map fst (filter (\<lambda>(i, it). s \<in> set (it_servers it)) (lk_items lock))"

definition entry_of :: "index \<Rightarrow> string \<Rightarrow> byte_error + entry" where
  "entry_of ix i = (case map_of (ix_items ix) i of None \<Rightarrow> Inl MissingKey | Some e \<Rightarrow> Inr e)"

definition textures_of :: "entry \<Rightarrow> byte_error + string list" where
  "textures_of e = (case en_textures e of None \<Rightarrow> Inl MissingKey | Some ts \<Rightarrow> Inr ts)"

record view =
  vw_server :: string
  vw_maps :: "string list"
  vw_images :: "string set"
  vw_textures :: "string set"

definition server_view :: "lock \<Rightarrow> index \<Rightarrow> string \<times> string \<Rightarrow> byte_error + view" where
  "server_view lock ix = (\<lambda>(s, handle).
     rbind (rmap (entry_of ix) (subscribed_items lock s)) (\<lambda>es.
     rbind (rmap textures_of es) (\<lambda>tss.
       Inr \<lparr>vw_server = s, vw_maps = mapcycle handle,
            vw_images = set (ix_base_images ix) \<union> \<Union> (set (map (\<lambda>e. set (en_images e)) es)),
            vw_textures = set (case ix_base_textures ix of None \<Rightarrow> [] | Some ts \<Rightarrow> ts) \<union> set (concat tss)\<rparr>)))"

text \<open>
  \<open>status\<close> and \<open>orphan\<close>, as one dictionary: the map lowercased, its spelling, and
  for each server that lists it whether it is covered there and whether a texture
  of its own is there.
\<close>

type_synonym status = "(string \<times> string \<times> (string \<times> bool \<times> bool) list) list"

fun put_status :: "string \<Rightarrow> string \<Rightarrow> bool \<times> bool \<Rightarrow> status \<Rightarrow> status" where
  "put_status m s b [] = [(py_lower m, m, [(s, b)])]"
| "put_status m s b ((low, sp, cov) # st) =
     (if low = py_lower m then (low, sp, AList.update s b cov) # st else (low, sp, cov) # put_status m s b st)"

definition map_state :: "view \<Rightarrow> string \<Rightarrow> bool \<times> bool" where
  "map_state v m = (covered m (vw_images v), VOTE_DIR @ py_lower m \<in> vw_textures v)"

definition status_of :: "view list \<Rightarrow> status" where
  "status_of views =
     foldl (\<lambda>st v. foldl (\<lambda>st m. put_status m (vw_server v) (map_state v m) st) st (vw_maps v)) [] views"

definition is_todo :: "(string \<times> bool \<times> bool) list \<Rightarrow> bool" where
  "is_todo cov \<longleftrightarrow> \<not> (\<forall>(s, c, t) \<in> set cov. c) \<and> \<not> (\<exists>(s, c, t) \<in> set cov. c)"

definition todo_maps :: "status \<Rightarrow> (string \<times> string \<times> (string \<times> bool \<times> bool) list) list" where
  "todo_maps st = filter (\<lambda>(low, m, cov). is_todo cov) (sort_key fst st)"

section \<open>What becomes of a map\<close>

definition owner :: "string \<Rightarrow> index \<Rightarrow> string list \<Rightarrow> string list" where
  "owner map_name ix subscribed =
     filter (\<lambda>i. py_lower map_name \<in> set (case map_of (ix_items ix) i of None \<Rightarrow> [] | Some e \<Rightarrow> en_maps e)) subscribed"

datatype fate =
    Kept string
  | Skipped
  | Unresolved string
  | WantAlias string
  | WantUrl string "string option"
  | WantItem string

definition server_textures :: "view list \<Rightarrow> string \<Rightarrow> string set" where
  "server_textures views s = (case map_of (map (\<lambda>v. (vw_server v, vw_textures v)) views) s of None \<Rightarrow> {} | Some t \<Rightarrow> t)"

definition item_fate :: "index \<Rightarrow> string \<Rightarrow> string list \<Rightarrow> fate" where
  "item_fate ix low hits =
     (if hits = []
      then Unresolved (if low \<in> set (ix_base_maps ix) then ''stock map with no image'' else ''no item holds its BSP'')
      else WantItem (hd hits))"

definition decide ::
  "lock \<Rightarrow> index \<Rightarrow> view list \<Rightarrow> (string \<times> override) list \<Rightarrow> (string \<times> string) list \<Rightarrow> string set
     \<Rightarrow> string \<times> string \<times> (string \<times> bool \<times> bool) list \<Rightarrow> fate" where
  "decide lock ix views overrides have force = (\<lambda>(low, m, cov).
     case (if low \<in> force then None else map_of have low) of
       Some f \<Rightarrow> Kept f
     | None \<Rightarrow>
         let servers_of = map fst cov;
             subscribed = sort (remdups (concat (map (subscribed_items lock) servers_of)))
         in case map_of overrides low of
              Some Skip \<Rightarrow> Skipped
            | Some (AliasOf t) \<Rightarrow>
                (let lacking = filter (\<lambda>s. py_lower t \<notin> server_textures views s) servers_of
                in if lacking \<noteq> [] then Unresolved (''alias target '' @ t @ '' is not on '' @ join_by '', '' lacking)
                   else WantAlias t)
            | Some (FromUrl u) \<Rightarrow>
                (case owner m ix subscribed of [] \<Rightarrow> WantUrl u None | i # _ \<Rightarrow> WantUrl u (Some i))
            | Some (FromItem i) \<Rightarrow> item_fate ix low [i]
            | None \<Rightarrow>
                if \<forall>(s, c, t) \<in> set cov. t then WantAlias (VOTE_DIR @ low)
                else item_fate ix low (owner m ix subscribed))"

definition vote_plan ::
  "lock \<Rightarrow> index \<Rightarrow> view list \<Rightarrow> (string \<times> override) list \<Rightarrow> (string \<times> string) list \<Rightarrow> string set \<Rightarrow> (string \<times> fate) list" where
  "vote_plan lock ix views overrides have force =
     map (\<lambda>(low, m, cov). (m, decide lock ix views overrides have force (low, m, cov))) (todo_maps (status_of views))"

section \<open>Making the images\<close>

text \<open>A file of the output directory: the bytes of a picture, or a text.\<close>

datatype vfile = Picture bytes | Text string

type_synonym out_dir = "(string \<times> vfile) list"

definition SIZE :: string where "SIZE = ''512x256''"

definition or_dash :: "string option \<Rightarrow> string" where
  "or_dash x = (case x of None \<Rightarrow> ''-'' | Some t \<Rightarrow> if t = [] then ''-'' else t)"

definition kv_line :: "string \<Rightarrow> string \<Rightarrow> string \<Rightarrow> string" where
  "kv_line k blank v = quoted k @ blank @ quoted v"

definition sidecar :: "string \<Rightarrow> string option \<Rightarrow> string option \<Rightarrow> string \<Rightarrow> string" where
  "sidecar map_name item title url =
     join_lines
       [''// Vote image for '' @ map_name @ ''. Workshop item '' @ or_dash item @ '' ('' @ or_dash title @ ''), preview:'',
        ''// '' @ url,
        ''// Generated by fastdl/tools/mapvote_images.py. Move the crop with focusx/focusy (0-1).'',
        kv_line ''format'' ''  '' ''DXT1'',
        kv_line ''nomip'' ''   '' ''1'',
        kv_line ''nolod'' ''   '' ''1'',
        kv_line ''fit'' ''     '' SIZE,
        kv_line ''focusx'' ''  '' ''0.5'',
        kv_line ''focusy'' ''  '' ''0.5'', []]"

definition alias_vmt :: "string \<Rightarrow> string \<Rightarrow> string" where
  "alias_vmt map_name texture =
     join_lines
       [''// Vote image for '' @ map_name @ '': reuses '' @ texture @ '', which clients already have.'',
        ''// Generated by fastdl/tools/mapvote_images.py.'',
        quoted ''UnlitGeneric'',
        ''{'',
        tab # quoted ''$basetexture'' @ [tab] @ quoted texture,
        tab # quoted ''$vertexcolor'' @ [tab] @ ''1'',
        tab # quoted ''$vertexalpha'' @ [tab] @ ''1'',
        tab # quoted ''$ignorez'' @ [tab, tab] @ ''1'',
        tab # quoted ''$no_fullbright'' @ [tab] @ ''1'',
        tab # quoted ''$nolod'' @ [tab, tab, tab] @ ''1'',
        ''}'', []]"

definition JPEG :: bytes where "JPEG = [255, 216, 255]"
definition PNG :: bytes where "PNG = [137, 80, 78, 71, 13, 10, 26, 10]"

definition picture_ext :: "bytes \<Rightarrow> string option" where
  "picture_ext data =
     (if take 3 data = JPEG then Some ''.jpg'' else if take 8 data = PNG then Some ''.png'' else None)"

definition remove_output :: "string \<Rightarrow> out_dir \<Rightarrow> out_dir" where
  "remove_output existing out = filter (\<lambda>(f, x). f \<noteq> existing \<and> f \<noteq> existing @ ''.txt'') out"

text \<open>
  \<open>write_image\<close>: the answer of the web server is a parameter, \<open>None\<close> for the
  \<open>OSError\<close> of a request that fails.
\<close>

definition write_image ::
  "(string \<Rightarrow> bytes option) \<Rightarrow> string \<Rightarrow> string \<Rightarrow> string option \<Rightarrow> string option \<Rightarrow> out_dir \<Rightarrow> out_dir option" where
  "write_image http map_name url item title out =
     obind (http url) (\<lambda>data.
     obind (picture_ext data) (\<lambda>ext.
       let path = map_name @ ext
       in Some (AList.update (path @ ''.txt'') (Text (sidecar map_name item title url))
                 (AList.update path (Picture data) out))))"

definition title_of :: "lock \<Rightarrow> string option \<Rightarrow> byte_error + string option" where
  "title_of lock item =
     (case item of None \<Rightarrow> Inr None
      | Some i \<Rightarrow> (case map_of (lk_items lock) i of None \<Rightarrow> Inl MissingKey | Some it \<Rightarrow> Inr (Some (it_title it))))"

text \<open>What is known of one map when it has been dealt with: made, or left with no image.\<close>

datatype made = Made | NotMade

definition clear_existing :: "bool \<Rightarrow> (string \<times> string) list \<Rightarrow> string \<Rightarrow> out_dir \<Rightarrow> out_dir" where
  "clear_existing dry have m out =
     (case map_of have (py_lower m) of
        None \<Rightarrow> out | Some f \<Rightarrow> if dry then out else remove_output f out)"

definition fetch_image ::
  "(string \<Rightarrow> bytes option) \<Rightarrow> bool \<Rightarrow> string \<Rightarrow> string option \<Rightarrow> string option \<Rightarrow> string option \<Rightarrow> out_dir
     \<Rightarrow> out_dir \<times> made" where
  "fetch_image http dry m url item title out =
     (case url of
        None \<Rightarrow> (out, NotMade)
      | Some u \<Rightarrow>
          if u = [] then (out, NotMade)
          else if dry then (out, Made)
          else case write_image http m u item title out of None \<Rightarrow> (out, NotMade) | Some out' \<Rightarrow> (out', Made))"

fun generate_one ::
  "lock \<Rightarrow> (string \<Rightarrow> string option) \<Rightarrow> (string \<Rightarrow> bytes option) \<Rightarrow> bool \<Rightarrow> (string \<times> string) list
     \<Rightarrow> string \<Rightarrow> fate \<Rightarrow> out_dir \<Rightarrow> byte_error + out_dir \<times> made" where
  "generate_one lock info http dry have m (WantAlias t) out =
     (let out = clear_existing dry have m out
      in Inr (if dry then out else AList.update (m @ ''.vmt'') (Text (alias_vmt m t)) out, Made))"
| "generate_one lock info http dry have m (WantUrl u item) out =
     rbind (title_of lock item) (\<lambda>title.
       Inr (fetch_image http dry m (Some u) item title (clear_existing dry have m out)))"
| "generate_one lock info http dry have m (WantItem i) out =
     rbind (title_of lock (Some i)) (\<lambda>title.
       Inr (fetch_image http dry m (info i) (Some i) title (clear_existing dry have m out)))"
| "generate_one lock info http dry have m _ out = Inr (out, NotMade)"

fun generate ::
  "lock \<Rightarrow> (string \<Rightarrow> string option) \<Rightarrow> (string \<Rightarrow> bytes option) \<Rightarrow> bool \<Rightarrow> (string \<times> string) list
     \<Rightarrow> (string \<times> fate) list \<Rightarrow> out_dir \<Rightarrow> out_dir \<times> (string \<times> made) list \<times> byte_error option" where
  "generate lock info http dry have [] out = (out, [], None)"
| "generate lock info http dry have ((m, fate) # rest) out =
     (case generate_one lock info http dry have m fate out of
        Inl e \<Rightarrow> (out, [], Some e)
      | Inr (out, made) \<Rightarrow>
          let (out, res, e) = generate lock info http dry have rest out in (out, (m, made) # res, e))"

text \<open>
  \<open>main\<close> after the index is complete: what the output directory holds when it
  ends, by itself or with an exception.
\<close>

definition vote_views :: "lock \<Rightarrow> index \<Rightarrow> (string \<times> string option) list \<Rightarrow> byte_error + view list" where
  "vote_views lock ix config = rmap (server_view lock ix) (cycle_servers config)"

definition vote_run ::
  "lock \<Rightarrow> index \<Rightarrow> (string \<times> string option) list \<Rightarrow> string option \<Rightarrow> string set \<Rightarrow> (string \<Rightarrow> string option)
     \<Rightarrow> (string \<Rightarrow> bytes option) \<Rightarrow> bool \<Rightarrow> out_dir \<Rightarrow> byte_error + out_dir \<times> (string \<times> made) list \<times> byte_error option" where
  "vote_run lock ix config ov_file force info http dry out =
     rbind (read_overrides ov_file) (\<lambda>overrides.
     rbind (vote_views lock ix config) (\<lambda>views.
       let have = outputs (map fst out); plan = vote_plan lock ix views overrides have force
       in Inr (generate lock info http dry have plan out)))"

section \<open>Names of outputs\<close>

lemma splitext_dot:
  assumes "splitext f = (stem, ext)" and "ext \<noteq> []"
  shows "\<exists>e. ext = CHR ''.'' # e \<and> CHR ''.'' \<notin> set e \<and> f = stem @ ext"
proof -
  from assms obtain d e where r: "rpartition (CHR ''.'') f = (stem, d, e)" "ext = CHR ''.'' # e"
    "CHR ''.'' \<in> set (dropWhile (\<lambda>c. c = CHR ''.'') f)"
    by (auto simp: splitext_def Let_def split: if_splits prod.splits)
  from r(3) have "CHR ''.'' \<in> set f" by (auto dest: set_dropWhileD)
  then have "d" using r(1) by (auto simp: rpartition_def Let_def split: if_splits)
  with r rpartition_True [of "CHR ''.''" f stem e] show ?thesis by simp
qed

lemma last_dot_unique:
  assumes "a @ CHR ''.'' # b = c @ CHR ''.'' # d" and "CHR ''.'' \<notin> set b" and "CHR ''.'' \<notin> set d"
  shows "a = c \<and> b = d"
proof -
  have "rpartition (CHR ''.'') (c @ CHR ''.'' # d) = (a, True, b)"
    using rpartition_split [OF assms(2), of a] unfolding assms(1) .
  then show ?thesis using rpartition_split [OF assms(3), of c] by simp
qed

lemma output_parts:
  assumes "is_output f"
  obtains stem e where "f = stem @ CHR ''.'' # e" "CHR ''.'' \<notin> set e" "output_key f = py_lower stem"
    "py_lower e \<in> {''jpg'', ''png'', ''vmt''}"
proof -
  obtain stem ext where s: "splitext f = (stem, ext)" by (cases "splitext f")
  with assms have "ext \<noteq> []" by (auto simp: is_output_def)
  from splitext_dot [OF s this] obtain e where e: "ext = CHR ''.'' # e" "CHR ''.'' \<notin> set e" "f = stem @ ext" by blast
  have "py_lower ext = CHR ''.'' # py_lower e"
    by (simp add: e(1) py_lower_def lower_char_def)
  with assms s e show thesis
    by (intro that [of stem e]) (auto simp: is_output_def output_key_def)
qed

definition picture_exts :: "string list" where
  "picture_exts = [''vmt'', ''jpg'', ''png'']"

lemma output_named:
  assumes "is_output f" and "f = m @ CHR ''.'' # e" and "e \<in> set picture_exts"
  shows "output_key f = py_lower m"
proof -
  obtain stem e' where f: "f = stem @ CHR ''.'' # e'" "CHR ''.'' \<notin> set e'" "output_key f = py_lower stem"
    using assms(1) by (rule output_parts)
  have "CHR ''.'' \<notin> set e" using assms(3) by (auto simp: picture_exts_def)
  with last_dot_unique [of stem e' m e] f assms(2) show ?thesis by simp
qed

lemma output_not_txt: "is_output f \<Longrightarrow> f \<noteq> g @ ''.txt''"
proof
  assume "is_output f" "f = g @ ''.txt''"
  then obtain stem e where f: "f = stem @ CHR ''.'' # e" "CHR ''.'' \<notin> set e" "py_lower e \<in> {''jpg'', ''png'', ''vmt''}"
    by (elim output_parts)
  have "e = ''txt''" using last_dot_unique [of stem e g "''txt''"] f \<open>f = g @ ''.txt''\<close> by simp
  with f(3) show False by (simp add: py_lower_def lower_char_def)
qed

lemma outputs_snoc:
  "outputs (l @ [f]) = (if is_output f then AList.update (output_key f) f (outputs l) else outputs l)"
  by (simp add: outputs_def)

lemma outputs_Some: "map_of (outputs l) k = Some g \<Longrightarrow> g \<in> set l \<and> is_output g \<and> output_key g = k"
proof (induction l rule: rev_induct)
  case Nil
  then show ?case by (simp add: outputs_def)
next
  case (snoc f l)
  then show ?case by (cases "is_output f \<and> output_key f = k") (auto simp: outputs_snoc update_conv' split: if_splits)
qed

lemma outputs_has: "f \<in> set l \<Longrightarrow> is_output f \<Longrightarrow> map_of (outputs l) (output_key f) \<noteq> None"
proof (induction l rule: rev_induct)
  case (snoc g l)
  then show ?case by (auto simp: outputs_snoc update_conv')
qed simp

section \<open>Coverage, map by map\<close>

lemma py_lower_VOTE_DIR: "py_lower VOTE_DIR = VOTE_DIR"
  by code_simp

lemma map_state_lower: "py_lower m = py_lower m' \<Longrightarrow> map_state v m = map_state v m'"
  by (simp add: map_state_def covered_def)

definition events :: "view list \<Rightarrow> (string \<times> string \<times> bool \<times> bool) list" where
  "events views = concat (map (\<lambda>v. map (\<lambda>m. (m, vw_server v, map_state v m)) (vw_maps v)) views)"

lemma status_events: "status_of views = foldl (\<lambda>st (m, s, b). put_status m s b st) [] (events views)"
proof -
  have inner: "foldl (\<lambda>st m. put_status m s (g m) st) st ms =
      foldl (\<lambda>st (m, s, b). put_status m s b st) st (map (\<lambda>m. (m, s, g m)) ms)" for s g st ms
    by (induction ms arbitrary: st) auto
  have "foldl (\<lambda>st v. foldl (\<lambda>st m. put_status m (vw_server v) (map_state v m) st) st (vw_maps v)) st vs =
      foldl (\<lambda>st (m, s, b). put_status m s b st) st (events vs)" for st vs
    by (induction vs arbitrary: st) (simp_all add: events_def inner)
  then show ?thesis by (simp add: status_of_def)
qed

lemma map_of_put_status:
  "map_of (put_status m s b st) k =
     (if k = py_lower m
      then Some (case map_of st k of None \<Rightarrow> (m, [(s, b)]) | Some (sp, cov) \<Rightarrow> (sp, AList.update s b cov))
      else map_of st k)"
  by (induction m s b st rule: put_status.induct) auto

lemma keys_put_status_subset: "fst ` set (put_status m s b st) \<subseteq> insert (py_lower m) (fst ` set st)"
  by (induction m s b st rule: put_status.induct) auto

lemma keys_put_status: "distinct (map fst st) \<Longrightarrow> distinct (map fst (put_status m s b st))"
proof (induction m s b st rule: put_status.induct)
  case (2 m s b low sp cov st)
  then show ?case using keys_put_status_subset [of m s b st] by (cases "low = py_lower m") auto
qed simp

definition status_inv :: "(string \<times> string \<times> bool \<times> bool) list \<Rightarrow> status \<Rightarrow> bool" where
  "status_inv es st \<longleftrightarrow>
     (\<forall>low sp cov. map_of st low = Some (sp, cov) \<longrightarrow>
        low = py_lower sp \<and> (\<forall>p \<in> set cov. \<exists>m. (m, p) \<in> set es \<and> py_lower m = low))
     \<and> (\<forall>(m, s, b) \<in> set es. \<exists>sp cov. map_of st (py_lower m) = Some (sp, cov) \<and> s \<in> fst ` set cov)"

lemma status_invD:
  assumes "status_inv es st"
  shows "map_of st low = Some (sp, cov) \<Longrightarrow> low = py_lower sp"
    and "map_of st low = Some (sp, cov) \<Longrightarrow> p \<in> set cov \<Longrightarrow> \<exists>m. (m, p) \<in> set es \<and> py_lower m = low"
    and "(m, s, b) \<in> set es \<Longrightarrow> \<exists>sp cov. map_of st (py_lower m) = Some (sp, cov) \<and> s \<in> fst ` set cov"
  using assms unfolding status_inv_def by blast+

lemma set_update: "p \<in> set (AList.update s b cov) \<Longrightarrow> p = (s, b) \<or> p \<in> set cov"
  by (induction cov) (auto split: if_splits)

lemma keys_update: "fst ` set (AList.update s b cov) = insert s (fst ` set cov)"
  by (induction cov) auto

lemma status_inv_step:
  assumes "status_inv es st"
  shows "status_inv (es @ [(m, s, b)]) (put_status m s b st)"
proof -
  have "low = py_lower sp \<and> (\<forall>p \<in> set cov. \<exists>m'. (m', p) \<in> set (es @ [(m, s, b)]) \<and> py_lower m' = low)"
    if k: "map_of (put_status m s b st) low = Some (sp, cov)" for low sp cov
  proof (cases "low = py_lower m \<and> map_of st low \<noteq> None")
    case True
    then obtain cov0 where "map_of st low = Some (sp, cov0)" "cov = AList.update s b cov0"
      using k by (auto simp: map_of_put_status)
    with status_invD(1,2) [OF assms] True set_update [of _ s b cov0] show ?thesis by fastforce
  next
    case False
    then consider "low = py_lower m" "map_of st low = None" | "low \<noteq> py_lower m" by blast
    then show ?thesis
    proof cases
      case 1
      with k show ?thesis by (auto simp: map_of_put_status)
    next
      case 2
      with k have "map_of st low = Some (sp, cov)" by (simp add: map_of_put_status)
      from status_invD(1) [OF assms this] status_invD(2) [OF assms this] show ?thesis
        unfolding set_append by blast
    qed
  qed
  moreover have "\<exists>sp cov. map_of (put_status m s b st) (py_lower m') = Some (sp, cov) \<and> s' \<in> fst ` set cov"
    if e: "(m', s', b') \<in> set (es @ [(m, s, b)])" for m' s' b'
  proof (cases "(m', s', b') \<in> set es")
    case True
    with status_invD(3) [OF assms] obtain sp cov
      where "map_of st (py_lower m') = Some (sp, cov)" "s' \<in> fst ` set cov" by blast
    then show ?thesis by (cases "py_lower m' = py_lower m") (simp_all add: map_of_put_status keys_update)
  next
    case False
    with e have "m' = m" "s' = s" by auto
    then show ?thesis by (auto simp: map_of_put_status keys_update split: option.split)
  qed
  ultimately show ?thesis unfolding status_inv_def by blast
qed

lemma status_ok: "status_inv (events views) (status_of views) \<and> distinct (map fst (status_of views))"
proof -
  have "status_inv es (foldl (\<lambda>st (m, s, b). put_status m s b st) [] es)
      \<and> distinct (map fst (foldl (\<lambda>st (m, s, b). put_status m s b st) [] es))" for es
    by (induction es rule: rev_induct) (auto simp: status_inv_step keys_put_status, simp add: status_inv_def)
  then show ?thesis by (simp add: status_events)
qed

lemma mem_events: "(m, s, b) \<in> set (events views) \<longleftrightarrow>
    (\<exists>v \<in> set views. m \<in> set (vw_maps v) \<and> s = vw_server v \<and> b = map_state v m)"
  by (auto simp: events_def)

lemma status_entry:
  assumes "(low, m, cov) \<in> set (status_of views)"
  shows "low = py_lower m"
    and "(s, b) \<in> set cov \<Longrightarrow> \<exists>v \<in> set views. s = vw_server v \<and> b = map_state v m"
proof -
  have k: "map_of (status_of views) low = Some (m, cov)" using assms status_ok by simp
  show low: "low = py_lower m" using status_invD(1) [OF status_ok [THEN conjunct1] k] .
  assume "(s, b) \<in> set cov"
  from status_invD(2) [OF status_ok [THEN conjunct1] k this]
  obtain m' where "(m', s, b) \<in> set (events views)" "py_lower m' = low" by blast
  with low map_state_lower [of m' m] show "\<exists>v \<in> set views. s = vw_server v \<and> b = map_state v m"
    by (auto simp: mem_events)
qed

lemma status_listed:
  assumes "(low, m, cov) \<in> set (status_of views)" and "v \<in> set views" and "m' \<in> set (vw_maps v)"
    and "py_lower m' = low" and "distinct (map vw_server views)"
  shows "(vw_server v, map_state v m) \<in> set cov"
proof -
  have "map_of (status_of views) low = Some (m, cov)" using assms(1) status_ok by simp
  moreover have "(m', vw_server v, map_state v m') \<in> set (events views)"
    using assms(2,3) by (auto simp: mem_events)
  ultimately have "vw_server v \<in> fst ` set cov"
    using status_invD(3) [OF status_ok [THEN conjunct1]] assms(4) by fastforce
  then obtain b where b: "(vw_server v, b) \<in> set cov" by auto
  with status_entry(2) [OF assms(1)] obtain w where w: "w \<in> set views" "vw_server v = vw_server w" "b = map_state w m"
    by blast
  from w(1,2) assms(2,5) have "w = v" by (metis distinct_map inj_onD)
  with b w(3) show ?thesis by simp
qed

definition wanted :: "fate \<Rightarrow> bool" where
  "wanted fate \<longleftrightarrow> (case fate of WantAlias t \<Rightarrow> True | WantUrl u i \<Rightarrow> True | WantItem i \<Rightarrow> True | _ \<Rightarrow> False)"

lemma plan_entry:
  assumes "(m, fate) \<in> set (vote_plan lock ix views overrides have force)"
  obtains cov where "(py_lower m, m, cov) \<in> set (status_of views)" "is_todo cov"
    "fate = decide lock ix views overrides have force (py_lower m, m, cov)"
proof -
  obtain low cov where c: "(low, m, cov) \<in> set (status_of views)" "is_todo cov"
    "fate = decide lock ix views overrides have force (low, m, cov)"
    using assms by (auto simp: vote_plan_def todo_maps_def)
  with status_entry(1) [OF c(1)] that show thesis by simp
qed

lemma todo_uncovered: "is_todo cov \<Longrightarrow> (s, c, t) \<in> set cov \<Longrightarrow> \<not> c"
  by (auto simp: is_todo_def)

lemma plan_uncovered:
  assumes "(m, fate) \<in> set (vote_plan lock ix views overrides have force)" and "distinct (map vw_server views)"
    and "v \<in> set views" and "m' \<in> set (vw_maps v)" and "py_lower m' = py_lower m"
  shows "\<not> covered m' (vw_images v)"
proof -
  obtain cov where c: "(py_lower m, m, cov) \<in> set (status_of views)" "is_todo cov"
    using assms(1) by (rule plan_entry)
  have "(vw_server v, map_state v m) \<in> set cov" by (rule status_listed [OF c(1) assms(3-5,2)])
  with todo_uncovered [OF c(2)] have "\<not> covered m (vw_images v)" by (auto simp: map_state_def)
  then show ?thesis using assms(5) by (simp add: covered_def)
qed

lemma item_fate_no_alias: "item_fate ix low hits \<noteq> WantAlias t"
  by (simp add: item_fate_def)

lemma decide_alias:
  assumes "decide lock ix views overrides have force (low, m, cov) = WantAlias t"
  shows "(\<forall>s \<in> fst ` set cov. py_lower t \<in> server_textures views s) \<or> t = VOTE_DIR @ low \<and> (\<forall>(s, c, x) \<in> set cov. x)"
  using assms
  by (auto simp: decide_def Let_def item_fate_no_alias filter_empty_conv
      split: option.splits override.splits if_splits list.splits)

lemma server_textures_view:
  "distinct (map vw_server views) \<Longrightarrow> v \<in> set views \<Longrightarrow> server_textures views (vw_server v) = vw_textures v"
proof -
  assume d: "distinct (map vw_server views)" and v: "v \<in> set views"
  have "map_of (map (\<lambda>v. (vw_server v, vw_textures v)) views) (vw_server v) = Some (vw_textures v)"
    using d v by (intro map_of_is_SomeI) (auto simp: comp_def)
  then show ?thesis by (simp add: server_textures_def)
qed

lemma plan_alias:
  assumes "(m, WantAlias t) \<in> set (vote_plan lock ix views overrides have force)" and "distinct (map vw_server views)"
    and "v \<in> set views" and "m' \<in> set (vw_maps v)" and "py_lower m' = py_lower m"
  shows "py_lower t \<in> vw_textures v"
proof -
  obtain cov where c: "(py_lower m, m, cov) \<in> set (status_of views)" "is_todo cov"
    "WantAlias t = decide lock ix views overrides have force (py_lower m, m, cov)"
    using assms(1) by (rule plan_entry)
  have l: "(vw_server v, map_state v m) \<in> set cov" by (rule status_listed [OF c(1) assms(3-5,2)])
  from decide_alias [OF c(3) [symmetric]] show ?thesis
  proof (elim disjE conjE)
    assume "\<forall>s \<in> fst ` set cov. py_lower t \<in> server_textures views s"
    with l server_textures_view [OF assms(2,3)] show ?thesis by force
  next
    assume "t = VOTE_DIR @ py_lower m" "\<forall>(s, c, x) \<in> set cov. x"
    with l show ?thesis by (auto simp: map_state_def py_lower_VOTE_DIR)
  qed
qed

section \<open>What a run leaves alone\<close>

definition touched :: "(string \<times> string) list \<Rightarrow> string \<Rightarrow> string set" where
  "touched have m =
     (\<Union>e \<in> set picture_exts. {m @ CHR ''.'' # e, (m @ CHR ''.'' # e) @ ''.txt''})
     \<union> (case map_of have (py_lower m) of None \<Rightarrow> {} | Some g \<Rightarrow> {g, g @ ''.txt''})"

lemma map_of_remove: "f \<notin> {g, g @ ''.txt''} \<Longrightarrow> map_of (remove_output g out) f = map_of out f"
  by (induction out) (auto simp: remove_output_def)

lemma removed: "map_of (remove_output g out) g = None"
  by (auto simp: remove_output_def map_of_eq_None_iff)

lemma clear_frame: "f \<notin> touched have m \<Longrightarrow> map_of (clear_existing dry have m out) f = map_of out f"
  by (auto simp: clear_existing_def touched_def map_of_remove split: option.split)

lemma write_frame:
  assumes "write_image http m u item title out = Some out'" and "f \<notin> touched have m"
  shows "map_of out' f = map_of out f"
proof -
  obtain data ext where e: "picture_ext data = Some ext" and out': "out' = AList.update ((m @ ext) @ ''.txt'')
      (Text (sidecar m item title u)) (AList.update (m @ ext) (Picture data) out)"
    using assms(1) by (auto simp: write_image_def obind_Some Let_def)
  then have "ext \<in> {''.jpg'', ''.png''}" by (auto simp: picture_ext_def split: if_splits)
  then have "f \<noteq> m @ ext" "f \<noteq> (m @ ext) @ ''.txt''"
    using assms(2) by (auto simp: touched_def picture_exts_def)
  then show ?thesis by (simp add: out' update_conv')
qed

lemma fetch_frame:
  "fetch_image http dry m url item title out = (out', res) \<Longrightarrow> f \<notin> touched have m \<Longrightarrow> map_of out' f = map_of out f"
  by (auto simp: fetch_image_def write_frame split: option.splits if_splits)

lemma generate_one_frame:
  "generate_one lock info http dry have m fate out = Inr (out', res) \<Longrightarrow> f \<notin> touched have m \<or> \<not> wanted fate \<Longrightarrow>
     map_of out' f = map_of out f"
proof (cases fate)
  case (WantAlias t)
  assume g: "generate_one lock info http dry have m fate out = Inr (out', res)" and "f \<notin> touched have m \<or> \<not> wanted fate"
  then have f: "f \<notin> touched have m" "f \<noteq> m @ ''.vmt''"
    by (auto simp: WantAlias wanted_def touched_def picture_exts_def)
  from g show ?thesis
    using clear_frame [OF f(1), of dry out] f(2) by (auto simp: WantAlias Let_def update_conv' split: if_splits)
qed (auto simp: wanted_def result_simps clear_frame dest!: fetch_frame)

lemma generate_frame:
  "generate lock info http dry have plan out = (out', res, e) \<Longrightarrow>
     \<forall>(m, fate) \<in> set plan. wanted fate \<longrightarrow> f \<notin> touched have m \<Longrightarrow> map_of out' f = map_of out f"
proof (induction plan arbitrary: out res)
  case Nil
  then show ?case by simp
next
  case (Cons p plan)
  obtain m fate where p: "p = (m, fate)" by (cases p)
  show ?case
  proof (cases "generate_one lock info http dry have m fate out")
    case (Inl err)
    with Cons.prems p show ?thesis by simp
  next
    case (Inr r)
    obtain out1 made where r: "r = (out1, made)" by (cases r)
    with Cons.prems(1) Inr p obtain res' where "generate lock info http dry have plan out1 = (out', res', e)"
      by (auto simp: Let_def split: prod.splits)
    with Cons.IH Cons.prems(2) have "map_of out' f = map_of out1 f" by simp
    moreover have "map_of out1 f = map_of out f"
      using generate_one_frame [OF Inr [unfolded r]] Cons.prems(2) p by auto
    ultimately show ?thesis by simp
  qed
qed

text \<open>An output that is not forced is not touched for any map that is wanted.\<close>

lemma unforced_untouched:
  assumes "f \<in> set listing" and "is_output f" and "output_key f \<notin> force"
    and "(m, fate) \<in> set (vote_plan lock ix views overrides (outputs listing) force)" and "wanted fate"
  shows "f \<notin> touched (outputs listing) m \<and> f @ ''.txt'' \<notin> touched (outputs listing) m"
proof -
  obtain cov where "fate = decide lock ix views overrides (outputs listing) force (py_lower m, m, cov)"
    using assms(4) by (rule plan_entry)
  with assms(5) have force: "py_lower m \<in> force \<or> map_of (outputs listing) (py_lower m) = None"
    by (auto simp: decide_def wanted_def split: option.splits if_splits)
  with outputs_has [OF assms(1,2)] assms(3) have key: "output_key f \<noteq> py_lower m" by auto
  have named: "f \<noteq> m @ CHR ''.'' # e" if "e \<in> set picture_exts" for e
    using output_named [OF assms(2) _ that] key by blast
  have other: "f \<noteq> g \<and> f \<noteq> g @ ''.txt'' \<and> f @ ''.txt'' \<noteq> g" if "map_of (outputs listing) (py_lower m) = Some g" for g
    using outputs_Some [OF that] key output_not_txt assms(2) by blast
  have ext: "f @ ''.txt'' \<noteq> m @ CHR ''.'' # e" if "e \<in> set picture_exts" for e
    using that last_dot_unique [of f "''txt''" m e] by (auto simp: picture_exts_def)
  have side: "f @ ''.txt'' \<noteq> (m @ CHR ''.'' # e) @ ''.txt''" if "e \<in> set picture_exts" for e
    using named [OF that] by (simp only: append_same_eq not_False_eq_True)
  have same: "f @ ''.txt'' \<noteq> g @ ''.txt''" if "map_of (outputs listing) (py_lower m) = Some g" for g
    using other [OF that] by (metis append_same_eq)
  note facts = named other ext side same output_not_txt [OF assms(2)]
  show ?thesis
  proof (cases "map_of (outputs listing) (py_lower m)")
    case None
    show ?thesis unfolding touched_def None option.case using facts by blast
  next
    case (Some g)
    show ?thesis unfolding touched_def Some option.case using facts Some by blast
  qed
qed

section \<open>Runs\<close>

lemma run_keeps:
  assumes "vote_run lock ix config ov force info http dry out = Inr (out', res, e)"
    and "map_of out f = Some x" and "is_output f" and "output_key f \<notin> force"
  shows "map_of out' f = Some x \<and> map_of out' (f @ ''.txt'') = map_of out (f @ ''.txt'')"
proof -
  obtain overrides views where g: "generate lock info http dry (outputs (map fst out))
      (vote_plan lock ix views overrides (outputs (map fst out)) force) out = (out', res, e)"
    using assms(1) by (auto simp: vote_run_def result_simps Let_def)
  have "f \<in> set (map fst out)" using map_of_SomeD [OF assms(2)] by force
  note untouched = unforced_untouched [OF this assms(3,4)]
  have "map_of out' f = map_of out f" "map_of out' (f @ ''.txt'') = map_of out (f @ ''.txt'')"
    using untouched by (intro generate_frame [OF g]; fastforce)+
  with assms(2) show ?thesis by simp
qed

text \<open>
  Any number of runs, each with its own lockfile, index, mapcycles, overrides and
  answers from the web, of which none forces a map of \<open>kept\<close>.
\<close>

inductive vote_runs :: "string set \<Rightarrow> out_dir \<Rightarrow> out_dir \<Rightarrow> bool" for kept where
  no_run: "vote_runs kept out out"
| one_run: "vote_run lock ix config ov force info http dry out = Inr (out1, res, e) \<Longrightarrow> force \<inter> kept = {} \<Longrightarrow>
    vote_runs kept out1 out2 \<Longrightarrow> vote_runs kept out out2"

lemma runs_keep:
  "vote_runs kept out out' \<Longrightarrow> map_of out f = Some x \<Longrightarrow> is_output f \<Longrightarrow> output_key f \<in> kept \<Longrightarrow>
     map_of out' f = Some x \<and> map_of out' (f @ ''.txt'') = map_of out (f @ ''.txt'')"
proof (induction rule: vote_runs.induct)
  case (one_run lock ix config ov force info http dry out out1 res e out2)
  have "output_key f \<notin> force" using one_run.prems(3) one_run.hyps(2) by blast
  from run_keeps [OF one_run.hyps(1) one_run.prems(1,2) this] one_run.IH one_run.prems(2,3)
  show ?case by simp
qed simp

section \<open>Properties\<close>

text \<open>
  C30.  Only maps that no server has an image for are given one: a map the plan
  has an entry for is uncovered on every server that lists it, whatever its
  spelling there, and when its image is an alias, every one of these servers has
  the texture the alias points to.
\<close>

theorem only_uncovered_maps_get_images:
  assumes "(m, fate) \<in> set (vote_plan lock ix views overrides have force)" and "distinct (map vw_server views)"
    and "v \<in> set views" and "m' \<in> set (vw_maps v)" and "py_lower m' = py_lower m"
  shows "\<not> covered m' (vw_images v) \<and> (\<forall>t. fate = WantAlias t \<longrightarrow> py_lower t \<in> vw_textures v)"
  using plan_uncovered [OF assms] plan_alias [OF _ assms(2-5)] assms(1) by blast

definition sample_view :: view where
  "sample_view = \<lparr>vw_server = ''main'', vw_maps = [''Anbar_Coop'', ''ministry''],
     vw_images = {''vgui/maps/ministry_large''}, vw_textures = {''vgui/endroundlobby/maps/anbar_coop''}\<rparr>"

lemma sample_plan:
  "vote_plan sample_lock stock_index [sample_view] [] [] {} =
     [(''Anbar_Coop'', WantAlias ''vgui/endroundlobby/maps/anbar_coop'')]"
  by code_simp

theorem only_uncovered_maps_get_images_witness:
  "\<not> covered ''Anbar_Coop'' (vw_images sample_view)
   \<and> py_lower ''vgui/endroundlobby/maps/anbar_coop'' \<in> vw_textures sample_view"
proof -
  have p: "(''Anbar_Coop'', WantAlias ''vgui/endroundlobby/maps/anbar_coop'') \<in>
      set (vote_plan sample_lock stock_index [sample_view] [] [] {})"
    by (simp add: sample_plan)
  from only_uncovered_maps_get_images [OF p, of sample_view "''Anbar_Coop''"] show ?thesis
    by (simp add: sample_view_def)
qed

text \<open>
  C31.  Nothing that has shipped is overwritten: over any number of runs that do
  not force its map, a picture or alias that is in the output directory keeps its
  contents, and so does the text beside it.
\<close>

theorem shipped_images_never_change:
  assumes "vote_runs kept out out'" and "map_of out f = Some x" and "is_output f" and "output_key f \<in> kept"
  shows "map_of out' f = Some x \<and> map_of out' (f @ ''.txt'') = map_of out (f @ ''.txt'')"
  using assms by (rule runs_keep)

definition vote_config :: "(string \<times> string option) list" where
  "vote_config = [(''base'', Some ''x''), (''main'', Some (''Anbar_Coop // new'' @ [newline] @ ''ministry''))]"

definition vote_index :: index where
  "vote_index = stock_index\<lparr>ix_items := [(''101'', vote_entry\<lparr>en_maps := [''anbar_coop'']\<rparr>), (''102'', vote_entry)]\<rparr>"

definition vote_http :: "string \<Rightarrow> bytes option" where
  "vote_http u = (if u = ''http://p'' then Some [255, 216, 255, 0] else None)"

lemma first_run:
  "vote_run sample_lock vote_index vote_config None {} (\<lambda>i. if i = ''101'' then Some ''http://p'' else None) vote_http False
     [(''old.png'', Picture [1])] =
   Inr ([(''old.png'', Picture [1]), (''Anbar_Coop.jpg'', Picture [255, 216, 255, 0]),
         (''Anbar_Coop.jpg.txt'', Text (sidecar ''Anbar_Coop'' (Some ''101'') (Some ''map'') ''http://p''))],
        [(''Anbar_Coop'', Made)], None)"
  by code_simp

theorem shipped_images_never_change_witness:
  "\<exists>out'. vote_runs {''old''} [(''old.png'', Picture [1])] out' \<and> map_of out' ''old.png'' = Some (Picture [1])
     \<and> map_of out' ''Anbar_Coop.jpg'' = Some (Picture [255, 216, 255, 0])"
proof -
  let ?out = "[(''old.png'', Picture [1]), (''Anbar_Coop.jpg'', Picture [255, 216, 255, 0]),
         (''Anbar_Coop.jpg.txt'', Text (sidecar ''Anbar_Coop'' (Some ''101'') (Some ''map'') ''http://p''))]"
  have r: "vote_runs {''old''} [(''old.png'', Picture [1])] ?out"
    using first_run by (rule vote_runs.one_run) (simp_all add: vote_runs.no_run)
  have "is_output ''old.png''" "output_key ''old.png'' \<in> {''old''}" by code_simp+
  with shipped_images_never_change [OF r, of "''old.png''" "Picture [1]"] r
  show ?thesis by (intro exI [of _ ?out]) simp
qed

end
