(* ===== verification/VoteReport.thy ===== *)
theory VoteReport
  imports VoteImages
begin

text \<open>
  What a run of \<open>fastdl/tools/mapvote_images.py\<close> reports beside the images it makes:
  the maps some servers have an image for, and the outputs that are no longer
  needed.  Then how runs follow one another: after a refresh that leaves nothing
  unindexed, when images are forced, and when a run is repeated.
\<close>

section \<open>The report\<close>

definition all_covered :: "(string \<times> bool \<times> bool) list \<Rightarrow> bool" where
  "all_covered cov \<longleftrightarrow> (\<forall>(s, c, t) \<in> set cov. c)"

definition mixed :: "status \<Rightarrow> (string \<times> (string \<times> bool \<times> bool) list) list" where
  "mixed st =
     map snd (filter (\<lambda>(low, m, cov). \<not> all_covered cov \<and> (\<exists>(s, c, t) \<in> set cov. c)) (sort_key fst st))"

definition superseded :: "status \<Rightarrow> (string \<times> string) list \<Rightarrow> string list" where
  "superseded st have =
     sort (map snd (filter (\<lambda>(low, f). case map_of st low of None \<Rightarrow> False | Some (m, cov) \<Rightarrow> all_covered cov) have))"

definition orphaned :: "status \<Rightarrow> (string \<times> string) list \<Rightarrow> string list" where
  "orphaned st have = sort (map snd (filter (\<lambda>(low, f). map_of st low = None) have))"

section \<open>The previews of an item\<close>

text \<open>\<open>https://images\.steamusercontent\.com/ugc/\d+/[0-9A-F]+/\<close>, each address once.\<close>

definition hex_char :: "char \<Rightarrow> bool" where
  "hex_char c \<longleftrightarrow> ascii_digit c \<or> (let n = of_char c :: nat in 65 \<le> n \<and> n \<le> 70)"

definition UGC :: string where "UGC = ''https://images.steamusercontent.com/ugc/''"

definition match_preview :: "string \<Rightarrow> (string \<times> string) option" where
  "match_preview s =
     obind (expect UGC s) (\<lambda>t.
     obind (take_digits t) (\<lambda>(ds, t).
     obind (expect ''/'' t) (\<lambda>t.
       let hex = takeWhile hex_char t
       in if hex = [] then None
          else obind (expect ''/'' (drop (length hex) t)) (\<lambda>t. Some (UGC @ ds @ ''/'' @ hex @ ''/'', t)))))"

definition previews :: "string \<Rightarrow> string list" where
  "previews html = first_by id {} (find_all match_preview html)"

text \<open>\<open>--previews MAP\<close>: the items that hold the map, their titles and previews.\<close>

definition list_previews ::
  "lock \<Rightarrow> index \<Rightarrow> string list \<Rightarrow> (string \<Rightarrow> string) \<Rightarrow> string \<Rightarrow> byte_error + (string \<times> string option \<times> string list) list" where
  "list_previews lock ix names pages map_name =
     rmap (\<lambda>i. rbind (title_of lock (Some i)) (\<lambda>title. Inr (i, title, previews (pages i))))
       (owner map_name ix (sort (remdups (concat (map (subscribed_items lock) names)))))"

section \<open>The command\<close>

datatype vote_outcome =
    Previews "(string \<times> string option \<times> string list) list"
  | Unindexed "string list"
  | Generated out_dir "(string \<times> made) list" "byte_error option"

definition vote_main ::
  "(bytes \<Rightarrow> string list option) \<Rightarrow> (string list \<Rightarrow> root) option \<Rightarrow> game option \<Rightarrow> root list \<Rightarrow> int \<Rightarrow> lock \<Rightarrow> index
     \<Rightarrow> (string \<times> string option) list \<Rightarrow> string option \<Rightarrow> (string \<Rightarrow> string) \<Rightarrow> string option \<Rightarrow> string set
     \<Rightarrow> (string \<Rightarrow> string option) \<Rightarrow> (string \<Rightarrow> bytes option) \<Rightarrow> bool \<Rightarrow> out_dir \<Rightarrow> byte_error + index \<times> vote_outcome" where
  "vote_main namelist fetch game roots limit lock ix config show_map pages ov force info http dry out =
     rbind (refresh_index namelist fetch game roots limit lock ix) (\<lambda>(ix, missing).
       case show_map of
         Some (c # m) \<Rightarrow>
           rbind (list_previews lock ix (map fst (cycle_servers config)) pages (c # m)) (\<lambda>ps. Inr (ix, Previews ps))
       | _ \<Rightarrow>
           if missing \<noteq> [] then Inr (ix, Unindexed missing)
           else rbind (vote_run lock ix config ov force info http dry out) (\<lambda>(out, res, e). Inr (ix, Generated out res e)))"

section \<open>Outputs that are no longer needed\<close>

text \<open>The plan asks for the outputs of uncovered maps only.\<close>

lemma decide_cong:
  "map_of have low = map_of have' low \<Longrightarrow>
     decide lock ix views overrides have force (low, m, cov) = decide lock ix views overrides have' force (low, m, cov)"
  by (simp add: decide_def)

lemma plan_cong:
  assumes "\<And>low m cov. map_of (status_of views) low = Some (m, cov) \<Longrightarrow> \<not> all_covered cov \<Longrightarrow>
    map_of have low = map_of have' low"
  shows "vote_plan lock ix views overrides have force = vote_plan lock ix views overrides have' force"
proof -
  have "decide lock ix views overrides have force (low, m, cov) =
      decide lock ix views overrides have' force (low, m, cov)"
    if t: "(low, m, cov) \<in> set (todo_maps (status_of views))" for low m cov
  proof -
    have "(low, m, cov) \<in> set (status_of views)" and todo: "is_todo cov"
      using t by (auto simp: todo_maps_def)
    then have "map_of (status_of views) low = Some (m, cov)" using status_ok by simp
    moreover have "\<not> all_covered cov" using todo unfolding is_todo_def all_covered_def by blast
    ultimately show ?thesis by (intro decide_cong assms)
  qed
  then show ?thesis by (auto simp: vote_plan_def)
qed

definition needless :: "status \<Rightarrow> (string \<times> string) list \<Rightarrow> string set" where
  "needless st have = set (superseded st have) \<union> set (orphaned st have)"

lemma mem_needless:
  assumes "distinct (map fst have)"
  shows "f \<in> needless st have \<longleftrightarrow>
    (\<exists>low. map_of have low = Some f \<and> (\<forall>m cov. map_of st low = Some (m, cov) \<longrightarrow> all_covered cov))"
proof -
  let ?P = "\<lambda>low. case map_of st low of None \<Rightarrow> False | Some (m, cov) \<Rightarrow> all_covered cov"
  have "f \<in> needless st have \<longleftrightarrow> (\<exists>low. (low, f) \<in> set have \<and> (?P low \<or> map_of st low = None))"
    unfolding needless_def superseded_def orphaned_def by force
  moreover have "?P low \<or> map_of st low = None \<longleftrightarrow> (\<forall>m cov. map_of st low = Some (m, cov) \<longrightarrow> all_covered cov)" for low
    by (cases "map_of st low") auto
  moreover have "(low, f) \<in> set have \<longleftrightarrow> map_of have low = Some f" for low
    using assms by simp
  ultimately show ?thesis by simp
qed

lemma distinct_outputs: "distinct (map fst (outputs l))"
  by (induction l rule: rev_induct) (simp_all add: outputs_snoc distinct_update, simp add: outputs_def)


lemma outputs_filter:
  "(\<And>f. f \<in> set l \<Longrightarrow> is_output f \<Longrightarrow> output_key f = k \<Longrightarrow> P f) \<Longrightarrow>
     map_of (outputs (filter P l)) k = map_of (outputs l) k"
proof (induction l rule: rev_induct)
  case Nil
  then show ?case by simp
next
  case (snoc f l)
  have "map_of (outputs (filter P l)) k = map_of (outputs l) k" using snoc by simp
  with snoc.prems [of f] show ?case by (auto simp: outputs_snoc update_conv')
qed

definition delete_needless :: "status \<Rightarrow> string list \<Rightarrow> string list" where
  "delete_needless st listing =
     (let gone = needless st (outputs listing)
      in filter (\<lambda>f. f \<notin> gone \<union> (\<lambda>g. g @ ''.txt'') ` gone) listing)"

lemma delete_needless_keeps:
  assumes "map_of st low = Some (m, cov)" and "\<not> all_covered cov"
  shows "map_of (outputs (delete_needless st listing)) low = map_of (outputs listing) low"
  unfolding delete_needless_def Let_def
proof (rule outputs_filter)
  fix f assume f: "is_output f" "output_key f = low"
  have "f \<notin> needless st (outputs listing)"
  proof
    assume "f \<in> needless st (outputs listing)"
    then obtain low' where l: "map_of (outputs listing) low' = Some f"
      "\<forall>m cov. map_of st low' = Some (m, cov) \<longrightarrow> all_covered cov"
      unfolding mem_needless [OF distinct_outputs] by blast
    from outputs_Some [OF l(1)] f(2) have "low' = low" by simp
    with l(2) assms show False by blast
  qed
  with output_not_txt [OF f(1)] show "f \<notin> needless st (outputs listing) \<union> (\<lambda>g. g @ ''.txt'') ` needless st (outputs listing)"
    by blast
qed

section \<open>After a refresh\<close>

lemma views_of_indexed:
  assumes "\<forall>(i, it) \<in> set (lk_items lock). indexed ix i"
  shows "\<exists>views. vote_views lock ix config = Inr views"
proof -
  have "\<exists>e. entry_of ix i = Inr e \<and> (\<exists>ts. textures_of e = Inr ts)" if "i \<in> set (subscribed_items lock s)" for i s
  proof -
    have "indexed ix i" using that assms by (auto simp: subscribed_items_def)
    then show ?thesis by (auto simp: indexed_def entry_of_def textures_of_def)
  qed
  note entry = this
  have "\<exists>v. server_view lock ix (s, handle) = Inr v" for s handle
  proof -
    have "\<exists>es. rmap (entry_of ix) (subscribed_items lock s) = Inr es"
      using entry by (intro rmap_total) blast
    then obtain es where es: "rmap (entry_of ix) (subscribed_items lock s) = Inr es" by blast
    have "\<exists>tss. rmap textures_of es = Inr tss"
    proof (rule rmap_total)
      fix e assume "e \<in> set es"
      then obtain i where "i \<in> set (subscribed_items lock s)" "entry_of ix i = Inr e"
        using rmap_mem_conv [OF es] by blast
      with entry [of i s] show "\<exists>ts. textures_of e = Inr ts" by auto
    qed
    with es show ?thesis by (auto simp: server_view_def)
  qed
  then show ?thesis unfolding vote_views_def by (intro rmap_total) auto
qed

section \<open>Runs that are repeated\<close>

text \<open>An image that has been made is an output under the name of its map.\<close>

definition has_stem :: "string \<Rightarrow> bool" where
  "has_stem m \<longleftrightarrow> (\<exists>c \<in> set m. c \<noteq> CHR ''.'')"

lemma made_output:
  assumes "has_stem m" and "e \<in> set picture_exts"
  shows "is_output (m @ CHR ''.'' # e)" and "output_key (m @ CHR ''.'' # e) = py_lower m"
proof -
  have dot: "CHR ''.'' \<in> set (dropWhile (\<lambda>c. c = CHR ''.'') (m @ CHR ''.'' # e))"
    using assms(1) by (auto simp: has_stem_def dropWhile_append1)
  have "CHR ''.'' \<notin> set e" using assms(2) by (auto simp: picture_exts_def)
  then have s: "splitext (m @ CHR ''.'' # e) = (m, CHR ''.'' # e)"
    using dot rpartition_split [of "CHR ''.''" e m] by (simp add: splitext_def)
  have "py_lower (CHR ''.'' # e) \<in> {''.jpg'', ''.png'', ''.vmt''}"
    using assms(2) by (auto simp: picture_exts_def py_lower_def lower_char_def)
  then show "is_output (m @ CHR ''.'' # e)" by (simp add: is_output_def s)
  show "output_key (m @ CHR ''.'' # e) = py_lower m" by (simp add: output_key_def s)
qed

lemma keys_remove_output: "fst ` set (remove_output g out) = fst ` set out - {g, g @ ''.txt''}"
  by (force simp: remove_output_def)

lemma clear_dry [simp]: "clear_existing True have m out = out"
  by (auto simp: clear_existing_def split: option.split)

lemma made_has_output:
  assumes "generate_one lock info http False have m fate out = Inr (out', Made)"
  shows "\<exists>e \<in> set picture_exts. m @ CHR ''.'' # e \<in> fst ` set out'"
proof -
  have w: "\<exists>e \<in> set picture_exts. m @ CHR ''.'' # e \<in> fst ` set out2"
    if wr: "write_image http m u item title out1 = Some out2" for u item title out1 out2
  proof -
    obtain data ext where e: "picture_ext data = Some ext" and o: "out2 = AList.update (m @ ext @ ''.txt'')
        (Text (sidecar m item title u)) (AList.update (m @ ext) (Picture data) out1)"
      using wr by (auto simp: write_image_def obind_Some Let_def)
    from e have "ext = ''.jpg'' \<or> ext = ''.png''" by (auto simp: picture_ext_def split: if_splits)
    then show ?thesis unfolding o keys_update picture_exts_def by auto
  qed
  have f: "\<exists>e \<in> set picture_exts. m @ CHR ''.'' # e \<in> fst ` set out2"
    if "fetch_image http False m url item title out1 = (out2, Made)" for url item title out1 out2
    using that w by (auto simp: fetch_image_def split: option.splits if_splits)
  show ?thesis
  proof (cases fate)
    case (WantAlias t)
    with assms have "out' = AList.update (m @ ''.vmt'') (Text (alias_vmt m t)) (clear_existing False have m out)"
      by (simp add: Let_def)
    then show ?thesis by (simp add: keys_update picture_exts_def)
  next
    case (WantUrl u item)
    with assms f show ?thesis by (auto simp: result_simps)
  next
    case (WantItem i)
    with assms f show ?thesis by (auto simp: result_simps)
  qed (use assms in auto)
qed

lemma other_untouched:
  assumes "is_output f" and "output_key f \<noteq> py_lower m"
  shows "f \<notin> touched (outputs listing) m"
proof -
  have "f \<noteq> m @ CHR ''.'' # e" if "e \<in> set picture_exts" for e
    using output_named [OF assms(1) _ that] assms(2) by blast
  moreover have "f \<noteq> g \<and> f \<noteq> g @ ''.txt''" if "map_of (outputs listing) (py_lower m) = Some g" for g
    using outputs_Some [OF that] assms(2) output_not_txt [OF assms(1)] by blast
  moreover have "f \<noteq> (m @ CHR ''.'' # e) @ ''.txt''" for e
    by (rule output_not_txt [OF assms(1)])
  ultimately show ?thesis
    unfolding touched_def by (cases "map_of (outputs listing) (py_lower m)") (simp_all del: append_assoc)
qed

lemma distinct_todo: "distinct (map fst (todo_maps (status_of views)))"
proof -
  have "distinct (map fst (sort_key fst (status_of views)))"
    using status_ok by (simp add: distinct_map inj_on_def)
  then show ?thesis by (simp add: todo_maps_def distinct_map_filter)
qed

lemma distinct_plan: "distinct (map (\<lambda>(m, fate). py_lower m) (vote_plan lock ix views overrides have force))"
proof -
  have "map (\<lambda>(m, fate). py_lower m) (vote_plan lock ix views overrides have force) = map fst (todo_maps (status_of views))"
    using status_entry(1) by (force simp: vote_plan_def todo_maps_def)
  then show ?thesis by (simp add: distinct_todo)
qed

lemma made_stays:
  "generate lock info http False (outputs listing) plan out = (out', res, e) \<Longrightarrow>
     distinct (map (\<lambda>(m, fate). py_lower m) plan) \<Longrightarrow> (m, Made) \<in> set res \<Longrightarrow> has_stem m \<Longrightarrow>
     \<exists>x \<in> set picture_exts. m @ CHR ''.'' # x \<in> fst ` set out'"
proof (induction plan arbitrary: out res)
  case Nil
  then show ?case by simp
next
  case (Cons p plan)
  obtain m1 fate where p: "p = (m1, fate)" by (cases p)
  obtain out1 made where g: "generate_one lock info http False (outputs listing) m1 fate out = Inr (out1, made)"
    using Cons.prems(1,3) p by (auto split: sum.splits)
  obtain res' where r: "generate lock info http False (outputs listing) plan out1 = (out', res', e)"
    and res: "res = (m1, made) # res'"
    using Cons.prems(1) g p by (auto simp: Let_def split: prod.splits)
  show ?case
  proof (cases "(m, Made) \<in> set res'")
    case True
    then show ?thesis using Cons.IH [OF r] Cons.prems(2,4) by simp
  next
    case False
    with Cons.prems(3) res have m: "m1 = m" "made = Made" by auto
    from made_has_output [OF g [unfolded m]] obtain x
      where x: "x \<in> set picture_exts" "m @ CHR ''.'' # x \<in> fst ` set out1" by blast
    note o = made_output [OF Cons.prems(4) x(1)]
    have "\<forall>(m', fate) \<in> set plan. wanted fate \<longrightarrow> m @ CHR ''.'' # x \<notin> touched (outputs listing) m'"
    proof (clarify)
      fix m' fate' assume "(m', fate') \<in> set plan" and t: "m @ CHR ''.'' # x \<in> touched (outputs listing) m'"
      with Cons.prems(2) p m have "py_lower m \<noteq> py_lower m'" by force
      with other_untouched [OF o(1), of m' listing] o(2) t show False by simp
    qed
    from generate_frame [OF r this] x show ?thesis
      by (metis map_of_eq_None_iff)
  qed
qed

lemma run_parts:
  assumes "vote_run lock ix config ov force info http dry out = Inr (out', res, e)"
  obtains overrides views where "generate lock info http dry (outputs (map fst out))
      (vote_plan lock ix views overrides (outputs (map fst out)) force) out = (out', res, e)"
  using assms by (auto simp: vote_run_def result_simps Let_def)

lemma plan_kept:
  assumes "(m, fate) \<in> set (vote_plan lock ix views overrides have force)" and "py_lower m \<notin> force"
    and "map_of have (py_lower m) = Some f"
  shows "fate = Kept f"
proof -
  obtain cov where "fate = decide lock ix views overrides have force (py_lower m, m, cov)"
    using assms(1) by (rule plan_entry)
  with assms(2,3) show ?thesis by (simp add: decide_def)
qed

section \<open>A run that completes\<close>

definition locked :: "lock \<Rightarrow> string \<Rightarrow> bool" where
  "locked lock i \<longleftrightarrow> i \<in> fst ` set (lk_items lock)"

fun item_of :: "fate \<Rightarrow> string option" where
  "item_of (WantItem i) = Some i"
| "item_of (WantUrl u i) = i"
| "item_of _ = None"

lemma subscribed_locked: "i \<in> set (subscribed_items lock s) \<Longrightarrow> locked lock i"
  by (force simp: subscribed_items_def locked_def)

lemma owner_subset: "set (owner m ix ids) \<subseteq> set ids"
  by (auto simp: owner_def)

lemma item_fate_item: "item_of (item_fate ix low hits) = Some i \<Longrightarrow> i \<in> set hits"
  by (auto simp: item_fate_def split: if_splits)

lemma decide_locked:
  assumes "item_of (decide lock ix views overrides have force (low, m, cov)) = Some i"
    and "\<forall>j. map_of overrides low = Some (FromItem j) \<longrightarrow> locked lock j"
  shows "locked lock i"
proof -
  let ?sub = "sort (remdups (concat (map (subscribed_items lock) (map fst cov))))"
  have owned: "locked lock j" if "j \<in> set (owner m ix ?sub)" for j
    using that owner_subset [of m ix ?sub] by (auto intro: subscribed_locked)
  have "(if low \<in> force then None else map_of have low) = None"
    using assms(1) by (cases "if low \<in> force then None else map_of have low") (simp_all add: decide_def)
  then have d: "decide lock ix views overrides have force (low, m, cov) = (case map_of overrides low of
      Some Skip \<Rightarrow> Skipped
    | Some (AliasOf t) \<Rightarrow>
        (let lacking = filter (\<lambda>s. py_lower t \<notin> server_textures views s) (map fst cov)
         in if lacking \<noteq> [] then Unresolved (''alias target '' @ t @ '' is not on '' @ join_by '', '' lacking)
            else WantAlias t)
    | Some (FromUrl u) \<Rightarrow> (case owner m ix ?sub of [] \<Rightarrow> WantUrl u None | i # _ \<Rightarrow> WantUrl u (Some i))
    | Some (FromItem i) \<Rightarrow> item_fate ix low [i]
    | None \<Rightarrow> if \<forall>(s, c, t) \<in> set cov. t then WantAlias (VOTE_DIR @ low) else item_fate ix low (owner m ix ?sub))"
    by (simp add: decide_def Let_def)
  show ?thesis
  proof (cases "map_of overrides low")
    case None
    with assms(1) d have "item_of (item_fate ix low (owner m ix ?sub)) = Some i" by (simp split: if_splits)
    with owned item_fate_item show ?thesis by blast
  next
    case (Some ov)
    show ?thesis
    proof (cases ov)
      case (FromItem j)
      with assms(1) d Some have "item_of (item_fate ix low [j]) = Some i" by simp
      then have "i = j" using item_fate_item [of ix low "[j]" i] by simp
      with assms(2) Some FromItem show ?thesis by simp
    next
      case (FromUrl u)
      with assms(1) d Some have "i \<in> set (owner m ix ?sub)" by (simp split: list.splits)
      with owned show ?thesis by blast
    next
      case (AliasOf t)
      with assms(1) d Some show ?thesis by (simp add: Let_def split: if_splits)
    next
      case Skip
      with assms(1) d Some show ?thesis by simp
    qed
  qed
qed

lemma title_total: "(\<And>i. item = Some i \<Longrightarrow> locked lock i) \<Longrightarrow> \<exists>t. title_of lock item = Inr t"
  by (cases item) (auto simp: title_of_def locked_def map_of_eq_None_iff split: option.split)

lemma generate_one_total:
  "(\<And>i. item_of fate = Some i \<Longrightarrow> locked lock i) \<Longrightarrow> \<exists>r. generate_one lock info http dry have m fate out = Inr r"
  using title_total [of "item_of fate" lock] by (cases fate) (auto simp: Let_def)

lemma generate_total:
  "(\<And>m fate i. (m, fate) \<in> set plan \<Longrightarrow> item_of fate = Some i \<Longrightarrow> locked lock i) \<Longrightarrow>
     \<exists>out' res. generate lock info http dry have plan out = (out', res, None) \<and> map fst res = map fst plan"
proof (induction plan arbitrary: out)
  case (Cons p plan)
  obtain m fate where p: "p = (m, fate)" by (cases p)
  have "\<And>i. item_of fate = Some i \<Longrightarrow> locked lock i" by (rule Cons.prems [of m fate]) (simp_all add: p)
  then obtain out1 made where g: "generate_one lock info http dry have m fate out = Inr (out1, made)"
    using generate_one_total by (metis surj_pair)
  obtain out' res where "generate lock info http dry have plan out1 = (out', res, None)" "map fst res = map fst plan"
    using Cons.IH [of out1] Cons.prems by (metis list.set_intros(2))
  with g show ?case by (simp add: p)
qed simp

lemma plan_locked:
  assumes "(m, fate) \<in> set (vote_plan lock ix views overrides have force)" and "item_of fate = Some i"
    and "\<forall>(l, ov) \<in> set overrides. \<forall>j. ov = FromItem j \<longrightarrow> locked lock j"
  shows "locked lock i"
proof -
  obtain cov where "fate = decide lock ix views overrides have force (py_lower m, m, cov)"
    using assms(1) by (rule plan_entry)
  moreover have "\<forall>j. map_of overrides (py_lower m) = Some (FromItem j) \<longrightarrow> locked lock j"
    using assms(3) by (auto dest!: map_of_SomeD)
  ultimately show ?thesis using decide_locked assms(2) by metis
qed

lemma run_completes:
  assumes "read_overrides ov = Inr overrides" and "vote_views lock ix config = Inr views"
    and "\<forall>(l, o') \<in> set overrides. \<forall>j. o' = FromItem j \<longrightarrow> locked lock j"
  shows "\<exists>out' res. vote_run lock ix config ov force info http dry out = Inr (out', res, None)
    \<and> map fst res = map fst (vote_plan lock ix views overrides (outputs (map fst out)) force)"
proof -
  let ?plan = "vote_plan lock ix views overrides (outputs (map fst out)) force"
  have "\<exists>out' res. generate lock info http dry (outputs (map fst out)) ?plan out = (out', res, None)
      \<and> map fst res = map fst ?plan"
    by (rule generate_total) (rule plan_locked [OF _ _ assms(3)])
  then show ?thesis using assms(1,2) by (auto simp: vote_run_def Let_def)
qed

section \<open>Properties\<close>


definition report_view :: view where
  "report_view = sample_view\<lparr>vw_images := {''vgui/maps/ministry_large'', VOTE_DIR @ ''dust''},
     vw_maps := [''Anbar_Coop'', ''ministry'', ''dust'']\<rparr>"



definition one_item :: lock where
  "one_item = sample_lock\<lparr>lk_items := [(''101'', sample_pin [''main''])]\<rparr>"

lemma one_item_refresh:
  "refresh_index (\<lambda>_. None) None None [vote_root] 0 one_item stock_index =
     Inr (stock_index\<lparr>ix_items := [(''101'', vote_entry)]\<rparr>, [])"
  by code_simp


text \<open>
  C32.  An image is gained once: after a run that made the image of a map, any
  later run over the same directory that does not force the map, whatever the
  lockfile, index, mapcycles and overrides are by then, keeps the output it
  finds.
\<close>

theorem made_maps_are_kept:
  assumes "vote_run lock ix config ov force info http False out = Inr (out', res, e)"
    and "(m, Made) \<in> set res" and "has_stem m"
    and "(m', fate) \<in> set (vote_plan lock2 ix2 views2 overrides2 (outputs (map fst out')) force2)"
    and "py_lower m' = py_lower m" and "py_lower m \<notin> force2"
  shows "\<exists>f. fate = Kept f \<and> output_key f = py_lower m \<and> f \<in> set (map fst out')"
proof -
  obtain overrides views where g: "generate lock info http False (outputs (map fst out))
      (vote_plan lock ix views overrides (outputs (map fst out)) force) out = (out', res, e)"
    using assms(1) by (rule run_parts)
  obtain x where x: "x \<in> set picture_exts" "m @ CHR ''.'' # x \<in> set (map fst out')"
    using made_stays [OF g distinct_plan assms(2,3)] by auto
  note o = made_output [OF assms(3) x(1)]
  obtain f where f: "map_of (outputs (map fst out')) (py_lower m) = Some f"
    using outputs_has [OF x(2) o(1)] o(2) by auto
  with outputs_Some [OF f] plan_kept [OF assms(4)] assms(5,6) show ?thesis by simp
qed

lemma second_plan:
  "(''anbar_COOP'', Kept ''Anbar_Coop.jpg'') \<in> set (vote_plan sample_lock stock_index
     [sample_view\<lparr>vw_maps := [''anbar_COOP'']\<rparr>] []
     (outputs [''old.png'', ''Anbar_Coop.jpg'', ''Anbar_Coop.jpg.txt'']) {})"
  by code_simp

theorem made_maps_are_kept_witness:
  "\<exists>f. Kept ''Anbar_Coop.jpg'' = Kept f \<and> output_key f = ''anbar_coop''
     \<and> f \<in> {''old.png'', ''Anbar_Coop.jpg'', ''Anbar_Coop.jpg.txt''}"
proof -
  have names: "has_stem ''Anbar_Coop''" "py_lower ''anbar_COOP'' = py_lower ''Anbar_Coop''"
    "py_lower ''Anbar_Coop'' = ''anbar_coop''" by code_simp+
  have "(''Anbar_Coop'', Made) \<in> set [(''Anbar_Coop'', Made)]" by simp
  from made_maps_are_kept [OF first_run this names(1), of "''anbar_COOP''" "Kept ''Anbar_Coop.jpg''" sample_lock
      stock_index "[sample_view\<lparr>vw_maps := [''anbar_COOP'']\<rparr>]" "[]" "{}"]
  show ?thesis using second_plan names(2,3) by simp
qed

text \<open>
  Forcing can lose an image: the old output of a forced map is removed
  before the new picture is asked for, so when the item has no preview, the
  request fails or the answer is no picture, the map is left without either.
\<close>

lemma failed_force_loses_the_image:
  assumes "map_of have (py_lower m) = Some f" and "title_of lock (Some i) = Inr title"
    and "\<forall>u data. info i = Some u \<longrightarrow> http u = Some data \<longrightarrow> picture_ext data = None"
  shows "\<exists>out'. generate_one lock info http False have m (WantItem i) out = Inr (out', NotMade)
     \<and> map_of out' f = None \<and> map_of out' (f @ ''.txt'') = None"
proof -
  have "fetch_image http False m (info i) (Some i) title (remove_output f out) = (remove_output f out, NotMade)"
    using assms(3) by (auto simp: fetch_image_def write_image_def obind_def split: option.splits)
  moreover have "map_of (remove_output f out) f = None \<and> map_of (remove_output f out) (f @ ''.txt'') = None"
    by (auto simp: map_of_eq_None_iff keys_remove_output)
  ultimately show ?thesis using assms(1,2) by (simp add: clear_existing_def)
qed

end
