(* ===== verification/VoteIndexFile.thy ===== *)
theory VoteIndexFile
  imports VoteReport LockFile
begin

text \<open>
  The file the index of \<open>fastdl/tools/mapvote_images.py\<close> is kept in between runs:
  \<open>load_index\<close> and \<open>save_index\<close>, the command over the texts of the lockfile and of
  the index, and what is in the file when a refresh ends early.
\<close>

section \<open>The file\<close>

definition strings_json :: "string list \<Rightarrow> json" where
  "strings_json ss = JList (map JStr ss)"

definition textures_field :: "string list option \<Rightarrow> (string \<times> json) list" where
  "textures_field ts = (case ts of None \<Rightarrow> [] | Some ss \<Rightarrow> [(''textures'', strings_json ss)])"

definition entry_json :: "entry \<Rightarrow> json" where
  "entry_json e =
     JObj ([(''manifest'', JStr (en_manifest e)), (''maps'', strings_json (en_maps e)), (''images'', strings_json (en_images e))]
       @ textures_field (en_textures e))"

definition index_json :: "index \<Rightarrow> json" where
  "index_json ix =
     JObj [(''base'', JObj ([(''maps'', strings_json (ix_base_maps ix)), (''images'', strings_json (ix_base_images ix))]
              @ textures_field (ix_base_textures ix))),
           (''items'', JObj (map (\<lambda>(i, e). (i, entry_json e)) (ix_items ix)))]"

definition save_index :: "index \<Rightarrow> string" where
  "save_index ix = json_text 1 0 (sort_keys (index_json ix)) @ [newline]"

text \<open>A field that may be absent.\<close>

definition optional_field :: "string \<Rightarrow> (json \<Rightarrow> 'a option) \<Rightarrow> json \<Rightarrow> 'a option option" where
  "optional_field k f j = (case obj_field k j of None \<Rightarrow> Some None | Some v \<Rightarrow> map_option Some (f v))"

definition json_entry :: "json \<Rightarrow> entry option" where
  "json_entry j =
     obind (obind (obj_field ''manifest'' j) as_str) (\<lambda>manifest.
     obind (obind (obj_field ''maps'' j) (as_list as_str)) (\<lambda>maps.
     obind (obind (obj_field ''images'' j) (as_list as_str)) (\<lambda>images.
     obind (optional_field ''textures'' (as_list as_str) j) (\<lambda>textures.
       Some \<lparr>en_manifest = manifest, en_maps = maps, en_images = images, en_textures = textures\<rparr>))))"

definition json_index :: "json \<Rightarrow> index option" where
  "json_index j =
     obind (obj_field ''base'' j) (\<lambda>b.
     obind (obind (obj_field ''maps'' b) (as_list as_str)) (\<lambda>maps.
     obind (obind (obj_field ''images'' b) (as_list as_str)) (\<lambda>images.
     obind (optional_field ''textures'' (as_list as_str) b) (\<lambda>textures.
     obind (obind (obj_field ''items'' j) (as_dict json_entry)) (\<lambda>items.
       Some \<lparr>ix_base_maps = maps, ix_base_images = images, ix_base_textures = textures, ix_items = items\<rparr>)))))"

definition load_index :: "string option \<Rightarrow> index option" where
  "load_index file = (case file of None \<Rightarrow> Some no_index | Some t \<Rightarrow> obind (json_load t) json_index)"

section \<open>The command over the files\<close>

text \<open>The texts of the lockfile and of the index, to the text that is saved and what follows.\<close>

definition vote_command ::
  "(bytes \<Rightarrow> string list option) \<Rightarrow> (string list \<Rightarrow> root) option \<Rightarrow> game option \<Rightarrow> root list \<Rightarrow> int \<Rightarrow> string \<Rightarrow> string option
     \<Rightarrow> (string \<times> string option) list \<Rightarrow> string option \<Rightarrow> (string \<Rightarrow> string) \<Rightarrow> string option \<Rightarrow> string set
     \<Rightarrow> (string \<Rightarrow> string option) \<Rightarrow> (string \<Rightarrow> bytes option) \<Rightarrow> bool \<Rightarrow> out_dir
     \<Rightarrow> byte_error + string \<times> (byte_error + vote_outcome)" where
  "vote_command namelist fetch game roots limit lock_file index_file config show_map pages ov force info http dry out =
     (case load_lock lock_file of
        None \<Rightarrow> Inl MissingKey
      | Some lock \<Rightarrow>
          (case load_index index_file of
             None \<Rightarrow> Inl MissingKey
           | Some ix \<Rightarrow>
               rbind (refresh_index namelist fetch game roots limit lock ix) (\<lambda>(ix', missing).
                 Inr (save_index ix',
                      rbind (vote_main namelist fetch game roots limit lock ix config show_map pages ov force info http dry out)
                        (\<lambda>(_, outcome). Inr outcome)))))"

text \<open>
  The index is saved after every item that is indexed, so a refresh that raises
  leaves the last one: these are the loops of \<open>refresh_index\<close> and
  \<open>fetch_and_index\<close> again, to what they saved last.
\<close>

fun saved_local ::
  "(bytes \<Rightarrow> string list option) \<Rightarrow> lock \<Rightarrow> root list \<Rightarrow> string list \<Rightarrow> index \<Rightarrow> index option \<Rightarrow> index option" where
  "saved_local namelist lock roots [] ix saved = saved"
| "saved_local namelist lock roots (item # rest) ix saved =
     (case find_local roots item (pin_of lock item) of
        None \<Rightarrow> saved_local namelist lock roots rest ix saved
      | Some c \<Rightarrow>
          (case index_item namelist c item (pin_of lock item) ix of
             Inl e \<Rightarrow> saved
           | Inr ix' \<Rightarrow> saved_local namelist lock roots rest ix' (Some ix')))"

fun saved_batch :: "(bytes \<Rightarrow> string list option) \<Rightarrow> root \<Rightarrow> string list \<Rightarrow> index \<Rightarrow> index option \<Rightarrow> index option" where
  "saved_batch namelist ws [] ix saved = saved"
| "saved_batch namelist ws (i # rest) ix saved =
     (case rt_items ws i of
        None \<Rightarrow> saved_batch namelist ws rest ix saved
      | Some c \<Rightarrow>
          (case index_item namelist c i (case map_of (acf_manifests (rt_acf ws)) i of None \<Rightarrow> ''?'' | Some m \<Rightarrow> m) ix of
             Inl e \<Rightarrow> saved
           | Inr ix' \<Rightarrow> saved_batch namelist ws rest ix' (Some ix')))"

fun saved_batches ::
  "(bytes \<Rightarrow> string list option) \<Rightarrow> (string list \<Rightarrow> root) \<Rightarrow> string list list \<Rightarrow> index \<Rightarrow> index option \<Rightarrow> index option" where
  "saved_batches namelist steam [] ix saved = saved"
| "saved_batches namelist steam (b # bs) ix saved =
     (let saved = saved_batch namelist (steam b) b ix saved
      in case fetch_batch namelist (steam b) b ix of
           Inl e \<Rightarrow> saved
         | Inr (ix', left) \<Rightarrow> saved_batches namelist steam bs ix' saved)"

definition saved_refresh ::
  "(bytes \<Rightarrow> string list option) \<Rightarrow> (string list \<Rightarrow> root) option \<Rightarrow> game option \<Rightarrow> root list \<Rightarrow> int \<Rightarrow> lock \<Rightarrow> index \<Rightarrow> index option" where
  "saved_refresh namelist fetch game roots limit lock ix =
     (case index_base game (drop_gone lock ix) of
        Inl e \<Rightarrow> None
      | Inr ix \<Rightarrow>
          (let saved = saved_local namelist lock roots (stale lock ix) ix None
           in case index_local namelist lock roots (stale lock ix) ix of
                Inl e \<Rightarrow> saved
              | Inr (ix, missing) \<Rightarrow>
                  (case fetch of
                     Some steam \<Rightarrow>
                       if missing = [] then saved
                       else saved_batches namelist steam (make_batches limit (size_of lock) missing) ix saved
                   | None \<Rightarrow> saved)))"

text \<open>The index file after a run.\<close>

definition index_file_after ::
  "(bytes \<Rightarrow> string list option) \<Rightarrow> (string list \<Rightarrow> root) option \<Rightarrow> game option \<Rightarrow> root list \<Rightarrow> int \<Rightarrow> lock \<Rightarrow> index
     \<Rightarrow> string option \<Rightarrow> string option" where
  "index_file_after namelist fetch game roots limit lock ix file =
     (case refresh_index namelist fetch game roots limit lock ix of
        Inr (ix', missing) \<Rightarrow> Some (save_index ix')
      | Inl e \<Rightarrow> (case saved_refresh namelist fetch game roots limit lock ix of
                   None \<Rightarrow> file
                 | Some ix' \<Rightarrow> Some (save_index ix')))"

section \<open>What is saved is loaded\<close>

lemma map_sort_key: "map (\<lambda>(k, x). (k, f x)) (sort_key fst ps) = sort_key fst (map (\<lambda>(k, x). (k, f x)) ps)"
proof (induction ps)
  case (Cons p ps)
  have "map (\<lambda>(k, x). (k, f x)) (insort_key fst p qs) = insort_key fst (fst p, f (snd p)) (map (\<lambda>(k, x). (k, f x)) qs)" for qs
    by (induction qs) (auto simp: split_def)
  with Cons show ?case by (simp add: split_def)
qed simp

lemma distinct_sort_key: "distinct (map fst (sort_key fst ps)) \<longleftrightarrow> distinct (map fst ps)"
proof (rule mset_eq_imp_distinct_iff)
  show "mset (map fst (sort_key fst ps)) = mset (map fst ps)" by (simp only: mset_map mset_sort)
qed

lemma map_of_sort_key: "distinct (map fst ps) \<Longrightarrow> map_of (sort_key fst ps) = map_of ps"
  using map_of_inject_set [of "sort_key fst ps" ps] by (simp add: distinct_sort_key)

lemma good_sorted: "good_json v \<Longrightarrow> good_json (sort_keys v)"
proof (induction v rule: sort_keys.induct)
  case (2 ms)
  have "map fst (map (\<lambda>(k, v). (k, sort_keys v)) ms) = map fst ms" by (simp add: split_def comp_def)
  then have "distinct (map fst (sort_key fst (map (\<lambda>(k, v). (k, sort_keys v)) ms)))"
    using 2(2) by (simp only: distinct_sort_key) simp
  with 2 show ?case by auto
qed auto

lemma sorted_field:
  "distinct (map fst ms) \<Longrightarrow> obj_field k (sort_keys (JObj ms)) = map_option sort_keys (map_of ms k)"
proof -
  assume d: "distinct (map fst ms)"
  have "map fst (map (\<lambda>(k, v). (k, sort_keys v)) ms) = map fst ms" by (simp add: split_def comp_def)
  with d have "distinct (map fst (map (\<lambda>(k, v). (k, sort_keys v)) ms))" by (simp only:)
  from map_of_sort_key [OF this] show ?thesis by (simp add: obj_field_def map_of_map)
qed

declare sort_keys.simps(2) [simp del]

lemma sorted_strings [simp]: "sort_keys (strings_json ss) = strings_json ss" "as_list as_str (strings_json ss) = Some ss"
  by (simp_all add: strings_json_def as_list_map)

lemma read_entry: "json_entry (sort_keys (entry_json e)) = Some e"
  unfolding entry_json_def json_entry_def optional_field_def
  by (cases "en_textures e") (simp_all add: sorted_field textures_field_def)

lemma read_items:
  "as_dict json_entry (sort_keys (JObj (map (\<lambda>(i, e). (i, entry_json e)) es))) = Some (sort_key fst es)"
proof -
  have "sort_keys (JObj (map (\<lambda>(i, e). (i, entry_json e)) es)) =
      JObj (map (\<lambda>(i, e). (i, sort_keys (entry_json e))) (sort_key fst es))"
    by (simp only: sort_keys.simps(2) map_sort_key) (simp add: split_def comp_def)
  then show ?thesis by (simp only: as_dict_map read_entry)
qed

definition by_id :: "index \<Rightarrow> index" where
  "by_id ix = ix\<lparr>ix_items := sort_key fst (ix_items ix)\<rparr>"

lemma read_index: "json_index (sort_keys (index_json ix)) = Some (by_id ix)"
proof -
  let ?b = "JObj ([(''maps'', strings_json (ix_base_maps ix)), (''images'', strings_json (ix_base_images ix))]
              @ textures_field (ix_base_textures ix))"
  have b: "obj_field ''base'' (sort_keys (index_json ix)) = Some (sort_keys ?b)"
    and i: "obj_field ''items'' (sort_keys (index_json ix)) = Some (sort_keys (JObj (map (\<lambda>(i, e). (i, entry_json e)) (ix_items ix))))"
    unfolding index_json_def by (simp_all add: sorted_field)
  have "obj_field ''maps'' (sort_keys ?b) = Some (strings_json (ix_base_maps ix))"
    "obj_field ''images'' (sort_keys ?b) = Some (strings_json (ix_base_images ix))"
    "optional_field ''textures'' (as_list as_str) (sort_keys ?b) = Some (ix_base_textures ix)"
    unfolding optional_field_def
    by (cases "ix_base_textures ix"; simp add: sorted_field textures_field_def)+
  with b i show ?thesis by (simp add: json_index_def read_items by_id_def)
qed

lemma good_strings [simp]: "good_json (strings_json ss)"
  by (auto simp: strings_json_def)

lemma good_entry: "good_json (entry_json e)"
  by (cases "en_textures e") (auto simp: entry_json_def textures_field_def)

lemma good_index:
  assumes "distinct (map fst (ix_items ix))"
  shows "good_json (index_json ix)"
proof -
  have "map fst (map (\<lambda>(i, e). (i, entry_json e)) (ix_items ix)) = map fst (ix_items ix)" by (simp add: split_def comp_def)
  with assms have "good_json (JObj (map (\<lambda>(i, e). (i, entry_json e)) (ix_items ix)))"
    by (auto simp: good_entry simp del: map_map)
  then show ?thesis
    unfolding index_json_def by (cases "ix_base_textures ix") (auto simp: textures_field_def)
qed

lemma load_save: "distinct (map fst (ix_items ix)) \<Longrightarrow> load_index (Some (save_index ix)) = Some (by_id ix)"
  by (simp add: load_index_def save_index_def json_load_text good_sorted good_index read_index)

section \<open>The index stays a dictionary\<close>

lemma load_index_distinct:
  assumes "load_index file = Some ix"
  shows "distinct (map fst (ix_items ix))"
proof (cases "file")
  case (Some t)
  with assms obtain j where j: "json_load t = Some j" and l: "json_index j = Some ix"
    by (auto simp: load_index_def obind_def split: option.split_asm)
  from l obtain v where "obj_field ''items'' j = Some v" "as_dict json_entry v = Some (ix_items ix)"
    by (auto simp: json_index_def obind_def split: option.split_asm)
  then show ?thesis using json_load_good [OF j] obj_field_good as_dict_distinct by blast
qed (use assms in \<open>auto simp: load_index_def no_index_def\<close>)

lemma index_item_distinct:
  "index_item namelist c i m ix = Inr ix' \<Longrightarrow> distinct (map fst (ix_items ix)) \<Longrightarrow> distinct (map fst (ix_items ix'))"
  by (auto simp: index_item_def result_simps distinct_update)

lemma index_local_distinct:
  "index_local namelist lock roots ids ix = Inr (ix', m) \<Longrightarrow> distinct (map fst (ix_items ix)) \<Longrightarrow> distinct (map fst (ix_items ix'))"
proof (induction ids arbitrary: ix m)
  case (Cons i ids)
  then show ?case by (auto simp: result_simps dest: index_item_distinct split: option.splits)
qed simp

lemma fetch_batch_distinct:
  "fetch_batch namelist ws b ix = Inr (ix', left) \<Longrightarrow> distinct (map fst (ix_items ix)) \<Longrightarrow> distinct (map fst (ix_items ix'))"
proof (induction b arbitrary: ix left)
  case (Cons i b)
  then show ?case by (auto simp: result_simps dest: index_item_distinct split: option.splits)
qed simp

lemma fetch_batches_distinct:
  "fetch_batches namelist steam bs ix = Inr (ix', left) \<Longrightarrow> distinct (map fst (ix_items ix)) \<Longrightarrow> distinct (map fst (ix_items ix'))"
proof (induction bs arbitrary: ix left)
  case (Cons b bs)
  then show ?case by (auto simp: result_simps dest: fetch_batch_distinct)
qed simp

lemma refresh_distinct:
  assumes "refresh_index namelist fetch game roots limit lock ix = Inr (ix', missing)" and "distinct (map fst (ix_items ix))"
  shows "distinct (map fst (ix_items ix'))"
  using assms(1)
proof (rule refresh_index_parts)
  fix ix1 ix2 m
  assume b: "index_base game (drop_gone lock ix) = Inr ix1"
    and l: "index_local namelist lock roots (stale lock ix1) ix1 = Inr (ix2, m)"
    and f: "fetch = None \<and> ix' = ix2 \<and> missing = m \<or> fetch \<noteq> None \<and> m = [] \<and> ix' = ix2 \<and> missing = []
      \<or> (\<exists>steam. fetch = Some steam \<and> fetch_and_index namelist steam lock limit m ix2 = Inr (ix', missing))"
  have "distinct (map fst (ix_items ix1))"
    using assms(2) index_base_items [OF b] by (simp add: drop_gone_def distinct_map_filter)
  with l have "distinct (map fst (ix_items ix2))" by (rule index_local_distinct)
  with f show ?thesis by (auto simp: fetch_and_index_def dest: fetch_batches_distinct)
qed

section \<open>The second run\<close>

lemma stale_by_id: "distinct (map fst (ix_items ix)) \<Longrightarrow> stale lock (by_id ix) = stale lock ix"
  by (simp add: stale_def by_id_def map_of_sort_key)

lemma refresh_settled:
  assumes "distinct (map fst (lk_items lock))" and "refresh_index namelist None game roots limit lock ix = Inr (ix', missing)"
  shows "index_base game ix' = Inr ix'" and "keys ix' \<subseteq> fst ` set (lk_items lock)"
    and "missing = stale lock ix'" and "\<forall>i \<in> set missing. find_local roots i (pin_of lock i) = None"
proof -
  obtain ix1 where b: "index_base game (drop_gone lock ix) = Inr ix1"
    and l: "index_local namelist lock roots (stale lock ix1) ix1 = Inr (ix', missing)"
    using assms(2) by (rule refresh_index_parts) auto
  show "index_base game ix' = Inr ix'" using index_base_again [OF b] index_local_effect [OF l] by simp
  show "keys ix' \<subseteq> fst ` set (lk_items lock)" using refresh_effect [OF assms] by (simp add: keys_def)
  show "missing = stale lock ix'" "\<forall>i \<in> set missing. find_local roots i (pin_of lock i) = None"
    by (rule local_stale [OF assms(1) l])+
qed

lemma refresh_again:
  assumes "distinct (map fst (lk_items lock))" and "refresh_index namelist None game roots limit lock ix = Inr (ix', missing)"
    and "distinct (map fst (ix_items ix))"
  shows "refresh_index namelist None game roots limit lock (by_id ix') = Inr (by_id ix', missing)"
proof -
  note s = refresh_settled [OF assms(1,2)]
  have d: "distinct (map fst (ix_items ix'))" using assms(2,3) by (rule refresh_distinct)
  have "keys (by_id ix') = keys ix'" by (simp add: keys_def by_id_def)
  then have "drop_gone lock (by_id ix') = by_id ix'" using s(2) by (intro drop_gone_id) simp
  moreover have "index_base game (by_id ix') = Inr (by_id ix')"
    by (rule index_base_again [OF s(1)]) (simp add: same_base_def by_id_def)
  moreover have "index_local namelist lock roots missing (by_id ix') = Inr (by_id ix', missing)"
    using s(4) by (rule index_local_none)
  ultimately show ?thesis by (simp add: refresh_index_def stale_by_id [OF d] s(3) [symmetric])
qed

lemma by_id_again: "save_index (by_id ix) = save_index ix"
proof -
  have "sort_key fst (map (\<lambda>(i, e). (i, sort_keys (entry_json e))) (sort_key fst (ix_items ix))) =
      sort_key fst (map (\<lambda>(i, e). (i, sort_keys (entry_json e))) (ix_items ix))"
    by (simp only: map_sort_key) (simp add: sort_key_id_if_sorted)
  then show ?thesis
    by (simp add: save_index_def by_id_def index_json_def sort_keys.simps(2) comp_def split_def)
qed

section \<open>A refresh that ends early\<close>

lemma map_of_filter_keys: "i \<in> S \<Longrightarrow> map_of (filter (\<lambda>(i, e). i \<in> S) es) i = map_of es i"
  by (induction es) auto

lemma saved_local_error:
  "index_local namelist lock roots ids ix = Inl e \<Longrightarrow>
     \<exists>pre item post c ix1 m. ids = pre @ item # post \<and> index_local namelist lock roots pre ix = Inr (ix1, m)
       \<and> find_local roots item (pin_of lock item) = Some c \<and> index_item namelist c item (pin_of lock item) ix1 = Inl e
       \<and> (saved_local namelist lock roots ids ix saved = Some ix1
          \<or> saved_local namelist lock roots ids ix saved = saved \<and> ix1 = ix)"
proof (induction ids arbitrary: ix saved)
  case (Cons i ids)
  show ?case
  proof (cases "find_local roots i (pin_of lock i)")
    case None
    with Cons.prems have "index_local namelist lock roots ids ix = Inl e" by (auto simp: result_simps)
    from Cons.IH [OF this, of saved] obtain pre item post c ix1 m where
      p: "ids = pre @ item # post" "index_local namelist lock roots pre ix = Inr (ix1, m)"
        "find_local roots item (pin_of lock item) = Some c" "index_item namelist c item (pin_of lock item) ix1 = Inl e"
        "saved_local namelist lock roots ids ix saved = Some ix1
          \<or> saved_local namelist lock roots ids ix saved = saved \<and> ix1 = ix" by blast
    with None show ?thesis
      by (intro exI [of _ "i # pre"] exI [of _ item] exI [of _ post] exI [of _ c] exI [of _ ix1] exI [of _ "i # m"]) simp
  next
    case (Some c)
    show ?thesis
    proof (cases "index_item namelist c i (pin_of lock i) ix")
      case (Inl e')
      with Cons.prems Some show ?thesis
        by (intro exI [of _ "[]"] exI [of _ i] exI [of _ ids] exI [of _ c] exI [of _ ix] exI [of _ "[]"]) simp
    next
      case (Inr ix2)
      with Cons.prems Some have "index_local namelist lock roots ids ix2 = Inl e" by simp
      from Cons.IH [OF this, of "Some ix2"] obtain pre item post c' ix1 m where
        p: "ids = pre @ item # post" "index_local namelist lock roots pre ix2 = Inr (ix1, m)"
          "find_local roots item (pin_of lock item) = Some c'" "index_item namelist c' item (pin_of lock item) ix1 = Inl e"
          "saved_local namelist lock roots ids ix2 (Some ix2) = Some ix1" by blast
      with Some Inr show ?thesis
        by (intro exI [of _ "i # pre"] exI [of _ item] exI [of _ post] exI [of _ c'] exI [of _ ix1] exI [of _ m]) simp
    qed
  qed
qed simp

text \<open>
  Without downloads the file is an index after every run, however it ends, and a
  run takes nothing from it but items that have left the lockfile: every other
  entry is the old one or that of an item indexed at its pin.
\<close>

lemma index_file_survives:
  assumes "load_index file = Some ix"
  shows "\<exists>ix'. load_index (index_file_after namelist None game roots limit lock ix file) = Some ix'
    \<and> (\<forall>i \<in> fst ` set (lk_items lock). map_of (ix_items ix') i = map_of (ix_items ix) i \<or> up_to_pin lock ix' i)"
proof -
  let ?after = "index_file_after namelist None game roots limit lock ix file"
  let ?ok = "\<lambda>ix'. \<forall>i \<in> fst ` set (lk_items lock). map_of (ix_items ix') i = map_of (ix_items ix) i \<or> up_to_pin lock ix' i"
  have d: "distinct (map fst (ix_items ix))" using assms by (rule load_index_distinct)
  have gone: "map_of (ix_items (drop_gone lock ix)) i = map_of (ix_items ix) i" if "i \<in> fst ` set (lk_items lock)" for i
    using that by (simp add: drop_gone_def map_of_filter_keys)
  have step: "load_index (Some (save_index ix')) = Some (by_id ix') \<and> ?ok (by_id ix')"
    if b: "index_base game (drop_gone lock ix) = Inr ix1" and l: "index_local namelist lock roots ids ix1 = Inr (ix', m)" for ix1 ids ix' m
  proof -
    have i1: "ix_items ix1 = ix_items (drop_gone lock ix)" using b by (rule index_base_items)
    have "distinct (map fst (ix_items ix1))" unfolding i1 using d by (simp add: drop_gone_def distinct_map_filter)
    with l have d': "distinct (map fst (ix_items ix'))" by (rule index_local_distinct)
    have "?ok ix'"
      using index_local_effect [OF l] gone unfolding i1 [symmetric] by metis
    with d' show ?thesis by (simp add: load_save) (simp add: by_id_def up_to_pin_def map_of_sort_key)
  qed
  show ?thesis
  proof (cases "refresh_index namelist None game roots limit lock ix")
    case (Inr r)
    obtain ix' m where r: "r = (ix', m)" by (cases r)
    from Inr [unfolded r] obtain ix1 where "index_base game (drop_gone lock ix) = Inr ix1"
      "index_local namelist lock roots (stale lock ix1) ix1 = Inr (ix', m)" by (rule refresh_index_parts) auto
    from step [OF this] show ?thesis by (auto simp: index_file_after_def Inr r)
  next
    case (Inl e)
    show ?thesis
    proof (cases "index_base game (drop_gone lock ix)")
      case (Inl e')
      then have "?after = file" using \<open>refresh_index _ _ _ _ _ _ _ = Inl e\<close> by (simp add: index_file_after_def saved_refresh_def)
      with assms show ?thesis by auto
    next
      case (Inr ix1)
      with \<open>refresh_index _ _ _ _ _ _ _ = Inl e\<close> have "index_local namelist lock roots (stale lock ix1) ix1 = Inl e"
        by (auto simp: refresh_index_def result_simps)
      moreover from saved_local_error [OF this, of None] obtain pre item post c ix2 m where
        p: "index_local namelist lock roots pre ix1 = Inr (ix2, m)"
          "saved_local namelist lock roots (stale lock ix1) ix1 None = Some ix2
            \<or> saved_local namelist lock roots (stale lock ix1) ix1 None = None" by blast
      ultimately have "?after = Some (save_index ix2) \<or> ?after = file"
        using \<open>refresh_index _ _ _ _ _ _ _ = Inl e\<close> Inr by (auto simp: index_file_after_def saved_refresh_def Let_def)
      with step [OF Inr p(1)] assms show ?thesis by auto
    qed
  qed
qed

section \<open>Properties\<close>


lemma sample_lock_loads: "load_lock (lock_text sample_lock) = Some sample_lock"
  by (rule load_lock_text) (simp add: keyed_lock_def sample_lock_def)

lemma stock_index_loads: "load_index (Some (save_index stock_index)) = Some stock_index"
  by (subst load_save) (simp_all add: stock_index_def no_index_def by_id_def)


end
