(* ===== verification/TextEdit.thy ===== *)
theory TextEdit
  imports PyText "HOL-Library.Product_Lexorder"
begin

text \<open>
  Editing a source text by position: the indent of a line, \<open>str.replace\<close>, and
  insertions made from the last to the first so that each position still counts
  in the original text.  The specification of a set of insertions is a single
  pass that weaves them in.
\<close>

section \<open>Positions\<close>

text \<open>\<open>src[src.rfind("\n", 0, pos) + 1:pos]\<close>\<close>

definition line_indent :: "string \<Rightarrow> nat \<Rightarrow> string" where
  "line_indent src pos = rev (takeWhile (\<lambda>c. c \<noteq> newline) (rev (take pos src)))"

text \<open>\<open>s.replace(old, new)\<close>\<close>

function replace_from :: "string \<Rightarrow> string \<Rightarrow> string \<Rightarrow> string" where
  "replace_from old new s =
     (case s of [] \<Rightarrow> []
      | c # cs \<Rightarrow>
          if old \<noteq> [] \<and> prefix old s then new @ replace_from old new (drop (length old) s)
          else c # replace_from old new cs)"
  by pat_completeness auto
termination by (relation "measure (\<lambda>(old, new, s). length s)") (auto dest: prefix_length_le)

declare replace_from.simps [simp del]

definition py_replace :: "string \<Rightarrow> string \<Rightarrow> string \<Rightarrow> string" where
  "py_replace old new s =
     (if old = [] then new @ concat (map (\<lambda>c. c # new) s) else replace_from old new s)"

section \<open>Insertions\<close>

text \<open>One insertion at a position that counts from \<open>off\<close>, and a single pass of them.\<close>

definition insert_text :: "nat \<Rightarrow> nat \<times> string \<Rightarrow> string \<Rightarrow> string" where
  "insert_text off = (\<lambda>(p, add) t. take (p - off) t @ add @ drop (p - off) t)"

fun weave :: "nat \<Rightarrow> string \<Rightarrow> (nat \<times> string) list \<Rightarrow> string" where
  "weave off t [] = t"
| "weave off t ((p, add) # ins) = take (p - off) t @ add @ weave p (drop (p - off) t) ins"

lemma insert_later:
  "\<forall>(q, a) \<in> set ins. p \<le> q \<Longrightarrow> off \<le> p \<Longrightarrow> p - off \<le> length t \<Longrightarrow>
     foldr (insert_text off) ins t = take (p - off) t @ foldr (insert_text p) ins (drop (p - off) t)"
proof (induction ins)
  case Nil
  then show ?case by simp
next
  case (Cons x ins)
  obtain q a where x: "x = (q, a)" by (cases x)
  with Cons.prems have q: "p \<le> q" by simp
  let ?t = "foldr (insert_text p) ins (drop (p - off) t)"
  have "q - off = (p - off) + (q - p)" using q Cons.prems(2) by simp
  moreover have "length (take (p - off) t) = p - off" using Cons.prems(3) by simp
  ultimately have "take (q - off) (take (p - off) t @ ?t) = take (p - off) t @ take (q - p) ?t"
    "drop (q - off) (take (p - off) t @ ?t) = drop (q - p) ?t" by simp_all
  with Cons x show ?case by (simp add: insert_text_def)
qed

lemma foldr_weave:
  "sorted (map fst ins) \<Longrightarrow> \<forall>(p, a) \<in> set ins. off \<le> p \<and> p - off \<le> length t \<Longrightarrow>
     foldr (insert_text off) ins t = weave off t ins"
proof (induction ins arbitrary: off t)
  case Nil
  then show ?case by simp
next
  case (Cons x ins)
  obtain p a where x: "x = (p, a)" by (cases x)
  with Cons.prems have p: "off \<le> p" "p - off \<le> length t" and later: "\<forall>(q, b) \<in> set ins. p \<le> q" by auto
  have "foldr (insert_text p) ins (drop (p - off) t) = weave p (drop (p - off) t) ins"
    using Cons.prems p later x by (intro Cons.IH) auto
  with insert_later [OF later p] p show ?case by (simp add: x insert_text_def)
qed

lemma weave_subseq: "subseq t (weave off t ins)"
proof (induction off t ins rule: weave.induct)
  case (2 off t p add ins)
  have "subseq (take (p - off) t @ drop (p - off) t) (take (p - off) t @ add @ weave p (drop (p - off) t) ins)"
    using 2 by (intro list_emb_append_mono) (auto intro: list_emb_append2)
  then show ?case by simp
qed simp

lemma length_weave: "length (weave off t ins) = length t + sum_list (map (length \<circ> snd) ins)"
  by (induction off t ins rule: weave.induct) auto

lemma weave_add: "(p, add) \<in> set ins \<Longrightarrow> sublist add (weave off t ins)"
proof (induction off t ins rule: weave.induct)
  case (2 off t p' add' ins)
  show ?case
  proof (cases "(p, add) = (p', add')")
    case True
    then show ?thesis by (auto simp: sublist_def)
  next
    case False
    with 2(2) have "(p, add) \<in> set ins" by auto
    with 2(1) have "sublist add (weave p' (drop (p' - off) t) ins)" by simp
    then obtain u v where "weave p' (drop (p' - off) t) ins = u @ add @ v" by (auto simp: sublist_def)
    then show ?thesis unfolding weave.simps sublist_def
      by (intro exI [of _ "take (p' - off) t @ add' @ u"] exI [of _ v]) simp
  qed
qed simp

section \<open>Marked regions\<close>

text \<open>A marker that does not overlap itself is found where it stands first.\<close>

definition unbordered :: "string \<Rightarrow> bool" where
  "unbordered n \<longleftrightarrow> n \<noteq> [] \<and> (\<forall>k \<in> {1..<length n}. \<not> prefix (drop k n) n)"

lemma unborderedD: "unbordered n \<Longrightarrow> n = x @ p \<Longrightarrow> x \<noteq> [] \<Longrightarrow> prefix p n \<Longrightarrow> p = []"
proof (rule ccontr)
  assume u: "unbordered n" and n: "n = x @ p" and "x \<noteq> []" "prefix p n" "p \<noteq> []"
  then have "length x \<in> {1..<length n}" "drop (length x) n = p" by (auto simp: Suc_le_eq)
  with u \<open>prefix p n\<close> show False unfolding unbordered_def by blast
qed

lemma cut_at_marker:
  assumes "unbordered n" and "\<not> sublist n x"
  shows "cut_at n (x @ n @ s) = Some (x, s)"
  using assms(2)
proof (induction x)
  case Nil
  then show ?case by (simp add: cut_at_here)
next
  case (Cons c x)
  have "\<not> prefix n ((c # x) @ n @ s)"
  proof
    assume "prefix n ((c # x) @ n @ s)"
    then have "prefix n (c # x) \<or> (\<exists>p. n = (c # x) @ p \<and> prefix p (n @ s))"
      by (simp only: prefix_append)
    then consider "prefix n (c # x)" | p where "n = (c # x) @ p" "prefix p (n @ s)" by blast
    then show False
    proof cases
      case 1
      with Cons.prems show False by (simp add: prefix_imp_sublist)
    next
      case 2
      then have "prefix p n" by (metis length_append le_add2 prefixI prefix_length_prefix)
      with unborderedD [OF assms(1) 2(1)] have "p = []" by simp
      with 2(1) Cons.prems show False by simp
    qed
  qed
  moreover have "\<not> sublist n x" using Cons.prems by (auto simp: sublist_Cons_right)
  ultimately show ?case using Cons.IH by simp
qed

lemma sublist_newline:
  assumes "newline \<notin> set n"
  shows "sublist n (a @ newline # b) \<longleftrightarrow> sublist n a \<or> sublist n b"
proof -
  have "prefix n (newline # b) \<Longrightarrow> n = []" using assms by (cases n) auto
  then show ?thesis
  proof (induction a)
    case Nil
    then show ?case by (auto simp: sublist_Cons_right)
  next
    case (Cons c a)
    have "prefix n ((c # a) @ newline # b) \<longleftrightarrow> prefix n (c # a)"
    proof
      assume "prefix n ((c # a) @ newline # b)"
      then have "prefix n (c # a) \<or> (\<exists>p. n = (c # a) @ p \<and> prefix p (newline # b))"
        by (simp only: prefix_append)
      then consider "prefix n (c # a)" | p where "n = (c # a) @ p" "prefix p (newline # b)" by blast
      then show "prefix n (c # a)"
      proof cases
        case 2
        with assms have "p = []" by (cases p) auto
        with 2(1) show ?thesis by simp
      qed
    next
      assume "prefix n (c # a)"
      then show "prefix n ((c # a) @ newline # b)" by (rule prefix_prefix)
    qed
    with Cons show ?case by (auto simp: sublist_Cons_right)
  qed
qed

lemma line_indent_suffix: "suffix (line_indent src pos) (take pos src) \<and> newline \<notin> set (line_indent src pos)"
proof -
  have "suffix (rev (takeWhile (\<lambda>c. c \<noteq> newline) (rev (take pos src)))) (take pos src)"
    using takeWhile_is_prefix [of "\<lambda>c. c \<noteq> newline" "rev (take pos src)"] by (simp add: suffix_to_prefix)
  then show ?thesis by (auto simp: line_indent_def dest: set_takeWhileD)
qed

end
