(* ===== verification/WeaponClone.thy ===== *)
theory WeaponClone
  imports TextEdit Sync
begin

text \<open>
  The weapon-clone generator (\<open>tools/weapon-clone/generate.py\<close>): it copies every
  upgrade that names a weapon, adds the clone's name beside it, and writes the
  copies into a marked region of the base theater.  It reads theaters with the
  module \<open>kv\<close>, which is not in the repository: its nodes are the datatype the code
  sees through their attributes, and the operations the code calls on them
  (\<open>find\<close>, \<open>text\<close>, \<open>definitions\<close>) are parameters.
\<close>

section \<open>Nodes\<close>

text \<open>\<open>nd_id\<close> is the identity of the object, \<open>id(n)\<close>.\<close>

datatype node =
  Node (nd_id: nat) (nd_key: string) (nd_value: "string option") (nd_start: nat) (nd_end: nat)
    (nd_children: "node list option")

record kv_lib =
  kv_find :: "node \<Rightarrow> string \<Rightarrow> node option"
  kv_text :: "node \<Rightarrow> string \<Rightarrow> string"

datatype clone_error =
    NoneAttribute
  | TheaterError
  | ExpectedKey string string
  | ExpectedValue string string
  | NamedInside string string string
  | InsertOutside string
  | NoMarkers
  | DefinedByHand string string string

definition kids :: "node \<Rightarrow> node list" where
  "kids n = (case nd_children n of None \<Rightarrow> [] | Some cs \<Rightarrow> cs)"

definition value_of :: "node \<Rightarrow> string" where
  "value_of n = (case nd_value n of None \<Rightarrow> [] | Some v \<Rightarrow> v)"

lemma kids_smaller: "c \<in> set (kids n) \<Longrightarrow> size c < size n"
proof (cases n)
  case (Node i k v a b cs)
  assume "c \<in> set (kids n)"
  with Node obtain l where "cs = Some l" "c \<in> set l" by (auto simp: kids_def split: option.splits)
  then show ?thesis using Node size_list_estimation' [of c l "size c" size] by (auto simp: less_Suc_eq_le)
qed

section \<open>Constants\<close>

definition BASE :: string where "BASE = ''theater_tug_nvg_default.theater''"

definition BEGIN_MARK :: string where
  "BEGIN_MARK = ''// ===== BEGIN GENERATED by tools/weapon-clone/generate.py - do not edit by hand =====''"

definition END_MARK :: string where
  "END_MARK = ''// ===== END GENERATED (weapon-clone) =====''"

definition CLONES :: "(string \<times> string) list" where
  "CLONES = [(''weapon_xm8'', ''weapon_galil_sar'')]"

type_synonym fitting = "(string \<times> string option) list"

definition ATTACHMENTS :: "string \<Rightarrow> fitting" where
  "ATTACHMENTS new =
     (if new = ''weapon_xm8'' then
        [(''models/weapons/upgrades/a_mount_galil.mdl'', None),
         (''models/weapons/upgrades/w_mount_galil.mdl'', None),
         (''models/weapons/upgrades/a_standard_galil.mdl'', None),
         (''models/weapons/upgrades/a_bipod_galil.mdl'', Some ''@@PATH(mdl,a_bipod_xm8.mdl)@@''),
         (''models/weapons/upgrades/w_bipod_galil.mdl'', Some ''@@PATH(mdl,w_bipod_xm8.mdl)@@'')]
      else [])"

definition SKIP_UPGRADES :: "string \<Rightarrow> string list" where
  "SKIP_UPGRADES new = (if new = ''weapon_xm8'' then [''magazine_drum_75rd''] else [])"

definition CLONE_SECTIONS :: "string list" where
  "CLONE_SECTIONS = [''viewmodel_attachments'', ''world_attachments'']"

section \<open>Copies with another name\<close>

definition insert_point :: "string \<Rightarrow> node \<Rightarrow> nat" where
  "insert_point src n =
     (let rest = takeWhile (\<lambda>c. c \<noteq> newline) (drop (nd_end n) src);
          eol = (if newline \<in> set (drop (nd_end n) src) then nd_end n + length rest else length src)
      in if py_strip rest = [] \<or> prefix ''//'' (py_strip rest) then eol else nd_end n)"

text \<open>\<open>("?)old\<close> without case at the start of a text, in the order the expression tries.\<close>

definition drop_name :: "string \<Rightarrow> string \<Rightarrow> string option" where
  "drop_name old t =
     (if length old \<le> length t \<and> py_lower (take (length old) t) = py_lower old then Some (drop (length old) t) else None)"

definition named_at :: "string \<Rightarrow> string \<Rightarrow> (string \<times> string) list" where
  "named_at old t =
     (case t of [] \<Rightarrow> []
      | c # cs \<Rightarrow> if c = dquote then (case drop_name old cs of None \<Rightarrow> [] | Some r \<Rightarrow> [([dquote], r)]) else [])
     @ (case drop_name old t of None \<Rightarrow> [] | Some r \<Rightarrow> [([], r)])"

definition opt_quote :: "string \<Rightarrow> string \<times> string" where
  "opt_quote t = (case t of [] \<Rightarrow> ([], t) | c # cs \<Rightarrow> if c = dquote then ([dquote], cs) else ([], t))"

definition retarget_key :: "string \<Rightarrow> string \<Rightarrow> string \<Rightarrow> clone_error + string" where
  "retarget_key t old new =
     (case named_at old t of
        [] \<Rightarrow> Inl (ExpectedKey old (take 40 t))
      | (q, r) # _ \<Rightarrow> let (q', rest) = opt_quote r in Inr (q @ new @ q' @ rest))"

text \<open>The value at the end of a text: the name, its quote and blanks, nothing else.\<close>

fun value_end :: "string \<Rightarrow> (string \<times> string) list \<Rightarrow> string option" where
  "value_end new [] = None"
| "value_end new ((q, r) # alts) =
     (let (q', ws) = opt_quote r in if list_all py_isspace ws then Some (q @ new @ q' @ ws) else value_end new alts)"

fun value_from :: "string \<Rightarrow> string \<Rightarrow> string \<Rightarrow> string option" where
  "value_from old new t =
     (case value_end new (named_at old t) of
        Some s \<Rightarrow> Some s
      | None \<Rightarrow> (case t of [] \<Rightarrow> None | c # cs \<Rightarrow> map_option (Cons c) (value_from old new cs)))"

declare value_from.simps [simp del]

definition retarget_value :: "string \<Rightarrow> string \<Rightarrow> string \<Rightarrow> clone_error + string" where
  "retarget_value t old new =
     (case value_from old new t of None \<Rightarrow> Inl (ExpectedValue old t) | Some s \<Rightarrow> Inr s)"

section \<open>Attachments that are fitted\<close>

definition replace_span :: "nat \<Rightarrow> string \<Rightarrow> nat \<times> nat \<times> string \<Rightarrow> string" where
  "replace_span start t = (\<lambda>(a, b, rep).
     py_slice t 0 (int a - int start) @ rep @ py_slice t (int b - int start) (int (length t)))"

definition weapons_block :: "string \<Rightarrow> string \<Rightarrow> string" where
  "weapons_block ind new =
     [dquote] @ ''weapons'' @ [dquote, newline] @ ind @ ''{'' @ [newline] @ ind @
     [tab, dquote] @ ''weapon'' @ [dquote, tab, tab, tab, tab, dquote] @ new @ [dquote, newline] @ ind @ ''}''"

definition clone_suffix :: "string \<Rightarrow> string" where
  "clone_suffix new = (if prefix ''weapon_'' new then drop 7 new else new)"

definition clone_attachment ::
  "kv_lib \<Rightarrow> string \<Rightarrow> node \<Rightarrow> string \<Rightarrow> string \<Rightarrow> clone_error + string" where
  "clone_attachment lib src att new model =
     (case (kv_find lib att ''model'', kv_find lib att ''weapons'') of
        (Some m, Some ws) \<Rightarrow>
          (case nd_value m of
             None \<Rightarrow> Inl NoneAttribute
           | Some v \<Rightarrow>
               let ind = line_indent src (nd_start ws);
                   edits = [(nd_start m, nd_end m, py_replace v model (kv_text lib m src)),
                            (nd_start ws, nd_end ws, weapons_block ind new)];
                   t = foldl (replace_span (nd_start att)) (kv_text lib att src) (rev (sort edits))
               in retarget_key t (nd_key att) (nd_key att @ ''_'' @ clone_suffix new))
      | _ \<Rightarrow> Inl NoneAttribute)"

section \<open>Mentions\<close>

definition is_named :: "string \<Rightarrow> node \<Rightarrow> bool" where
  "is_named name n \<longleftrightarrow> py_lower (nd_key n) = name \<or> py_lower (value_of n) = name"

text \<open>The stack of the code takes the children from the last to the first.\<close>

function mentions :: "string \<Rightarrow> node \<Rightarrow> node list" where
  "mentions name n = (if is_named name n then [n] else []) @ concat (map (mentions name) (rev (kids n)))"
  by pat_completeness auto
termination by (relation "measure (size \<circ> snd)") (auto dest: kids_smaller)

declare mentions.simps [simp del]

definition fits :: "node list \<Rightarrow> string \<Rightarrow> bool" where
  "fits ns source \<longleftrightarrow> (\<exists>c \<in> set ns. py_lower (value_of c) = source)"

section \<open>Restating an upgrade\<close>

text \<open>What is to be inserted, and the identities of the nodes that are dealt with.\<close>

type_synonym edits = "(nat \<times> string) list \<times> nat list"

definition attachments_of :: "kv_lib \<Rightarrow> node \<Rightarrow> node list" where
  "attachments_of lib upgrade =
     concat (map (\<lambda>section. case kv_find lib upgrade section of None \<Rightarrow> [] | Some sec \<Rightarrow> kids sec) CLONE_SECTIONS)"

text \<open>The model of an attachment that fits the source weapon, as the table spells it.\<close>

definition fitted_path :: "kv_lib \<Rightarrow> string \<Rightarrow> node \<Rightarrow> clone_error + string option" where
  "fitted_path lib source att =
     (case kv_find lib att ''weapons'' of
        None \<Rightarrow> Inr None
      | Some ws \<Rightarrow>
          if \<not> fits (kids ws) source then Inr None
          else (case kv_find lib att ''model'' of
                  None \<Rightarrow> Inr None
                | Some m \<Rightarrow> (case nd_value m of None \<Rightarrow> Inl NoneAttribute | Some v \<Rightarrow> Inr (Some (posix (py_lower v))))))"

definition fit_attachment ::
  "kv_lib \<Rightarrow> string \<Rightarrow> string \<Rightarrow> string \<Rightarrow> fitting \<Rightarrow> node \<Rightarrow> edits \<Rightarrow> clone_error + edits" where
  "fit_attachment lib src new source table att = (\<lambda>(ins, handled).
     rbind (fitted_path lib source att) (\<lambda>path.
       case path of
         None \<Rightarrow> Inr (ins, handled)
       | Some p \<Rightarrow>
           (case map_of table p of
              None \<Rightarrow> Inr (ins, handled)
            | Some choice \<Rightarrow>
                let handled = handled @ map nd_id (mentions source att)
                in case choice of
                     None \<Rightarrow> Inr (ins, handled)
                   | Some model \<Rightarrow>
                       rbind (clone_attachment lib src att new model) (\<lambda>copy.
                         Inr (ins @ [(insert_point src att,
                                [newline, newline] @ line_indent src (nd_start att) @ copy)], handled)))))"

fun fit_attachments ::
  "kv_lib \<Rightarrow> string \<Rightarrow> string \<Rightarrow> string \<Rightarrow> fitting \<Rightarrow> node list \<Rightarrow> edits \<Rightarrow> clone_error + edits" where
  "fit_attachments lib src new source table [] st = Inr st"
| "fit_attachments lib src new source table (att # atts) st =
     rbind (fit_attachment lib src new source table att st) (fit_attachments lib src new source table atts)"

definition copy_mention ::
  "kv_lib \<Rightarrow> string \<Rightarrow> node \<Rightarrow> string \<Rightarrow> string \<Rightarrow> node \<Rightarrow> clone_error + string" where
  "copy_mention lib src upgrade new source n =
     (if py_lower (nd_key n) = source
      then if filter (\<lambda>c. nd_id c \<noteq> nd_id n) (mentions source n) \<noteq> []
           then Inl (NamedInside (nd_key upgrade) (nd_key n) source)
           else retarget_key (kv_text lib n src) (nd_key n) new
      else retarget_value (kv_text lib n src) (value_of n) new)"

fun copy_mentions ::
  "kv_lib \<Rightarrow> string \<Rightarrow> node \<Rightarrow> string \<Rightarrow> string \<Rightarrow> node list \<Rightarrow> edits \<Rightarrow> clone_error + edits" where
  "copy_mentions lib src upgrade new source [] st = Inr st"
| "copy_mentions lib src upgrade new source (n # ns) (ins, handled) =
     (if nd_id n \<in> set handled then copy_mentions lib src upgrade new source ns (ins, handled)
      else rbind (copy_mention lib src upgrade new source n) (\<lambda>copy.
        copy_mentions lib src upgrade new source ns
          (ins @ [(insert_point src n, newline # line_indent src (nd_start n) @ copy)], handled @ [nd_id n])))"

fun insert_all :: "node \<Rightarrow> (nat \<times> string) list \<Rightarrow> string \<Rightarrow> clone_error + string" where
  "insert_all upgrade [] t = Inr t"
| "insert_all upgrade ((pos, add) # ins) t =
     (if nd_start upgrade \<le> pos \<and> pos - nd_start upgrade \<le> length t
      then insert_all upgrade ins (insert_text (nd_start upgrade) (pos, add) t)
      else Inl (InsertOutside (nd_key upgrade)))"

definition gather ::
  "kv_lib \<Rightarrow> string \<Rightarrow> node \<Rightarrow> string \<Rightarrow> string \<Rightarrow> fitting \<Rightarrow> clone_error + edits" where
  "gather lib src upgrade new source table =
     rbind (fit_attachments lib src new source table (attachments_of lib upgrade) ([], [])) (\<lambda>st.
       copy_mentions lib src upgrade new source (sort_key nd_start (mentions source upgrade)) st)"

definition restate ::
  "kv_lib \<Rightarrow> string \<Rightarrow> node \<Rightarrow> string \<Rightarrow> string \<Rightarrow> fitting \<Rightarrow> clone_error + string option" where
  "restate lib src upgrade new source table =
     rbind (gather lib src upgrade new source table) (\<lambda>(ins, handled).
       if ins = [] then Inr None
       else rbind (insert_all upgrade (rev (sort ins)) (kv_text lib upgrade src)) (\<lambda>t. Inr (Some t)))"

section \<open>The generated region\<close>

text \<open>A definition of \<open>weapon_upgrades\<close>: its name, the file, the text of the file and the node.\<close>

type_synonym upgrade_def = "string \<times> string \<times> string \<times> node"
type_synonym item = "string \<times> string \<times> string \<times> string \<times> string"

definition fits_source :: "kv_lib \<Rightarrow> node \<Rightarrow> string \<Rightarrow> bool" where
  "fits_source lib upgrade source \<longleftrightarrow>
     (case kv_find lib upgrade ''allowed_weapons'' of None \<Rightarrow> True | Some allowed \<Rightarrow> fits (kids allowed) source)"

definition build_item :: "kv_lib \<Rightarrow> string \<Rightarrow> string \<Rightarrow> upgrade_def \<Rightarrow> clone_error + item list" where
  "build_item lib new source = (\<lambda>(name, f, src, n).
     if name \<in> set (SKIP_UPGRADES new) then Inr []
     else if \<not> fits_source lib n source then Inr []
     else rbind (restate lib src n new source (ATTACHMENTS new)) (\<lambda>t.
       case t of
         None \<Rightarrow> Inr []
       | Some t \<Rightarrow> if f = BASE then Inl (DefinedByHand (nd_key n) source new) else Inr [(nd_key n, f, new, source, t)]))"

definition build_items :: "kv_lib \<Rightarrow> upgrade_def list \<Rightarrow> clone_error + item list" where
  "build_items lib upgrades =
     rbind (rmap (\<lambda>(new, source). rbind (rmap (build_item lib new source) (sort_key fst upgrades)) (\<lambda>ls. Inr (concat ls))) CLONES)
       (\<lambda>ls. Inr (concat ls))"

definition item_text :: "string \<Rightarrow> item \<Rightarrow> string" where
  "item_text indent = (\<lambda>(key, f, new, source, t).
     indent @ ''// from '' @ f @ '': '' @ new @ '' added beside '' @ source @ [newline] @ indent @ t)"

text \<open>
  \<open>load\<close> takes the previous output out of the base theater, and \<open>main\<close> writes the
  new one in its place.  Reading the theaters is a parameter: the upgrades the
  chain defines, from the text of the base theater.
\<close>

definition load_base :: "string \<Rightarrow> clone_error + string" where
  "load_base src =
     (case (cut_at BEGIN_MARK src, cut_at END_MARK src) of
        (Some (before, _), Some (_, after)) \<Rightarrow> Inr (before @ after)
      | _ \<Rightarrow> Inl NoMarkers)"

definition region_body ::
  "kv_lib \<Rightarrow> (string \<Rightarrow> clone_error + upgrade_def list) \<Rightarrow> string \<Rightarrow> string \<Rightarrow> clone_error + string" where
  "region_body lib theater indent base =
     rbind (theater base) (\<lambda>upgrades.
     rbind (build_items lib upgrades) (\<lambda>items.
       Inr (join_by [newline, newline] (map (item_text indent) items))))"

definition write_region :: "string \<Rightarrow> string \<Rightarrow> string \<Rightarrow> string \<Rightarrow> string" where
  "write_region before indent body after =
     before @ BEGIN_MARK @ [newline, newline] @ body @ [newline, newline] @ indent @ END_MARK @ after"

definition generate_clones ::
  "kv_lib \<Rightarrow> (string \<Rightarrow> clone_error + upgrade_def list) \<Rightarrow> string \<Rightarrow> clone_error + string" where
  "generate_clones lib theater src =
     rbind (load_base src) (\<lambda>base.
       case (cut_at BEGIN_MARK src, cut_at END_MARK src) of
         (Some (before, _), Some (_, after)) \<Rightarrow>
           let indent = line_indent src (length before)
           in rbind (region_body lib theater indent base) (\<lambda>body. Inr (write_region before indent body after))
       | _ \<Rightarrow> Inl NoMarkers)"

section \<open>What a copy looks like\<close>

lemma drop_name_Some:
  "drop_name old t = Some r \<Longrightarrow> \<exists>x. t = x @ r \<and> py_lower x = py_lower old"
  by (auto simp: drop_name_def split: if_splits intro: exI [of _ "take (length old) t"])

lemma opt_quote_parts: "opt_quote t = (q, r) \<Longrightarrow> t = q @ r"
  by (auto simp: opt_quote_def split: list.splits if_splits)

lemma named_at_mem:
  assumes "(q, r) \<in> set (named_at old t)"
  shows "\<exists>x. t = q @ x @ r \<and> py_lower x = py_lower old"
proof -
  from assms have "(\<exists>cs. t = dquote # cs \<and> q = [dquote] \<and> drop_name old cs = Some r) \<or> q = [] \<and> drop_name old t = Some r"
  proof (cases t)
    case Nil
    with assms show ?thesis by (auto simp: named_at_def split: option.splits)
  next
    case (Cons c cs)
    with assms show ?thesis
      by (cases "c = dquote"; cases "drop_name old cs"; cases "drop_name old t") (simp_all add: named_at_def, blast?)
  qed
  then show ?thesis using drop_name_Some [of old _ r] by fastforce
qed

text \<open>A copy is the text with one occurrence of the old name, in whatever case, replaced.\<close>

definition renames :: "string \<Rightarrow> string \<Rightarrow> string \<Rightarrow> string \<Rightarrow> bool" where
  "renames old new t copy \<longleftrightarrow> (\<exists>pre x post. t = pre @ x @ post \<and> py_lower x = py_lower old \<and> copy = pre @ new @ post)"

lemma renames_Cons: "renames old new t copy \<Longrightarrow> renames old new (c # t) (c # copy)"
  unfolding renames_def by (metis append_Cons)

lemma key_renames: "retarget_key t old new = Inr copy \<Longrightarrow> renames old new t copy"
proof -
  assume k: "retarget_key t old new = Inr copy"
  then obtain q r alts where "named_at old t = (q, r) # alts"
    by (auto simp: retarget_key_def split: list.splits)
  moreover obtain q' rest where "opt_quote r = (q', rest)" by (cases "opt_quote r")
  moreover from this have "r = q' @ rest" by (rule opt_quote_parts)
  ultimately show ?thesis
    using k named_at_mem [of q r old t] unfolding retarget_key_def renames_def by fastforce
qed

lemma value_end_renames:
  "value_end new alts = Some copy \<Longrightarrow> set alts \<subseteq> set (named_at old t) \<Longrightarrow> renames old new t copy"
proof (induction new alts rule: value_end.induct)
  case (2 new q r alts)
  obtain q' ws where o: "opt_quote r = (q', ws)" by (cases "opt_quote r")
  show ?case
  proof (cases "list_all py_isspace ws")
    case True
    with 2 o have "copy = q @ new @ r" using opt_quote_parts [OF o] by simp
    moreover have "(q, r) \<in> set (named_at old t)" using 2 by simp
    ultimately show ?thesis using named_at_mem unfolding renames_def by blast
  next
    case False
    with 2 o show ?thesis by simp
  qed
qed simp

lemma value_renames: "value_from old new t = Some copy \<Longrightarrow> renames old new t copy"
proof (induction t arbitrary: copy)
  case Nil
  then show ?case
    by (subst (asm) value_from.simps) (auto split: option.splits intro: value_end_renames)
next
  case (Cons c t)
  then show ?case
    by (subst (asm) value_from.simps) (auto split: option.splits intro: value_end_renames renames_Cons)
qed

lemma retarget_value_renames: "retarget_value t old new = Inr copy \<Longrightarrow> renames old new t copy"
  by (auto simp: retarget_value_def split: option.splits intro: value_renames)

lemma mentions_named: "n \<in> set (mentions name m) \<Longrightarrow> is_named name n"
proof (induction name m rule: mentions.induct)
  case (1 name m)
  from 1(2) have "n = m \<and> is_named name m \<or> (\<exists>c \<in> set (kids m). n \<in> set (mentions name c))"
    by (subst (asm) mentions.simps) (auto split: if_splits)
  with 1(1) show ?case by auto
qed

lemma is_named_lower: "is_named name n \<Longrightarrow> py_lower name = name"
  by (auto simp: is_named_def)

lemma copy_renames:
  assumes "copy_mention lib src upgrade new source n = Inr copy" and "is_named source n"
  shows "renames source new (kv_text lib n src) copy"
proof (cases "py_lower (nd_key n) = source")
  case True
  with assms(1) have "renames (nd_key n) new (kv_text lib n src) copy"
    by (auto simp: copy_mention_def intro: key_renames split: if_splits)
  with True show ?thesis using is_named_lower [OF assms(2)] unfolding renames_def by simp
next
  case False
  with assms have "renames (value_of n) new (kv_text lib n src) copy" "py_lower (value_of n) = source"
    by (auto simp: copy_mention_def is_named_def intro: retarget_value_renames)
  then show ?thesis using is_named_lower [OF assms(2)] unfolding renames_def by simp
qed

section \<open>What a restatement holds\<close>

lemma insert_all_Inr:
  "insert_all up ins t = Inr t' \<Longrightarrow>
     t' = foldl (\<lambda>t x. insert_text (nd_start up) x t) t ins \<and> (\<forall>(p, a) \<in> set ins. nd_start up \<le> p)
     \<and> (ins \<noteq> [] \<longrightarrow> fst (hd ins) - nd_start up \<le> length t)"
  by (induction up ins t rule: insert_all.induct) (auto split: if_splits)

lemma insert_all_weave:
  assumes "insert_all up (rev ins) t = Inr t'" and "sorted (map fst ins)"
  shows "t' = weave (nd_start up) t ins"
proof -
  note i = insert_all_Inr [OF assms(1)]
  have "\<forall>(p, a) \<in> set ins. nd_start up \<le> p \<and> p - nd_start up \<le> length t"
  proof (cases ins rule: rev_cases)
    case (snoc ys y)
    then have "fst x \<le> fst y" if "x \<in> set ins" for x
      using assms(2) that by (auto simp: sorted_append)
    moreover have "fst y - nd_start up \<le> length t" using i snoc by simp
    ultimately show ?thesis using i by fastforce
  qed simp
  with assms(2) have "foldr (insert_text (nd_start up)) ins t = weave (nd_start up) t ins" by (rule foldr_weave)
  with i show ?thesis by (simp add: foldr_conv_foldl)
qed

lemma sorted_fst_sort: "sorted (map fst (sort (ins :: (nat \<times> string) list)))"
proof -
  have "sorted (sort ins)" by simp
  then show ?thesis by (rule sorted_map_mono) (auto simp: monotone_on_def less_eq_prod_def intro: less_imp_le)
qed

lemma copy_mentions_effect:
  "copy_mentions lib src up new source ns (ins, handled) = Inr (ins', handled') \<Longrightarrow> distinct (map nd_id ns) \<Longrightarrow>
     set ins \<subseteq> set ins' \<and>
     (\<forall>n \<in> set ns. nd_id n \<in> set handled \<or>
       (\<exists>copy. copy_mention lib src up new source n = Inr copy
          \<and> (insert_point src n, newline # line_indent src (nd_start n) @ copy) \<in> set ins'))"
proof (induction ns arbitrary: ins handled)
  case Nil
  then show ?case by simp
next
  case (Cons n ns)
  show ?case
  proof (cases "nd_id n \<in> set handled")
    case True
    with Cons show ?thesis by simp
  next
    case False
    then obtain copy where c: "copy_mention lib src up new source n = Inr copy"
      and r: "copy_mentions lib src up new source ns
          (ins @ [(insert_point src n, newline # line_indent src (nd_start n) @ copy)], handled @ [nd_id n]) = Inr (ins', handled')"
      using Cons.prems(1) by (auto simp: result_simps)
    have d: "nd_id n \<notin> nd_id ` set ns" "distinct (map nd_id ns)" using Cons.prems(2) by auto
    note ih = Cons.IH [OF r d(2)]
    have "(insert_point src n, newline # line_indent src (nd_start n) @ copy) \<in> set ins'" "set ins \<subseteq> set ins'"
      using ih by auto
    moreover have "nd_id m \<noteq> nd_id n" if "m \<in> set ns" for m using d(1) that by (metis imageI)
    ultimately show ?thesis using ih c by fastforce
  qed
qed

text \<open>The mentions that are left to the table of fitted attachments.\<close>

definition left_to_table :: "kv_lib \<Rightarrow> node \<Rightarrow> string \<Rightarrow> fitting \<Rightarrow> node \<Rightarrow> bool" where
  "left_to_table lib upgrade source table n \<longleftrightarrow>
     (\<exists>att \<in> set (attachments_of lib upgrade). \<exists>p. fitted_path lib source att = Inr (Some p)
        \<and> p \<in> fst ` set table \<and> nd_id n \<in> nd_id ` set (mentions source att))"

lemma fit_attachments_effect:
  "fit_attachments lib src new source table atts (ins, handled) = Inr (ins', handled') \<Longrightarrow> i \<in> set handled' \<Longrightarrow>
     i \<in> set handled \<or> (\<exists>att \<in> set atts. \<exists>p. fitted_path lib source att = Inr (Some p)
        \<and> p \<in> fst ` set table \<and> i \<in> nd_id ` set (mentions source att))"
proof (induction atts arbitrary: ins handled)
  case Nil
  then show ?case by simp
next
  case (Cons att atts)
  obtain ins1 h1 where f: "fit_attachment lib src new source table att (ins, handled) = Inr (ins1, h1)"
    and r: "fit_attachments lib src new source table atts (ins1, h1) = Inr (ins', handled')"
    using Cons.prems(1) by (auto simp: result_simps)
  have "h1 = handled \<or> (\<exists>p. fitted_path lib source att = Inr (Some p) \<and> p \<in> fst ` set table
      \<and> set h1 = set handled \<union> nd_id ` set (mentions source att))"
  proof -
    obtain path where path: "fitted_path lib source att = Inr path"
      using f by (auto simp: fit_attachment_def result_simps)
    show ?thesis
    proof (cases "path = None \<or> map_of table (the path) = None")
      case True
      with f path show ?thesis by (cases path) (auto simp: fit_attachment_def)
    next
      case False
      then obtain p choice where p: "path = Some p" "map_of table p = Some choice" by auto
      with f path have "set h1 = set handled \<union> nd_id ` set (mentions source att)"
        by (cases choice) (auto simp: fit_attachment_def result_simps Let_def)
      moreover have "p \<in> fst ` set table" using map_of_SomeD [OF p(2)] by force
      ultimately show ?thesis using path p(1) by blast
    qed
  qed
  with Cons.IH [OF r Cons.prems(2)] show ?case by auto
qed

lemma restate_parts:
  assumes "restate lib src up new source table = Inr (Some t)"
  obtains ins0 h0 ins h where "fit_attachments lib src new source table (attachments_of lib up) ([], []) = Inr (ins0, h0)"
    and "copy_mentions lib src up new source (sort_key nd_start (mentions source up)) (ins0, h0) = Inr (ins, h)"
    and "ins \<noteq> []" and "insert_all up (rev (sort ins)) (kv_text lib up src) = Inr t"
  using assms by (auto simp: restate_def gather_def result_simps split: if_splits)

lemma copied_mention:
  assumes "copy_mentions lib src up new source (sort_key nd_start (mentions source up)) (ins0, h0) = Inr (ins, h)"
    and "distinct (map nd_id (mentions source up))" and "n \<in> set (mentions source up)" and "nd_id n \<notin> set h0"
  shows "\<exists>copy. renames source new (kv_text lib n src) copy
    \<and> (insert_point src n, newline # line_indent src (nd_start n) @ copy) \<in> set ins"
proof -
  have "distinct (map nd_id (sort_key nd_start (mentions source up)))"
    using assms(2) by (simp add: distinct_map)
  from copy_mentions_effect [OF assms(1) this] assms(3,4)
  obtain copy where "copy_mention lib src up new source n = Inr copy"
    "(insert_point src n, newline # line_indent src (nd_start n) @ copy) \<in> set ins" by auto
  with copy_renames [OF _ mentions_named [OF assms(3)]] show ?thesis by blast
qed

section \<open>The region that is written\<close>

lemma markers:
  "unbordered BEGIN_MARK" "unbordered END_MARK" "newline \<notin> set BEGIN_MARK" "newline \<notin> set END_MARK"
  by code_simp+

lemma sublist_of_part: "suffix u x \<or> prefix u x \<Longrightarrow> sublist n u \<Longrightarrow> sublist n x"
  by (metis prefix_imp_sublist sublist_order.order.trans suffix_imp_sublist)

lemma write_region_mid:
  "write_region h indent body t = h @ BEGIN_MARK @ ([newline, newline] @ body @ [newline, newline] @ indent) @ END_MARK @ t"
  by (simp add: write_region_def)

lemma written_free:
  assumes "\<not> sublist END_MARK (h @ BEGIN_MARK)" and "\<not> sublist END_MARK body" and "indent = line_indent h (length h)"
  shows "\<not> sublist END_MARK (h @ BEGIN_MARK @ [newline, newline] @ body @ [newline, newline] @ indent)"
proof -
  have "\<not> sublist END_MARK h" using assms(1) sublist_of_part [of h "h @ BEGIN_MARK"] by auto
  then have "\<not> sublist END_MARK indent"
    using line_indent_suffix [of h "length h"] sublist_of_part [of indent h] assms(3) by auto
  moreover have "\<not> sublist END_MARK []" by (simp add: END_MARK_def)
  ultimately show ?thesis
    using assms(1,2) sublist_newline [OF markers(4), of "h @ BEGIN_MARK"] sublist_newline [OF markers(4), of "[]"]
      sublist_newline [OF markers(4), of body] by simp
qed

lemma written_marks:
  assumes "\<not> sublist BEGIN_MARK h" and "\<not> sublist END_MARK (h @ BEGIN_MARK)" and "\<not> sublist END_MARK body"
    and "indent = line_indent h (length h)"
  shows "cut_at BEGIN_MARK (write_region h indent body t) =
      Some (h, [newline, newline] @ body @ [newline, newline] @ indent @ END_MARK @ t)"
    and "\<exists>x. cut_at END_MARK (write_region h indent body t) = Some (x, t)"
proof -
  show "cut_at BEGIN_MARK (write_region h indent body t) =
      Some (h, [newline, newline] @ body @ [newline, newline] @ indent @ END_MARK @ t)"
    unfolding write_region_def by (rule cut_at_marker [OF markers(1) assms(1)])
  from cut_at_marker [OF markers(2) written_free [OF assms(2-4)], of t]
  show "\<exists>x. cut_at END_MARK (write_region h indent body t) = Some (x, t)"
    unfolding write_region_mid by (simp only: append_assoc) blast
qed

lemma line_indent_append: "line_indent (h @ x) (length h) = line_indent h (length h)"
  by (simp add: line_indent_def)

lemma generate_marked:
  assumes "cut_at BEGIN_MARK src = Some (h, r)" and "cut_at END_MARK src = Some (x, t)" and "src = h @ r'"
  shows "generate_clones lib theater src =
    rbind (region_body lib theater (line_indent h (length h)) (h @ t)) (\<lambda>body.
      Inr (write_region h (line_indent h (length h)) body t))"
  using assms(1,2) by (simp add: generate_clones_def load_base_def Let_def assms(3) line_indent_append)

lemma old_marks:
  assumes "\<not> sublist BEGIN_MARK h" and "\<not> sublist END_MARK (h @ BEGIN_MARK @ mid)"
  shows "cut_at BEGIN_MARK (h @ BEGIN_MARK @ mid @ END_MARK @ t) = Some (h, mid @ END_MARK @ t)"
    and "cut_at END_MARK (h @ BEGIN_MARK @ mid @ END_MARK @ t) = Some (h @ BEGIN_MARK @ mid, t)"
  using cut_at_marker [OF markers(1) assms(1), of "mid @ END_MARK @ t"]
    cut_at_marker [OF markers(2) assms(2), of t] by simp_all

lemma regenerates:
  assumes "\<not> sublist BEGIN_MARK h" and "\<not> sublist END_MARK (h @ BEGIN_MARK @ mid)"
    and "region_body lib theater (line_indent h (length h)) (h @ t) = Inr body" and "\<not> sublist END_MARK body"
  shows "\<exists>out. generate_clones lib theater (h @ BEGIN_MARK @ mid @ END_MARK @ t) = Inr out
    \<and> out = write_region h (line_indent h (length h)) body t \<and> generate_clones lib theater out = Inr out"
proof -
  let ?out = "write_region h (line_indent h (length h)) body t"
  have "\<not> sublist END_MARK (h @ BEGIN_MARK)"
    using assms(2) sublist_of_part [of "h @ BEGIN_MARK" "h @ BEGIN_MARK @ mid"] by auto
  note w = written_marks [OF assms(1) this assms(4) refl, of t]
  obtain x where x: "cut_at END_MARK ?out = Some (x, t)" using w(2) by blast
  have "?out = h @ BEGIN_MARK @ [newline, newline] @ body @ [newline, newline] @ line_indent h (length h) @ END_MARK @ t"
    by (simp only: write_region_def)
  from generate_marked [OF w(1) x this, of lib theater] assms(3)
  have "generate_clones lib theater ?out = Inr ?out" by simp
  moreover have "generate_clones lib theater (h @ BEGIN_MARK @ mid @ END_MARK @ t) = Inr ?out"
    using generate_marked [OF old_marks [OF assms(1,2), where t = t] refl, of lib theater] assms(3) by simp
  ultimately show ?thesis by blast
qed

text \<open>
  The generator as a command that writes one planned file: the base theater,
  whose region is the only thing that changes.
\<close>

definition clone_plan ::
  "kv_lib \<Rightarrow> (string \<Rightarrow> clone_error + upgrade_def list) \<Rightarrow> dir \<Rightarrow> clone_error + (string \<times> string) list" where
  "clone_plan lib theater d =
     (case map_of d BASE of
        None \<Rightarrow> Inl NoMarkers
      | Some src \<Rightarrow> rbind (generate_clones lib theater src) (\<lambda>out. Inr [(BASE, out)]))"

definition one_region :: "kv_lib \<Rightarrow> (string \<Rightarrow> clone_error + upgrade_def list) \<Rightarrow> dir \<Rightarrow> bool" where
  "one_region lib theater d \<longleftrightarrow>
     (\<exists>h mid t body. map_of d BASE = Some (h @ BEGIN_MARK @ mid @ END_MARK @ t) \<and> \<not> sublist BEGIN_MARK h
        \<and> \<not> sublist END_MARK (h @ BEGIN_MARK @ mid)
        \<and> region_body lib theater (line_indent h (length h)) (h @ t) = Inr body \<and> \<not> sublist END_MARK body)"

lemma one_region_written:
  assumes "one_region lib theater d" and "clone_plan lib theater d = Inr fs"
  shows "one_region lib theater (fst (sync True fs d)) \<and> clone_plan lib theater (fst (sync True fs d)) = Inr fs"
proof -
  obtain h mid t body where d: "map_of d BASE = Some (h @ BEGIN_MARK @ mid @ END_MARK @ t)"
    and m: "\<not> sublist BEGIN_MARK h" "\<not> sublist END_MARK (h @ BEGIN_MARK @ mid)"
    and b: "region_body lib theater (line_indent h (length h)) (h @ t) = Inr body" "\<not> sublist END_MARK body"
    using assms(1) unfolding one_region_def by blast
  let ?i = "line_indent h (length h)"
  obtain out where g: "generate_clones lib theater (h @ BEGIN_MARK @ mid @ END_MARK @ t) = Inr out"
    "out = write_region h ?i body t" "generate_clones lib theater out = Inr out"
    using regenerates [OF m b] by blast
  then have fs: "fs = [(BASE, out)]" using assms(2) d by (simp add: clone_plan_def)
  then have w: "map_of (fst (sync True fs d)) BASE = Some out" by (intro sync_write) simp_all
  have "\<not> sublist END_MARK (h @ BEGIN_MARK)"
    using m(2) sublist_of_part [of "h @ BEGIN_MARK" "h @ BEGIN_MARK @ mid"] by auto
  then have "\<not> sublist END_MARK (h @ BEGIN_MARK @ [newline, newline] @ body @ [newline, newline] @ ?i)"
    by (rule written_free [OF _ b(2) refl])
  with w m(1) b have "one_region lib theater (fst (sync True fs d))"
    unfolding one_region_def g(2) write_region_mid by blast
  moreover have "clone_plan lib theater (fst (sync True fs d)) = Inr fs" using w g(3) fs by (simp add: clone_plan_def)
  ultimately show ?thesis by blast
qed

interpretation clone_gen: generator "clone_plan lib theater" "one_region lib theater" for lib theater
  using one_region_written
  by unfold_locales (auto simp: clone_plan_def result_simps split: option.splits)

section \<open>Properties\<close>


text \<open>An upgrade of two places that name the weapon, read by a library of slices.\<close>

definition slices :: kv_lib where
  "slices = \<lparr>kv_find = (\<lambda>n k. find (\<lambda>c. py_lower (nd_key c) = k) (kids n)),
     kv_text = (\<lambda>n src. take (nd_end n - nd_start n) (drop (nd_start n) src))\<rparr>"

definition optic_text :: string where
  "optic_text = ''x optic{'' @ [newline] @ '' allowed{'' @ [newline, tab] @ ''weapon gal // fits'' @ [newline, tab]
     @ ''weapon mk4'' @ [newline] @ '' }'' @ [newline] @ '' fov{'' @ [newline, tab] @ ''GAL 5'' @ [newline] @ '' }''
     @ [newline] @ ''}''"

definition optic :: node where
  "optic = Node 0 ''optic'' None 2 71 (Some
     [Node 1 ''allowed'' None 10 53 (Some
        [Node 2 ''weapon'' (Some ''gal'') 20 30 None, Node 3 ''weapon'' (Some ''mk4'') 40 50 None]),
      Node 4 ''fov'' None 55 69 (Some [Node 5 ''GAL'' (Some ''5'') 61 66 None])])"

lemma optic_mentions: "map nd_id (mentions ''gal'' optic) = [5, 2]"
  by code_simp

lemma optic_restated:
  "restate slices optic_text optic ''xm8'' ''gal'' [] =
     Inr (Some (''optic{'' @ [newline] @ '' allowed{'' @ [newline, tab] @ ''weapon gal // fits''
       @ [newline, tab] @ ''weapon xm8'' @ [newline, tab]
       @ ''weapon mk4'' @ [newline] @ '' }'' @ [newline] @ '' fov{'' @ [newline, tab] @ ''GAL 5''
       @ [newline, tab] @ ''xm8 5'' @ [newline] @ '' }'' @ [newline] @ ''}''))"
  by code_simp


text \<open>
  A node that does not start its line: the code takes what precedes it on the line
  for its indent, and repeats it before the copy.
\<close>

lemma one_line_block_repeats_its_head:
  "restate slices ''u{ fov{ GAL 5 } }''
     (Node 0 ''u'' None 0 17 (Some [Node 1 ''fov'' None 3 15 (Some [Node 2 ''GAL'' (Some ''5'') 8 13 None])]))
     ''xm8'' ''gal'' [] =
   Inr (Some (''u{ fov{ GAL 5'' @ [newline] @ ''u{ fov{ xm8 5 } }''))"
  by code_simp

text \<open>
  C35.  A rerun copies TUG's definitions and not its own: what is written depends
  on the text around the region only, whatever the region held, so generating
  again gives the same file.
\<close>

theorem rerun_changes_nothing:
  assumes "\<not> sublist BEGIN_MARK h" and "\<not> sublist END_MARK (h @ BEGIN_MARK @ mid)"
    and "region_body lib theater (line_indent h (length h)) (h @ t) = Inr body" and "\<not> sublist END_MARK body"
  shows "\<exists>out. generate_clones lib theater (h @ BEGIN_MARK @ mid @ END_MARK @ t) = Inr out
    \<and> out = write_region h (line_indent h (length h)) body t \<and> generate_clones lib theater out = Inr out"
  using assms by (rule regenerates)

definition clone_source :: string where
  "clone_source = ''weapon_upgrades{'' @ [newline, tab] @ BEGIN_MARK @ [newline] @ ''stale'' @ [newline, tab] @ END_MARK @ [newline] @ ''}''"

definition clone_chain :: "string \<Rightarrow> clone_error + upgrade_def list" where
  "clone_chain base = Inr [(''optic'', ''tug.theater'', ''weapon_galil_sar 5'',
     Node 0 ''optic'' None 0 18 (Some [Node 1 ''weapon_galil_sar'' (Some ''5'') 0 18 None]))]"

lemma clone_body:
  "region_body slices clone_chain [tab] base =
     Inr ([tab] @ ''// from tug.theater: weapon_xm8 added beside weapon_galil_sar'' @ [newline, tab]
       @ ''weapon_galil_sar 5'' @ [newline] @ ''weapon_xm8 5'')"
  unfolding region_body_def clone_chain_def by code_simp

theorem rerun_changes_nothing_witness:
  "\<exists>out. generate_clones slices clone_chain clone_source = Inr out \<and> generate_clones slices clone_chain out = Inr out"
proof -
  let ?h = "''weapon_upgrades{'' @ [newline, tab]"
  let ?mid = "[newline] @ ''stale'' @ [newline, tab]"
  have c: "\<not> sublist BEGIN_MARK ?h" "\<not> sublist END_MARK (?h @ BEGIN_MARK @ ?mid)" by code_simp+
  have i: "line_indent ?h (length ?h) = [tab]" by code_simp
  have b: "\<not> sublist END_MARK ([tab] @ ''// from tug.theater: weapon_xm8 added beside weapon_galil_sar'' @ [newline, tab]
       @ ''weapon_galil_sar 5'' @ [newline] @ ''weapon_xm8 5'')" by code_simp
  have s: "clone_source = ?h @ BEGIN_MARK @ ?mid @ END_MARK @ [newline] @ ''}''" by (simp add: clone_source_def)
  from rerun_changes_nothing [OF c, of slices clone_chain "[newline] @ ''}''", unfolded i, OF clone_body b]
  show ?thesis unfolding s by blast
qed

end
