(* ===== verification/RenderIcon.thy ===== *)
theory RenderIcon
  imports Matching "HOL-Library.AList"
begin

text \<open>
  What \<open>fastdl/tools/render_icon.py\<close> reads before it builds a Blender scene: its
  options and configuration, and the triangles of the SMD models it combines.
  Floating-point numbers are a type parameter \<open>'f\<close>: the code reads them from
  text, converts one to an integer and takes one from 1.0, and these three
  operations are parameters.
\<close>

record 'f floats =
  read_float :: "string \<Rightarrow> 'f option"
  int_of_float :: "'f \<Rightarrow> int option"
  one_minus :: "'f \<Rightarrow> 'f"

datatype render_error = BadFloat | BadInt | NotASetting | NoSuchFile string | NoModel | NoOut | NoTriangles string
  | DivByZero | BadImage string

definition rfloat :: "'f floats \<Rightarrow> string \<Rightarrow> render_error + 'f" where
  "rfloat fl s = (case read_float fl s of None \<Rightarrow> Inl BadFloat | Some x \<Rightarrow> Inr x)"

section \<open>Settings\<close>

datatype 'f setting = StrSetting string | IntSetting int | FloatSetting 'f

text \<open>The defaults, with \<open>lit\<close> for the value of a floating-point literal.\<close>

definition DEFAULTS :: "(string \<Rightarrow> 'f) \<Rightarrow> (string \<times> 'f setting) list" where
  "DEFAULTS lit =
     [(''model'', StrSetting []), (''texture'', StrSetting []), (''normal'', StrSetting []), (''orm'', StrSetting []),
      (''envmap'', StrSetting []), (''envmap_strength'', FloatSetting (lit ''1.0'')),
      (''envmap_rotation'', FloatSetting (lit ''0.0'')), (''rough_channel'', StrSetting ''G''),
      (''invert_rough'', IntSetting 0), (''metal_channel'', StrSetting ''B''),
      (''roughness_multiplier'', FloatSetting (lit ''0.75'')),
      (''width'', IntSetting 1024), (''height'', IntSetting 512), (''samples'', IntSetting 160),
      (''yaw'', FloatSetting (lit ''0.0'')), (''pitch'', FloatSetting (lit ''0.0'')), (''roll'', FloatSetting (lit ''0.0'')),
      (''margin'', FloatSetting (lit ''1.12'')), (''fov'', FloatSetting (lit ''32.0'')),
      (''projection'', StrSetting ''PERSP''), (''flip_v'', IntSetting 0),
      (''key_energy'', FloatSetting (lit ''2400.0'')), (''fill_energy'', FloatSetting (lit ''500.0'')),
      (''world_strength'', FloatSetting (lit ''0.5'')),
      (''roughness'', FloatSetting (lit ''0.32'')), (''metallic'', FloatSetting (lit ''1.0''))]"

text \<open>\<open>"?([A-Za-z_]+)"?\s+"?([^"\s]+)"?\<close> at the start of a line.\<close>

definition key_char :: "char \<Rightarrow> bool" where
  "key_char c \<longleftrightarrow> (let n = of_char c :: nat in 65 \<le> n \<and> n \<le> 90 \<or> 97 \<le> n \<and> n \<le> 122 \<or> n = 95)"

definition skip_quote :: "string \<Rightarrow> string" where
  "skip_quote s = (case s of [] \<Rightarrow> [] | c # cs \<Rightarrow> if c = dquote then cs else s)"

definition value_char :: "char \<Rightarrow> bool" where
  "value_char c \<longleftrightarrow> c \<noteq> dquote \<and> \<not> py_isspace c"

definition match_setting :: "string \<Rightarrow> (string \<times> string) option" where
  "match_setting l =
     (let k = takeWhile key_char (skip_quote l)
      in if k = [] then None
         else obind (take_spaces (skip_quote (dropWhile key_char (skip_quote l)))) (\<lambda>rest.
           let v = takeWhile value_char (skip_quote rest)
           in if v = [] then None else Some (k, v)))"

definition before_comment :: "string \<Rightarrow> string" where
  "before_comment l = (case cut_at ''//'' l of None \<Rightarrow> l | Some (h, t) \<Rightarrow> h)"

definition config_entry :: "string \<Rightarrow> (string \<times> string) option" where
  "config_entry l = map_option (\<lambda>(k, v). (py_lower k, v)) (match_setting (py_strip (before_comment l)))"

definition convert :: "'f floats \<Rightarrow> 'f setting \<Rightarrow> string \<Rightarrow> render_error + 'f setting" where
  "convert fl old v =
     (case old of
        StrSetting s \<Rightarrow> Inr (StrSetting v)
      | IntSetting i \<Rightarrow>
          rbind (rfloat fl v) (\<lambda>x. case int_of_float fl x of None \<Rightarrow> Inl BadInt | Some n \<Rightarrow> Inr (IntSetting n))
      | FloatSetting f \<Rightarrow> rbind (rfloat fl v) (\<lambda>x. Inr (FloatSetting x)))"

type_synonym 'f config = "(string \<times> 'f setting) list \<times> string list"

text \<open>The key \<open>_models\<close> is in the dictionary, and its value is a list.\<close>

definition config_line :: "'f floats \<Rightarrow> 'f config \<Rightarrow> string \<Rightarrow> render_error + 'f config" where
  "config_line fl = (\<lambda>(cfg, models) l.
     case config_entry l of
       None \<Rightarrow> Inr (cfg, models)
     | Some (k, v) \<Rightarrow>
         if k = ''model'' then Inr (cfg, models @ [v])
         else if k = ''_models'' then rbind (rfloat fl v) (\<lambda>x. Inl NotASetting)
         else (case map_of cfg k of
                 None \<Rightarrow> Inr (cfg, models)
               | Some old \<Rightarrow> rbind (convert fl old v) (\<lambda>new. Inr (AList.update k new cfg, models))))"

fun config_lines :: "'f floats \<Rightarrow> 'f config \<Rightarrow> string list \<Rightarrow> render_error + 'f config" where
  "config_lines fl st [] = Inr st"
| "config_lines fl st (l # ls) = rbind (config_line fl st l) (\<lambda>st. config_lines fl st ls)"

definition parse_config :: "'f floats \<Rightarrow> (string \<Rightarrow> 'f) \<Rightarrow> string option \<Rightarrow> render_error + 'f config" where
  "parse_config fl lit file =
     (case file of None \<Rightarrow> Inr (DEFAULTS lit, []) | Some t \<Rightarrow> config_lines fl (DEFAULTS lit, []) (lines_of t))"

section \<open>Triangles\<close>

type_synonym 'f vec = "'f \<times> 'f \<times> 'f"

text \<open>A corner of a triangle: where it is, its normal, its texture coordinates.\<close>

type_synonym 'f corner = "'f vec \<times> 'f vec \<times> 'f \<times> 'f"

record 'f mesh =
  ms_verts :: "'f vec list"
  ms_faces :: "(nat \<times> nat \<times> nat) list"
  ms_uvs :: "('f \<times> 'f) list"
  ms_normals :: "'f vec list"

definition no_mesh :: "'f mesh" where
  "no_mesh = \<lparr>ms_verts = [], ms_faces = [], ms_uvs = [], ms_normals = []\<rparr>"

definition add_face :: "'f corner list \<Rightarrow> 'f mesh \<Rightarrow> 'f mesh" where
  "add_face pending m =
     (let base = length (ms_verts m)
      in \<lparr>ms_verts = ms_verts m @ map fst pending,
          ms_faces = ms_faces m @ [(base, base + 1, base + 2)],
          ms_uvs = ms_uvs m @ map (snd \<circ> snd) pending,
          ms_normals = ms_normals m @ map (fst \<circ> snd) pending\<rparr>)"

definition corner_of :: "'f floats \<Rightarrow> bool \<Rightarrow> string list \<Rightarrow> render_error + 'f corner" where
  "corner_of fl flip parts =
     rbind (rmap (rfloat fl) (take 8 (drop 1 parts))) (\<lambda>xs.
       Inr ((xs ! 0, xs ! 1, xs ! 2), (xs ! 3, xs ! 4, xs ! 5), xs ! 6, if flip then one_minus fl (xs ! 7) else xs ! 7))"

type_synonym 'f smd_state = "string option \<times> 'f corner list \<times> 'f mesh"

definition SECTIONS :: "string list" where
  "SECTIONS = [''nodes'', ''skeleton'', ''triangles'', ''vertexanimation'']"

definition triangle_line :: "'f floats \<Rightarrow> bool \<Rightarrow> 'f smd_state \<Rightarrow> string list \<Rightarrow> render_error + 'f smd_state" where
  "triangle_line fl flip = (\<lambda>(sec, pending, m) parts.
     if read_float fl (hd parts) = None then Inr (sec, [], m)
     else if length parts < 9 then Inr (sec, pending, m)
     else rbind (corner_of fl flip parts) (\<lambda>c.
       let pending = pending @ [c]
       in if length pending = 3 then Inr (sec, [], add_face pending m) else Inr (sec, pending, m)))"

definition smd_line :: "'f floats \<Rightarrow> bool \<Rightarrow> 'f smd_state \<Rightarrow> string \<Rightarrow> render_error + 'f smd_state" where
  "smd_line fl flip = (\<lambda>(sec, pending, m) raw.
     let line = py_strip raw; low = py_lower line
     in if line = [] then Inr (sec, pending, m)
        else if low \<in> set SECTIONS then Inr (Some low, pending, m)
        else if low = ''end'' then Inr (None, pending, m)
        else if sec \<noteq> Some ''triangles'' then Inr (sec, pending, m)
        else triangle_line fl flip (sec, pending, m) (py_words line))"

fun smd_lines :: "'f floats \<Rightarrow> bool \<Rightarrow> 'f smd_state \<Rightarrow> string list \<Rightarrow> render_error + 'f smd_state" where
  "smd_lines fl flip st [] = Inr st"
| "smd_lines fl flip st (l # ls) = rbind (smd_line fl flip st l) (\<lambda>st. smd_lines fl flip st ls)"

definition parse_smd :: "'f floats \<Rightarrow> bool \<Rightarrow> string \<Rightarrow> render_error + 'f mesh" where
  "parse_smd fl flip t =
     rbind (smd_lines fl flip (None, [], no_mesh) (lines_of t)) (\<lambda>(sec, pending, m). Inr m)"

section \<open>The command\<close>

text \<open>\<open>argv\<close> is what follows \<open>--\<close>: names and values in turn.\<close>

fun read_opts :: "string list \<Rightarrow> (string \<times> string) list \<Rightarrow> (string \<times> string) list" where
  "read_opts (k # v # rest) opts = read_opts rest (AList.update (dropWhile (\<lambda>c. c = CHR ''-'') k) v opts)"
| "read_opts _ opts = opts"

definition opt_or :: "(string \<times> string) list \<Rightarrow> string \<Rightarrow> string \<Rightarrow> string" where
  "opt_or opts k d = (case map_of opts k of None \<Rightarrow> d | Some v \<Rightarrow> v)"

definition text_setting :: "(string \<times> 'f setting) list \<Rightarrow> string \<Rightarrow> string" where
  "text_setting cfg k = (case map_of cfg k of Some (StrSetting s) \<Rightarrow> s | _ \<Rightarrow> [])"

definition int_setting :: "(string \<times> 'f setting) list \<Rightarrow> string \<Rightarrow> int" where
  "int_setting cfg k = (case map_of cfg k of Some (IntSetting i) \<Rightarrow> i | _ \<Rightarrow> 0)"

definition model_paths :: "(string \<times> string) list \<Rightarrow> string list \<Rightarrow> string list" where
  "model_paths opts models =
     (if models = []
      then (if opt_or opts ''smd'' [] \<noteq> [] then [opt_or opts ''smd'' []] else [])
      else map (py_join (opt_or opts ''models'' ''.'')) models)"

definition texture_opts :: "(string \<times> string) list \<Rightarrow> (string \<times> 'f setting) list \<Rightarrow> (string \<times> string) list" where
  "texture_opts opts cfg =
     (let opts = (if opt_or opts ''texture'' [] = [] \<and> text_setting cfg ''texture'' \<noteq> []
                  then AList.update ''texture'' (py_join (opt_or opts ''textures'' ''.'') (text_setting cfg ''texture'')) opts
                  else opts);
          rdir = opt_or opts ''render'' ''.''
      in foldl (\<lambda>opts key. if text_setting cfg key \<noteq> [] then AList.update key (py_join rdir (text_setting cfg key)) opts else opts)
           opts [''normal'', ''orm'', ''envmap''])"

definition add_mesh :: "'f mesh \<Rightarrow> 'f mesh \<Rightarrow> 'f mesh" where
  "add_mesh m n =
     (let off = length (ms_verts m)
      in \<lparr>ms_verts = ms_verts m @ ms_verts n,
          ms_faces = ms_faces m @ map (\<lambda>(a, b, c). (a + off, b + off, c + off)) (ms_faces n),
          ms_uvs = ms_uvs m @ ms_uvs n,
          ms_normals = ms_normals m @ ms_normals n\<rparr>)"

fun load_models ::
  "'f floats \<Rightarrow> bool \<Rightarrow> (string \<Rightarrow> string option) \<Rightarrow> string list \<Rightarrow> 'f mesh \<Rightarrow> render_error + 'f mesh" where
  "load_models fl flip files [] m = Inr m"
| "load_models fl flip files (path # paths) m =
     (case files path of
        None \<Rightarrow> Inl (NoSuchFile path)
      | Some t \<Rightarrow>
          rbind (parse_smd fl flip t) (\<lambda>n.
            if ms_faces n = [] then Inl (NoTriangles path) else load_models fl flip files paths (add_mesh m n)))"

text \<open>Everything \<open>main\<close> hands to the scene: the mesh, the settings and the paths of the pictures.\<close>

definition scene_inputs ::
  "'f floats \<Rightarrow> (string \<Rightarrow> 'f) \<Rightarrow> (string \<Rightarrow> string option) \<Rightarrow> string list
     \<Rightarrow> render_error + 'f mesh \<times> (string \<times> 'f setting) list \<times> (string \<times> string) list \<times> string" where
  "scene_inputs fl lit files argv =
     (let opts = read_opts argv []
      in rbind (parse_config fl lit (obind (map_of opts ''config'') (\<lambda>p. if p = [] then None else files p))) (\<lambda>(cfg, models).
         let paths = model_paths opts models; opts = texture_opts opts cfg
         in if paths = [] then Inl NoModel
            else case map_of opts ''out'' of
                   None \<Rightarrow> Inl NoOut
                 | Some out \<Rightarrow>
                     rbind (load_models fl (int_setting cfg ''flip_v'' \<noteq> 0) files paths no_mesh) (\<lambda>m.
                       Inr (m, cfg, map (\<lambda>key. (key @ ''_path'', opt_or opts key [])) [''texture'', ''normal'', ''orm'', ''envmap''], out))))"

section \<open>Settings keep their types\<close>

datatype kind = StrKind | IntKind | FloatKind

fun kind_of :: "'f setting \<Rightarrow> kind" where
  "kind_of (StrSetting s) = StrKind"
| "kind_of (IntSetting i) = IntKind"
| "kind_of (FloatSetting f) = FloatKind"

definition kinds :: "(string \<times> 'f setting) list \<Rightarrow> string \<Rightarrow> kind option" where
  "kinds cfg k = map_option kind_of (map_of cfg k)"

lemma convert_kind: "convert fl old v = Inr new \<Longrightarrow> kind_of new = kind_of old"
  by (cases old) (auto simp: convert_def result_simps split: option.splits)

lemma config_lineE:
  assumes "config_line fl (cfg, models) l = Inr (cfg', models')"
  obtains (none) "config_entry l = None" "cfg' = cfg" "models' = models"
  | (model) v where "config_entry l = Some (''model'', v)" "cfg' = cfg" "models' = models @ [v]"
  | (unknown) k v where "config_entry l = Some (k, v)" "k \<noteq> ''model''" "map_of cfg k = None" "cfg' = cfg" "models' = models"
  | (set) k v old new where "config_entry l = Some (k, v)" "k \<noteq> ''model''" "map_of cfg k = Some old"
      "convert fl old v = Inr new" "cfg' = AList.update k new cfg" "models' = models"
proof (cases "config_entry l")
  case None
  with assms show thesis by (intro none) (simp_all add: config_line_def)
next
  case (Some e)
  obtain k v where e: "e = (k, v)" by (cases e)
  show thesis
  proof (cases "k = ''model''")
    case True
    with assms Some e show thesis by (intro model [of v]) (auto simp: config_line_def)
  next
    case False
    with assms Some e have k: "k \<noteq> ''_models''" by (auto simp: config_line_def result_simps)
    show thesis
    proof (cases "map_of cfg k")
      case None
      with assms Some e False k show thesis by (intro unknown [of k v]) (simp_all add: config_line_def)
    next
      case (Some old)
      with assms \<open>config_entry l = Some e\<close> e False k obtain new where "convert fl old v = Inr new"
        "cfg' = AList.update k new cfg" "models' = models" by (auto simp: config_line_def result_simps)
      with \<open>config_entry l = Some e\<close> e False Some show thesis by (intro set) simp_all
    qed
  qed
qed

lemma config_line_kinds:
  "config_line fl (cfg, models) l = Inr (cfg', models') \<Longrightarrow> kinds cfg' = kinds cfg"
  by (erule config_lineE) (auto simp: kinds_def update_conv' fun_eq_iff dest: convert_kind)

lemma config_lines_kinds:
  "config_lines fl (cfg, models) ls = Inr (cfg', models') \<Longrightarrow> kinds cfg' = kinds cfg"
proof (induction ls arbitrary: cfg models)
  case (Cons l ls)
  then obtain cfg1 m1 where "config_line fl (cfg, models) l = Inr (cfg1, m1)"
    "config_lines fl (cfg1, m1) ls = Inr (cfg', models')" by (auto simp: result_simps)
  with config_line_kinds Cons.IH show ?case by metis
qed simp

text \<open>The value of a setting is what the last line that names it says.\<close>

definition said :: "string \<Rightarrow> string list \<Rightarrow> string list" where
  "said k ls = concat (map (\<lambda>l. case config_entry l of None \<Rightarrow> [] | Some (k', v) \<Rightarrow> if k' = k then [v] else []) ls)"

lemma said_Nil [simp]: "said k [] = []"
  by (simp add: said_def)

lemma said_Cons: "said k (l # ls) = (case config_entry l of Some (k', v) \<Rightarrow> if k' = k then [v] else [] | None \<Rightarrow> []) @ said k ls"
  by (simp add: said_def split: option.split)

lemma config_line_text:
  assumes "config_line fl (cfg, models) l = Inr (cfg', models')" and "map_of cfg k = Some (StrSetting d)"
    and "k \<noteq> ''model''"
  shows "map_of cfg' k = Some (StrSetting (last (d # said k [l])))"
  using assms(1)
proof (cases rule: config_lineE)
  case (unknown k' v)
  with assms(2) show ?thesis by (cases "k' = k") (auto simp: said_def)
next
  case (set k' v old new)
  with assms(2) show ?thesis by (cases "k' = k") (auto simp: said_def update_conv' convert_def)
qed (use assms(2,3) in \<open>auto simp: said_def\<close>)

lemma config_line_models:
  "config_line fl (cfg, models) l = Inr (cfg', models') \<Longrightarrow> models' = models @ said ''model'' [l]"
  by (erule config_lineE) (auto simp: said_def)

lemma config_lines_text:
  "config_lines fl (cfg, models) ls = Inr (cfg', models') \<Longrightarrow> map_of cfg k = Some (StrSetting d) \<Longrightarrow>
     k \<noteq> ''model'' \<Longrightarrow> map_of cfg' k = Some (StrSetting (last (d # said k ls)))"
proof (induction ls arbitrary: cfg models d)
  case Nil
  then show ?case by (simp add: said_def)
next
  case (Cons l ls)
  then obtain cfg1 m1 where c: "config_line fl (cfg, models) l = Inr (cfg1, m1)"
    and r: "config_lines fl (cfg1, m1) ls = Inr (cfg', models')" by (auto simp: result_simps)
  from Cons.IH [OF r config_line_text [OF c Cons.prems(2,3)] Cons.prems(3)] show ?case
    by (simp add: said_Cons [of k l ls] said_Cons [of k l "[]"] said_Nil split: option.splits if_splits)
qed

lemma config_lines_models:
  "config_lines fl (cfg, models) ls = Inr (cfg', models') \<Longrightarrow> models' = models @ said ''model'' ls"
proof (induction ls arbitrary: cfg models)
  case Nil
  then show ?case by (simp add: said_def)
next
  case (Cons l ls)
  then obtain cfg1 m1 where c: "config_line fl (cfg, models) l = Inr (cfg1, m1)"
    and r: "config_lines fl (cfg1, m1) ls = Inr (cfg', models')" by (auto simp: result_simps)
  from Cons.IH [OF r] config_line_models [OF c] show ?case by (simp add: said_def)
qed

section \<open>Meshes\<close>

text \<open>Face \<open>i\<close> has the corners \<open>3i\<close> to \<open>3i + 2\<close>, and every corner has everything.\<close>

definition well_formed :: "'f mesh \<Rightarrow> bool" where
  "well_formed m \<longleftrightarrow> ms_faces m = map (\<lambda>i. (3 * i, 3 * i + 1, 3 * i + 2)) [0..<length (ms_faces m)]
     \<and> length (ms_verts m) = 3 * length (ms_faces m) \<and> length (ms_uvs m) = 3 * length (ms_faces m)
     \<and> length (ms_normals m) = 3 * length (ms_faces m)"

lemma no_mesh_well_formed: "well_formed no_mesh"
  by (simp add: well_formed_def no_mesh_def)

lemma add_face_well_formed: "well_formed m \<Longrightarrow> length pending = 3 \<Longrightarrow> well_formed (add_face pending m)"
  by (auto simp: well_formed_def add_face_def Let_def)

lemma smd_line_well_formed:
  "smd_line fl flip (sec, pending, m) raw = Inr (sec', pending', m') \<Longrightarrow>
     well_formed m \<Longrightarrow> length pending < 3 \<Longrightarrow> well_formed m' \<and> length pending' < 3"
  by (auto simp: smd_line_def triangle_line_def Let_def result_simps add_face_well_formed split: if_splits)

lemma smd_lines_well_formed:
  "smd_lines fl flip (sec, pending, m) ls = Inr (sec', pending', m') \<Longrightarrow>
     well_formed m \<Longrightarrow> length pending < 3 \<Longrightarrow> well_formed m'"
proof (induction ls arbitrary: sec pending m)
  case (Cons l ls)
  then obtain s1 p1 m1 where l: "smd_line fl flip (sec, pending, m) l = Inr (s1, p1, m1)"
    and r: "smd_lines fl flip (s1, p1, m1) ls = Inr (sec', pending', m')" by (auto simp: result_simps)
  from smd_line_well_formed [OF l Cons.prems(2,3)] Cons.IH [OF r] show ?case by blast
qed simp

lemma parse_smd_well_formed: "parse_smd fl flip t = Inr m \<Longrightarrow> well_formed m"
  by (auto simp: parse_smd_def result_simps no_mesh_well_formed intro: smd_lines_well_formed)

lemma add_mesh_well_formed:
  assumes "well_formed m" and "well_formed n"
  shows "well_formed (add_mesh m n)"
proof -
  let ?a = "length (ms_faces m)" and ?b = "length (ms_faces n)"
  let ?tri = "\<lambda>i. (3 * i, 3 * i + 1, 3 * i + 2)"
  have n: "ms_faces n = map ?tri [0..<?b]" using assms(2) by (simp add: well_formed_def)
  have "map (\<lambda>(a, b, c). (a + 3 * ?a, b + 3 * ?a, c + 3 * ?a)) (map ?tri [0..<?b]) = map ?tri (map (\<lambda>i. i + ?a) [0..<?b])"
    by simp
  also have "\<dots> = map ?tri [?a..<?a + ?b]" by (simp only: map_add_upt add.commute)
  finally have "map (\<lambda>(a, b, c). (a + 3 * ?a, b + 3 * ?a, c + 3 * ?a)) (ms_faces n) = map ?tri [?a..<?a + ?b]"
    by (simp only: n [symmetric])
  then show ?thesis
    using assms by (simp add: well_formed_def add_mesh_def Let_def upt_add_eq_append [of 0 ?a ?b, simplified])
qed

lemma load_models_well_formed:
  "load_models fl flip files paths m = Inr m' \<Longrightarrow> well_formed m \<Longrightarrow>
     well_formed m' \<and> length (ms_faces m) + length paths \<le> length (ms_faces m')"
proof (induction fl flip files paths m rule: load_models.induct)
  case (2 fl flip files path paths m)
  then obtain t n where n: "files path = Some t" "parse_smd fl flip t = Inr n" "ms_faces n \<noteq> []"
    and r: "load_models fl flip files paths (add_mesh m n) = Inr m'"
    by (auto simp: result_simps split: option.splits if_splits)
  from 2(1) [OF n(1,2)] n r 2(3) parse_smd_well_formed [OF n(2)] add_mesh_well_formed
  have w: "well_formed m'" "length (ms_faces (add_mesh m n)) + length paths \<le> length (ms_faces m')" by blast+
  have "Suc 0 \<le> length (ms_faces n)" using n(3) by (cases "ms_faces n") simp_all
  with w show ?case by (simp add: add_mesh_def Let_def)
qed simp

section \<open>Writing a model\<close>

definition one_word :: "string \<Rightarrow> bool" where
  "one_word w \<longleftrightarrow> w \<noteq> [] \<and> (\<forall>c \<in> set w. \<not> py_isspace c)"

lemma words_from_word_then:
  "\<forall>c \<in> set w. \<not> py_isspace c \<Longrightarrow> words_from acc (w @ s) = words_from (rev w @ acc) s"
  by (induction w arbitrary: acc) auto

lemma py_words_join: "\<forall>w \<in> set ws. one_word w \<Longrightarrow> py_words (join_with (CHR '' '') ws) = ws"
proof (induction ws)
  case Nil
  then show ?case by (simp add: py_words_def)
next
  case (Cons w ws)
  have sp: "py_isspace (CHR '' '')" by code_simp
  have w: "w \<noteq> []" "\<forall>c \<in> set w. \<not> py_isspace c" using Cons.prems by (auto simp: one_word_def)
  show ?case
  proof (cases "ws = []")
    case True
    with words_from_word_then [OF w(2), of "[]" "[]"] w(1) show ?thesis by (simp add: py_words_def)
  next
    case False
    with words_from_word_then [OF w(2), of "[]" "CHR '' '' # join_with (CHR '' '') ws"] w(1) Cons sp
    show ?thesis by (simp add: py_words_def join_with_Cons)
  qed
qed

lemma join_words_ends:
  assumes "one_word w" and "\<forall>w \<in> set ws. one_word w"
  shows "join_with (CHR '' '') (w # ws) \<noteq> [] \<and> hd (join_with (CHR '' '') (w # ws)) = hd w
    \<and> \<not> py_isspace (last (join_with (CHR '' '') (w # ws)))"
  using assms
proof (induction ws arbitrary: w)
  case Nil
  then show ?case by (auto simp: one_word_def)
next
  case (Cons v ws)
  from Cons.IH [of v] Cons.prems show ?case by (simp add: one_word_def)
qed

lemma join_words_newline: "\<forall>w \<in> set ws. one_word w \<Longrightarrow> newline \<notin> set (join_with (CHR '' '') ws)"
  by (induction "CHR '' ''" ws rule: join_with.induct) (auto simp: one_word_def)

type_synonym 'f triangle = "string \<times> 'f corner \<times> 'f corner \<times> 'f corner"

definition corner_words :: "('f \<Rightarrow> string) \<Rightarrow> 'f corner \<Rightarrow> string list" where
  "corner_words sh = (\<lambda>((x, y, z), (nx, ny, nz), u, v). ''0'' # map sh [x, y, z, nx, ny, nz, u, v])"

definition triangle_lines :: "('f \<Rightarrow> string) \<Rightarrow> 'f triangle \<Rightarrow> string list" where
  "triangle_lines sh = (\<lambda>(mat, a, b, c). mat # map (join_with (CHR '' '') \<circ> corner_words sh) [a, b, c])"

definition smd_text :: "('f \<Rightarrow> string) \<Rightarrow> 'f triangle list \<Rightarrow> string" where
  "smd_text sh ts =
     join_lines ([''version 1'', ''nodes'', ''end'', ''triangles''] @ concat (map (triangle_lines sh) ts) @ [''end''])"

definition mesh_of :: "'f triangle list \<Rightarrow> 'f mesh" where
  "mesh_of ts = foldl (\<lambda>m (mat, a, b, c). add_face [a, b, c] m) no_mesh ts"

text \<open>A name of a material that the reader takes for one.\<close>

definition material_name :: "'f floats \<Rightarrow> string \<Rightarrow> bool" where
  "material_name fl mat \<longleftrightarrow> one_word mat \<and> read_float fl mat = None \<and> py_lower mat \<notin> insert ''end'' (set SECTIONS)"

definition prints :: "'f floats \<Rightarrow> ('f \<Rightarrow> string) \<Rightarrow> bool" where
  "prints fl sh \<longleftrightarrow> (\<forall>x. one_word (sh x) \<and> read_float fl (sh x) = Some x) \<and> read_float fl ''0'' \<noteq> None"

lemma smd_lines_append:
  "smd_lines fl flip st (xs @ ys) = rbind (smd_lines fl flip st xs) (\<lambda>st. smd_lines fl flip st ys)"
  by (induction xs arbitrary: st) (simp_all add: rbind_assoc)

lemma material_line:
  assumes "material_name fl mat"
  shows "smd_line fl flip (Some ''triangles'', pending, m) mat = Inr (Some ''triangles'', [], m)"
proof -
  have w: "one_word mat" using assms by (simp add: material_name_def)
  then have "hd mat \<in> set mat" "last mat \<in> set mat" "mat \<noteq> []" by (simp_all add: one_word_def)
  with w have "py_strip mat = mat" by (intro py_strip_id) (auto simp: one_word_def)
  moreover have "py_words mat = [mat]" using py_words_join [of "[mat]"] w by simp
  ultimately show ?thesis
    using assms w by (simp add: smd_line_def material_name_def one_word_def triangle_line_def)
qed

lemma corner_words_ok:
  assumes "prints fl sh"
  shows "\<forall>w \<in> set (corner_words sh c). one_word w" "hd (corner_words sh c) = ''0''" "length (corner_words sh c) = 9"
    and "corner_of fl False (corner_words sh c) = Inr c"
proof -
  obtain x y z nx ny nz u v where c: "c = ((x, y, z), (nx, ny, nz), u, v)" by (cases c) auto
  have "one_word ''0''" by code_simp
  with assms show "\<forall>w \<in> set (corner_words sh c). one_word w" by (auto simp: c corner_words_def prints_def)
  have r: "rfloat fl (sh a) = Inr a" for a using assms by (simp add: prints_def rfloat_def)
  show "hd (corner_words sh c) = ''0''" "length (corner_words sh c) = 9"
    "corner_of fl False (corner_words sh c) = Inr c"
    by (simp_all add: c corner_words_def corner_of_def r numeral_eq_Suc)
qed

lemma corner_line:
  assumes "prints fl sh"
  shows "smd_line fl False (Some ''triangles'', pending, m) (join_with (CHR '' '') (corner_words sh c)) =
    Inr (if length pending = 2 then (Some ''triangles'', [], add_face (pending @ [c]) m)
         else (Some ''triangles'', pending @ [c], m))"
proof -
  let ?l = "join_with (CHR '' '') (corner_words sh c)"
  note w = corner_words_ok [OF assms, of c]
  obtain ws where ws: "corner_words sh c = ''0'' # ws" using w(2,3) by (cases "corner_words sh c") auto
  have e: "?l \<noteq> []" "hd ?l = CHR ''0''" "\<not> py_isspace (last ?l)"
    using join_words_ends [of "''0''" ws] w(1) unfolding ws by auto
  have sp: "\<not> py_isspace (CHR ''0'')" by code_simp
  have strip: "py_strip ?l = ?l" using e sp by (intro py_strip_id) simp_all
  have "hd (py_lower ?l) = CHR ''0''" using e(1,2) by (cases ?l) (simp_all add: py_lower_def lower_char_def)
  then have low: "py_lower ?l \<notin> insert ''end'' (set SECTIONS)" by (auto simp: SECTIONS_def)
  have words: "py_words ?l = corner_words sh c" by (rule py_words_join [OF w(1)])
  obtain y where "read_float fl ''0'' = Some y" using assms by (auto simp: prints_def)
  with strip low words e(1) w(2-4) show ?thesis
    by (simp add: smd_line_def triangle_line_def Let_def)
qed

lemma triangle_read:
  assumes "prints fl sh" and "material_name fl mat"
  shows "smd_lines fl False (Some ''triangles'', [], m) (triangle_lines sh (mat, a, b, c)) =
    Inr (Some ''triangles'', [], add_face [a, b, c] m)"
  by (simp add: triangle_lines_def material_line [OF assms(2)] corner_line [OF assms(1)])

lemma triangles_read:
  assumes "prints fl sh"
  shows "\<forall>(mat, x) \<in> set ts. material_name fl mat \<Longrightarrow>
    smd_lines fl False (Some ''triangles'', [], m) (concat (map (triangle_lines sh) ts)) =
    Inr (Some ''triangles'', [], foldl (\<lambda>m (mat, a, b, c). add_face [a, b, c] m) m ts)"
proof (induction ts arbitrary: m)
  case (Cons t ts)
  obtain mat a b c where "t = (mat, a, b, c)" by (cases t) auto
  with Cons triangle_read [OF assms] show ?case by (simp add: smd_lines_append)
qed simp

lemma lines_of_smd:
  assumes "prints fl sh" and "\<forall>(mat, x) \<in> set ts. material_name fl mat"
  shows "lines_of (smd_text sh ts) =
    [''version 1'', ''nodes'', ''end'', ''triangles''] @ concat (map (triangle_lines sh) ts) @ [''end'']"
  unfolding smd_text_def
proof (rule split_join)
  have "newline \<notin> set l" if "t \<in> set ts" "l \<in> set (triangle_lines sh t)" for t l
  proof -
    obtain mat a b c where t: "t = (mat, a, b, c)" by (cases t) auto
    then have "one_word mat" using assms(2) that(1) by (auto simp: material_name_def)
    then have "newline \<notin> set mat" by (auto simp: one_word_def)
    moreover have "newline \<notin> set (join_with (CHR '' '') (corner_words sh d))" for d
      by (rule join_words_newline [OF corner_words_ok(1) [OF assms(1)]])
    moreover have "l = mat \<or> (\<exists>d. l = join_with (CHR '' '') (corner_words sh d))"
      using that(2) unfolding t triangle_lines_def by (simp del: split_paired_Ex) blast
    ultimately show ?thesis by blast
  qed
  then show "\<forall>l \<in> set ([''version 1'', ''nodes'', ''end'', ''triangles''] @ concat (map (triangle_lines sh) ts) @ [''end'']).
      newline \<notin> set l" by auto
qed simp

lemma smd_header:
  "smd_lines fl flip (None, [], m) [''version 1'', ''nodes'', ''end'', ''triangles''] = Inr (Some ''triangles'', [], m)"
proof -
  have "py_strip ''version 1'' = ''version 1''" "py_strip ''nodes'' = ''nodes''" "py_strip ''end'' = ''end''"
    "py_strip ''triangles'' = ''triangles''" by code_simp+
  then show ?thesis by (simp add: smd_line_def SECTIONS_def py_lower_def lower_char_def Let_def)
qed

section \<open>Properties\<close>

text \<open>
  A configuration cannot change what a setting is: every setting is still
  there with the type of its default, a text setting has the value of the last
  line that names it, and the models are all the models that are named, in order.
\<close>

lemma settings_keep_their_types:
  assumes "parse_config fl lit (Some t) = Inr (cfg, models)"
  shows "kinds cfg = kinds (DEFAULTS lit) \<and> models = said ''model'' (lines_of t)
    \<and> (\<forall>k d. map_of (DEFAULTS lit) k = Some (StrSetting d) \<longrightarrow> k \<noteq> ''model'' \<longrightarrow>
         map_of cfg k = Some (StrSetting (last (d # said k (lines_of t)))))"
  using assms config_lines_kinds [of fl "DEFAULTS lit" "[]" _ cfg models]
    config_lines_models [of fl "DEFAULTS lit" "[]" _ cfg models] config_lines_text [of fl "DEFAULTS lit" "[]" _ cfg models]
  by (simp add: parse_config_def)

definition int_floats :: "int floats" where
  "int_floats = \<lparr>read_float = py_int, int_of_float = Some, one_minus = \<lambda>x. 1 - x\<rparr>"

definition sample_config :: string where
  "sample_config = ''model a.smd // body'' @ [newline, dquote] @ ''ORM'' @ [dquote, tab, dquote] @ ''x.png'' @ [dquote, newline]
     @ ''width 256'' @ [newline] @ ''model b.smd'' @ [newline] @ ''unknown 7'' @ [newline] @ ''orm y.png''"

lemma sample_config_read:
  "\<exists>cfg. parse_config int_floats (\<lambda>_. 1) (Some sample_config) = Inr (cfg, [''a.smd'', ''b.smd''])
     \<and> map_of cfg ''width'' = Some (IntSetting 256)"
  by (rule exI [of _ "AList.update ''orm'' (StrSetting ''y.png'') (AList.update ''width'' (IntSetting 256)
        (AList.update ''orm'' (StrSetting ''x.png'') (DEFAULTS (\<lambda>_. 1))))"]) code_simp


definition nat_floats :: "nat floats" where
  "nat_floats = \<lparr>read_float = (\<lambda>s. map_option nat (py_int s)), int_of_float = Some \<circ> int, one_minus = \<lambda>x. 1 - x\<rparr>"

lemma digit_not_space: "ascii_digit c \<Longrightarrow> \<not> py_isspace c"
proof -
  assume "ascii_digit c"
  moreover have "(of_char c :: int) = int (of_char c)" by (simp add: of_nat_of_char)
  ultimately have "48 \<le> (of_char c :: nat)" "(of_char c :: nat) \<le> 57"
    unfolding ascii_digit_def digit_value_def by linarith+
  then show ?thesis by (simp add: py_isspace_def Let_def)
qed

lemma nats_print: "prints nat_floats (\<lambda>n. int_str (int n))"
proof -
  have "one_word (int_str (int n))" for n
    using digits_ok [of "int n"] digit_not_space by (auto simp: one_word_def int_str_def)
  moreover have "py_int (int_str (int n)) = Some (int n)" for n by (rule py_int_str) simp
  moreover have "py_int ''0'' \<noteq> None" by code_simp
  ultimately show ?thesis by (simp add: prints_def nat_floats_def)
qed

definition sample_triangle :: "nat triangle" where
  "sample_triangle = (''skin'', ((1, 2, 3), (0, 0, 1), 5, 6), ((4, 2, 3), (0, 0, 1), 7, 6), ((1, 9, 3), (0, 0, 1), 5, 8))"


text \<open>
  The mesh that is handed to Blender is sound, however many models it
  combines: there is a triangle for each model at least, the corners of triangle
  \<open>i\<close> are the vertices \<open>3i\<close> to \<open>3i + 2\<close>, and each vertex has a normal and texture
  coordinates.
\<close>

lemma scene_mesh_is_well_formed:
  assumes "scene_inputs fl lit files argv = Inr (m, cfg, paths, out)"
  shows "well_formed m \<and> ms_faces m \<noteq> []"
proof -
  obtain cfg' flip ps where l: "load_models fl flip files ps no_mesh = Inr m" and "ps \<noteq> []"
    using assms by (auto simp: scene_inputs_def Let_def result_simps split: if_splits option.splits)
  from load_models_well_formed [OF l no_mesh_well_formed] \<open>ps \<noteq> []\<close> show ?thesis by auto
qed

definition model_files :: "string \<Rightarrow> string option" where
  "model_files p = (if p = ''a.smd'' \<or> p = ''./b.smd''
     then Some (''triangles'' @ [newline] @ ''skin'' @ [newline] @ ''0 1 2 3 0 0 1 5 6'' @ [newline] @ ''0 4 2 3 0 0 1 7 6''
       @ [newline] @ ''0 1 9 3 0 0 1 5 8'' @ [newline] @ ''end'') else None)"

lemma sample_scene:
  "scene_inputs int_floats (\<lambda>_. 1) model_files [''--smd'', ''a.smd'', ''--out'', ''i.png''] =
     Inr (\<lparr>ms_verts = [(1, 2, 3), (4, 2, 3), (1, 9, 3)], ms_faces = [(0, 1, 2)], ms_uvs = [(5, 6), (7, 6), (5, 8)],
            ms_normals = [(0, 0, 1), (0, 0, 1), (0, 0, 1)]\<rparr>, DEFAULTS (\<lambda>_. 1),
          [(''texture_path'', []), (''normal_path'', []), (''orm_path'', []), (''envmap_path'', [])], ''i.png'')"
  by code_simp

end
