(* ===== verification/RenderScene.thy ===== *)
theory RenderScene
  imports Complex_Main RenderIcon
begin

text \<open>
  The scene \<open>fastdl/tools/render_icon.py\<close> builds: the mesh with its material, the
  camera that is fitted to it, the lights and the world, and the settings of the
  render.  Blender is an input: its vectors (\<open>mathutils\<close>), the loops of a mesh, the
  bounding box of an object, which pictures it can load, and whether it has the
  node the code prefers.  The scene is what the code asks for; what Blender draws
  of it is outside the model.  The definitions are for any type of numbers; the
  geometry is proved for the real ones, so rounding is not in it.
\<close>

section \<open>What the code is given\<close>

text \<open>Python's numbers: literals, conversions and \<open>math\<close>.\<close>

record 'f maths =
  mt_lit :: "string \<Rightarrow> 'f"
  mt_of_int :: "int \<Rightarrow> 'f"
  mt_sin :: "'f \<Rightarrow> 'f"
  mt_cos :: "'f \<Rightarrow> 'f"
  mt_tan :: "'f \<Rightarrow> 'f"
  mt_atan :: "'f \<Rightarrow> 'f"
  mt_radians :: "'f \<Rightarrow> 'f"

text \<open>\<open>mathutils.Vector\<close>\<close>

record 'f vectors =
  vx_add :: "'f vec \<Rightarrow> 'f vec \<Rightarrow> 'f vec"
  vx_sub :: "'f vec \<Rightarrow> 'f vec \<Rightarrow> 'f vec"
  vx_neg :: "'f vec \<Rightarrow> 'f vec"
  vx_scale :: "'f vec \<Rightarrow> 'f \<Rightarrow> 'f vec"
  vx_div :: "'f vec \<Rightarrow> 'f \<Rightarrow> 'f vec"
  vx_dot :: "'f vec \<Rightarrow> 'f vec \<Rightarrow> 'f"
  vx_cross :: "'f vec \<Rightarrow> 'f vec \<Rightarrow> 'f vec"
  vx_length :: "'f vec \<Rightarrow> 'f"
  vx_normalized :: "'f vec \<Rightarrow> 'f vec"

text \<open>
  The rest: the vertex of every loop of a mesh, the corners of an object's box in
  the world, whether a path is a file and a picture, and whether the node
  \<open>SeparateColor\<close> is known.
\<close>

record 'f blender =
  bl_loops :: "(nat \<times> nat \<times> nat) list \<Rightarrow> nat list"
  bl_bound_box :: "'f vec list \<Rightarrow> 'f vec list"
  bl_exists :: "string \<Rightarrow> bool"
  bl_picture :: "string \<Rightarrow> bool"
  bl_separate_color :: bool

text \<open>A division by zero raises.\<close>

definition fdiv :: "'f::{zero, inverse} \<Rightarrow> 'f \<Rightarrow> render_error + 'f" where
  "fdiv a b = (if b = 0 then Inl DivByZero else Inr (a / b))"

definition float_setting :: "'f maths \<Rightarrow> (string \<times> 'f setting) list \<Rightarrow> string \<Rightarrow> 'f" where
  "float_setting mt cfg k = (case map_of cfg k of Some (FloatSetting x) \<Rightarrow> x | _ \<Rightarrow> mt_lit mt ''0.0'')"

section \<open>The material\<close>

text \<open>
  A node tree: the nodes in the order they are made, and the links between their
  sockets, the input first.  A picture is loaded as colour or as plain values.
\<close>

datatype 'f shader =
    Principled (sh_metallic: 'f) (sh_roughness: 'f)
  | TexImage (sh_path: string) (sh_non_color: bool)
  | NormalMap
  | SeparateColor
  | SeparateRGB
  | InvertNode
  | MultiplyBy 'f
  | Background "('f \<times> 'f \<times> 'f \<times> 'f) option" 'f
  | TexEnvironment string
  | Mapping 'f
  | TexCoord

type_synonym socket = "nat \<times> string"

record 'f graph =
  gr_nodes :: "'f shader list"
  gr_links :: "(socket \<times> socket) list"

definition add_node :: "'f shader \<Rightarrow> 'f graph \<Rightarrow> nat \<times> 'f graph" where
  "add_node n g = (length (gr_nodes g), g\<lparr>gr_nodes := gr_nodes g @ [n]\<rparr>)"

definition add_link :: "socket \<Rightarrow> socket \<Rightarrow> 'f graph \<Rightarrow> 'f graph" where
  "add_link i out g = g\<lparr>gr_links := gr_links g @ [(i, out)]\<rparr>"

definition image_node :: "'f blender \<Rightarrow> string \<Rightarrow> bool \<Rightarrow> 'f graph \<Rightarrow> render_error + nat \<times> 'f graph" where
  "image_node bl path non_color g =
     (if bl_picture bl path then Inr (add_node (TexImage path non_color) g) else Inl (BadImage path))"

definition usable :: "'f blender \<Rightarrow> (string \<times> string) list \<Rightarrow> string \<Rightarrow> string option" where
  "usable bl paths key =
     (let p = opt_or paths key [] in if p \<noteq> [] \<and> bl_exists bl p then Some p else None)"

definition upper_char :: "char \<Rightarrow> char" where
  "upper_char c = (let n = of_char c :: nat in if 97 \<le> n \<and> n \<le> 122 then char_of (n - 32) else c)"

definition base_color :: "'f blender \<Rightarrow> (string \<times> string) list \<Rightarrow> 'f graph \<Rightarrow> render_error + 'f graph" where
  "base_color bl paths g =
     (case usable bl paths ''texture_path'' of
        None \<Rightarrow> Inr g
      | Some p \<Rightarrow> rbind (image_node bl p False g) (\<lambda>(tex, g). Inr (add_link (0, ''Base Color'') (tex, ''Color'') g)))"

definition normal_map :: "'f blender \<Rightarrow> (string \<times> string) list \<Rightarrow> 'f graph \<Rightarrow> render_error + 'f graph" where
  "normal_map bl paths g =
     (case usable bl paths ''normal_path'' of
        None \<Rightarrow> Inr g
      | Some p \<Rightarrow>
          (let (nm, g) = add_node NormalMap g
           in rbind (image_node bl p True g) (\<lambda>(tex, g).
             Inr (add_link (0, ''Normal'') (nm, ''Normal'') (add_link (nm, ''Color'') (tex, ''Color'') g)))))"

text \<open>The node that takes channels apart, its input and its outputs: two versions of Blender.\<close>

definition separator :: "'f blender \<Rightarrow> 'f shader \<times> string \<times> (string \<times> string) list" where
  "separator bl =
     (if bl_separate_color bl
      then (SeparateColor, ''Color'', [(''R'', ''Red''), (''G'', ''Green''), (''B'', ''Blue'')])
      else (SeparateRGB, ''Image'', [(''R'', ''R''), (''G'', ''G''), (''B'', ''B'')]))"

definition rough_channel :: "(string \<times> string) list \<Rightarrow> (string \<times> 'f setting) list \<Rightarrow> string" where
  "rough_channel outs cfg =
     (case map_of outs (map upper_char (text_setting cfg ''rough_channel'')) of
        None \<Rightarrow> the (map_of outs ''G'')
      | Some out \<Rightarrow> out)"

definition orm_map ::
  "'f maths \<Rightarrow> 'f blender \<Rightarrow> (string \<times> 'f setting) list \<Rightarrow> (string \<times> string) list \<Rightarrow> 'f graph \<Rightarrow> render_error + 'f graph" where
  "orm_map mt bl cfg paths g =
     (case usable bl paths ''orm_path'' of
        None \<Rightarrow> Inr g
      | Some p \<Rightarrow>
          rbind (image_node bl p True g) (\<lambda>(tex, g).
            let (node, sep_in, outs) = separator bl;
                (sep, g) = add_node node g;
                g = add_link (sep, sep_in) (tex, ''Color'') g;
                rough = (sep, rough_channel outs cfg);
                (rough, g) =
                  (if int_setting cfg ''invert_rough'' \<noteq> 0
                   then let (inv, g) = add_node InvertNode g in ((inv, ''Color''), add_link (inv, ''Color'') rough g)
                   else (rough, g));
                (mul, g) = add_node (MultiplyBy (float_setting mt cfg ''roughness_multiplier'')) g;
                g = add_link (mul, ''0'') rough g;
                g = add_link (0, ''Roughness'') (mul, ''Value'') g
            in Inr (case map_of outs (map upper_char (text_setting cfg ''metal_channel'')) of
                      None \<Rightarrow> g
                    | Some out \<Rightarrow> add_link (0, ''Metallic'') (sep, out) g)))"

definition build_material ::
  "'f maths \<Rightarrow> 'f blender \<Rightarrow> (string \<times> 'f setting) list \<Rightarrow> (string \<times> string) list \<Rightarrow> render_error + 'f graph" where
  "build_material mt bl cfg paths =
     rbind (base_color bl paths \<lparr>gr_nodes = [Principled (float_setting mt cfg ''metallic'') (float_setting mt cfg ''roughness'')],
                                 gr_links = []\<rparr>) (\<lambda>g.
     rbind (normal_map bl paths g) (\<lambda>g. orm_map mt bl cfg paths g))"

section \<open>The object\<close>

record 'f object =
  ob_mesh :: "'f mesh"
  ob_uvs :: "('f \<times> 'f) list"
  ob_auto_smooth :: bool
  ob_normals :: "'f vec list"
  ob_material :: "'f graph"

text \<open>Texture coordinates and normals are those of the vertex of every loop.\<close>

definition build_object ::
  "'f maths \<Rightarrow> 'f blender \<Rightarrow> 'f mesh \<Rightarrow> (string \<times> 'f setting) list \<Rightarrow> (string \<times> string) list \<Rightarrow> render_error + 'f object" where
  "build_object mt bl m cfg paths =
     rbind (build_material mt bl cfg paths) (\<lambda>mat.
       Inr \<lparr>ob_mesh = m,
            ob_uvs = map (\<lambda>i. ms_uvs m ! i) (bl_loops bl (ms_faces m)),
            ob_auto_smooth = True,
            ob_normals = map (\<lambda>i. ms_normals m ! i) (bl_loops bl (ms_faces m)),
            ob_material = mat\<rparr>)"

section \<open>The camera\<close>

definition py_min :: "'f::ord list \<Rightarrow> 'f" where "py_min xs = foldl min (hd xs) (tl xs)"
definition py_max :: "'f::ord list \<Rightarrow> 'f" where "py_max xs = foldl max (hd xs) (tl xs)"

definition vec_x :: "'f vec \<Rightarrow> 'f" where "vec_x v = fst v"
definition vec_y :: "'f vec \<Rightarrow> 'f" where "vec_y v = fst (snd v)"
definition vec_z :: "'f vec \<Rightarrow> 'f" where "vec_z v = snd (snd v)"

definition box_low :: "'f::ord vec list \<Rightarrow> 'f vec" where
  "box_low bbox = (py_min (map vec_x bbox), py_min (map vec_y bbox), py_min (map vec_z bbox))"

definition box_high :: "'f::ord vec list \<Rightarrow> 'f vec" where
  "box_high bbox = (py_max (map vec_x bbox), py_max (map vec_y bbox), py_max (map vec_z bbox))"

definition box_center :: "'f::ord maths \<Rightarrow> 'f vectors \<Rightarrow> 'f vec list \<Rightarrow> 'f vec" where
  "box_center mt vx bbox = vx_div vx (vx_add vx (box_low bbox) (box_high bbox)) (mt_lit mt ''2.0'')"

definition box_radius :: "'f::{ord, inverse} maths \<Rightarrow> 'f vectors \<Rightarrow> 'f vec list \<Rightarrow> 'f" where
  "box_radius mt vx bbox =
     max (vx_length vx (vx_sub vx (box_high bbox) (box_low bbox)) / mt_lit mt ''2.0'') (mt_lit mt ''1e-6'')"

text \<open>Towards the camera, to its right and up.\<close>

definition camera_axes ::
  "'f::{ord, zero, one, times, uminus} maths \<Rightarrow> 'f vectors \<Rightarrow> 'f \<Rightarrow> 'f \<Rightarrow> 'f vec \<times> 'f vec \<times> 'f vec" where
  "camera_axes mt vx yaw pitch =
     (let back = vx_normalized vx
            (mt_cos mt pitch * mt_sin mt yaw, - mt_cos mt pitch * mt_cos mt yaw, mt_sin mt pitch);
          right = vx_cross vx back (0, 0, 1);
          right = (if vx_length vx right < mt_lit mt ''1e-6'' then (1, 0, 0) else right);
          right = vx_normalized vx right;
          up = vx_normalized vx (vx_cross vx right back)
      in (back, right, up))"

text \<open>Half the extent of the box along an axis.\<close>

definition half_extent :: "'f::{ord, abs} vectors \<Rightarrow> 'f vec list \<Rightarrow> 'f vec \<Rightarrow> 'f vec \<Rightarrow> 'f" where
  "half_extent vx bbox center axis = py_max (map (\<lambda>v. \<bar>vx_dot vx (vx_sub vx v center) axis\<bar>) bbox)"

datatype 'f lens = Ortho 'f | Persp 'f

text \<open>
  The lens is a scale or an angle along the axis \<open>cam_sensor_fit\<close>; the rotation is
  what tracks \<open>cam_aim\<close> (\<open>-Z\<close>, with \<open>Y\<close> up), then turns by \<open>cam_roll\<close>.
\<close>

record 'f camera =
  cam_sensor_fit :: string
  cam_lens :: "'f lens"
  cam_location :: "'f vec"
  cam_aim :: "'f vec"
  cam_roll :: 'f

definition view_aspect :: "'f::{ord, inverse} maths \<Rightarrow> (string \<times> 'f setting) list \<Rightarrow> 'f" where
  "view_aspect mt cfg =
     mt_of_int mt (int_setting cfg ''width'') / max (mt_lit mt ''1.0'') (mt_of_int mt (int_setting cfg ''height''))"

text \<open>The lens and the distance that fit the half extents.\<close>

definition fit_lens ::
  "'f::{ord, zero, inverse, times} maths \<Rightarrow> (string \<times> 'f setting) list \<Rightarrow> 'f \<Rightarrow> 'f \<Rightarrow> 'f \<Rightarrow> render_error + 'f lens \<times> 'f" where
  "fit_lens mt cfg radius half_w half_h =
     (let aspect = view_aspect mt cfg; margin = float_setting mt cfg ''margin''
      in if map upper_char (text_setting cfg ''projection'') = ''ORTHO''
         then rbind (fdiv half_w aspect) (\<lambda>w.
                Inr (Ortho (mt_lit mt ''2.0'' * max half_h w * margin), radius * mt_lit mt ''4.0''))
         else let v_half = mt_radians mt (float_setting mt cfg ''fov'') / mt_lit mt ''2.0'';
                  h_half = mt_atan mt (mt_tan mt v_half * aspect)
              in rbind (fdiv half_h (mt_tan mt v_half)) (\<lambda>dh.
                 rbind (fdiv half_w (mt_tan mt h_half)) (\<lambda>dw.
                   Inr (Persp (mt_lit mt ''2.0'' * v_half), max dh dw * margin))))"

definition frame_camera ::
  "'f::{ord, zero, one, inverse, times, uminus, abs} maths \<Rightarrow> 'f vectors \<Rightarrow> (string \<times> 'f setting) list \<Rightarrow> 'f vec list
     \<Rightarrow> render_error + 'f camera \<times> 'f vec \<times> 'f" where
  "frame_camera mt vx cfg bbox =
     (let center = box_center mt vx bbox; radius = box_radius mt vx bbox;
          (back, right, up) = camera_axes mt vx (mt_radians mt (float_setting mt cfg ''yaw''))
                                (mt_radians mt (float_setting mt cfg ''pitch''));
          half_w = half_extent vx bbox center right; half_h = half_extent vx bbox center up
      in rbind (fit_lens mt cfg radius half_w half_h) (\<lambda>(lens, dist).
           Inr (\<lparr>cam_sensor_fit = ''VERTICAL'', cam_lens = lens, cam_location = vx_add vx center (vx_scale vx back dist),
                  cam_aim = vx_neg vx back, cam_roll = mt_radians mt (float_setting mt cfg ''roll'')\<rparr>, center, radius)))"

section \<open>The lights and the world\<close>

record 'f light =
  li_name :: string
  li_energy :: 'f
  li_size :: 'f
  li_location :: "'f vec"
  li_aim :: "'f vec"

definition area_light :: "'f vectors \<Rightarrow> 'f vec \<Rightarrow> string \<Rightarrow> 'f vec \<Rightarrow> 'f \<Rightarrow> 'f \<Rightarrow> 'f light" where
  "area_light vx center name loc energy width =
     (let location = vx_add vx center loc
      in \<lparr>li_name = name, li_energy = energy, li_size = width, li_location = location,
          li_aim = vx_normalized vx (vx_sub vx center location)\<rparr>)"

definition area_lights ::
  "'f::{times, uminus} maths \<Rightarrow> 'f vectors \<Rightarrow> (string \<times> 'f setting) list \<Rightarrow> 'f vec \<Rightarrow> 'f \<Rightarrow> 'f light list" where
  "area_lights mt vx cfg center radius =
     (let r = radius * mt_lit mt ''4.0''
      in [area_light vx center ''key'' (r * mt_lit mt ''0.6'', - r, r * mt_lit mt ''0.8'')
            (float_setting mt cfg ''key_energy'') (radius * mt_of_int mt 3),
          area_light vx center ''fill'' (- r * mt_lit mt ''0.8'', - r * mt_lit mt ''0.5'', r * mt_lit mt ''0.2'')
            (float_setting mt cfg ''fill_energy'') (radius * mt_of_int mt 4)])"

definition build_world ::
  "'f::one maths \<Rightarrow> 'f blender \<Rightarrow> (string \<times> 'f setting) list \<Rightarrow> (string \<times> string) list \<Rightarrow> render_error + 'f graph" where
  "build_world mt bl cfg paths =
     (case usable bl paths ''envmap_path'' of
        Some p \<Rightarrow>
          (let g = \<lparr>gr_nodes = [Background None (float_setting mt cfg ''envmap_strength'')], gr_links = []\<rparr>;
               (env, g) = add_node (TexEnvironment p) g;
               (mapping, g) = add_node (Mapping (mt_radians mt (float_setting mt cfg ''envmap_rotation''))) g;
               (coord, g) = add_node TexCoord g
           in if \<not> bl_picture bl p then Inl (BadImage p)
              else Inr (add_link (0, ''Color'') (env, ''Color'')
                     (add_link (env, ''Vector'') (mapping, ''Vector'')
                     (add_link (mapping, ''Vector'') (coord, ''Generated'') g))))
      | None \<Rightarrow>
          Inr \<lparr>gr_nodes = [Background (Some (1, 1, 1, 1)) (float_setting mt cfg ''world_strength'')], gr_links = []\<rparr>)"

section \<open>The command\<close>

record render_settings =
  rs_engine :: string
  rs_device :: string
  rs_samples :: int
  rs_denoising :: bool
  rs_transparent :: bool
  rs_resolution :: "int \<times> int"
  rs_percentage :: int
  rs_format :: string
  rs_color_mode :: string
  rs_path :: string

definition settings_of :: "(string \<times> 'f setting) list \<Rightarrow> string \<Rightarrow> render_settings" where
  "settings_of cfg out =
     \<lparr>rs_engine = ''CYCLES'', rs_device = ''CPU'', rs_samples = int_setting cfg ''samples'', rs_denoising = False,
      rs_transparent = True, rs_resolution = (int_setting cfg ''width'', int_setting cfg ''height''),
      rs_percentage = 100, rs_format = ''PNG'', rs_color_mode = ''RGBA'', rs_path = out\<rparr>"

record 'f scene =
  sc_object :: "'f object"
  sc_camera :: "'f camera"
  sc_lights :: "'f light list"
  sc_world :: "'f graph"
  sc_render :: render_settings

definition build_scene ::
  "'f::{ord, zero, one, inverse, times, uminus, abs} maths \<Rightarrow> 'f vectors \<Rightarrow> 'f blender
     \<Rightarrow> 'f mesh \<times> (string \<times> 'f setting) list \<times> (string \<times> string) list \<times> string \<Rightarrow> render_error + 'f scene" where
  "build_scene mt vx bl = (\<lambda>(m, cfg, paths, out).
     rbind (build_object mt bl m cfg paths) (\<lambda>obj.
     rbind (frame_camera mt vx cfg (bl_bound_box bl (ms_verts m))) (\<lambda>(cam, center, radius).
     rbind (build_world mt bl cfg paths) (\<lambda>world.
       Inr \<lparr>sc_object = obj, sc_camera = cam, sc_lights = area_lights mt vx cfg center radius, sc_world = world,
            sc_render = settings_of cfg out\<rparr>))))"

text \<open>The scene that is rendered to \<open>--out\<close>, or what ends the run before.\<close>

definition render_main ::
  "'f::{ord, zero, one, inverse, times, uminus, abs} floats \<Rightarrow> 'f maths \<Rightarrow> 'f vectors \<Rightarrow> 'f blender
     \<Rightarrow> (string \<Rightarrow> string option) \<Rightarrow> string list \<Rightarrow> render_error + 'f scene" where
  "render_main fl mt vx bl files argv =
     rbind (scene_inputs fl (mt_lit mt) files argv) (build_scene mt vx bl)"

section \<open>What the material looks at\<close>

text \<open>
  The meaning of an input of a node: nothing linked to it, a picture as colour or as
  values, or something made of these.  \<open>trace\<close> follows the links back from an input;
  the latest link to an input is the one that holds.
\<close>

datatype 'f shade =
    Constant
  | Picture string bool
  | Decoded "'f shade"
  | Part string "'f shade"
  | Inverted "'f shade"
  | Scaled 'f "'f shade"

definition full_channel :: "string \<Rightarrow> string" where
  "full_channel out = the (map_of [(''R'', ''Red''), (''G'', ''Green''), (''B'', ''Blue'')] out)"

fun trace :: "nat \<Rightarrow> 'f graph \<Rightarrow> socket \<Rightarrow> 'f shade" where
  "trace 0 g i = Constant"
| "trace (Suc k) g i =
     (case map_of (rev (gr_links g)) i of
        None \<Rightarrow> Constant
      | Some (n, out) \<Rightarrow>
          (case gr_nodes g ! n of
             TexImage p non_color \<Rightarrow> Picture p non_color
           | NormalMap \<Rightarrow> Decoded (trace k g (n, ''Color''))
           | SeparateColor \<Rightarrow> Part out (trace k g (n, ''Color''))
           | SeparateRGB \<Rightarrow> Part (full_channel out) (trace k g (n, ''Image''))
           | InvertNode \<Rightarrow> Inverted (trace k g (n, ''Color''))
           | MultiplyBy x \<Rightarrow> Scaled x (trace k g (n, ''0''))
           | _ \<Rightarrow> Constant))"

text \<open>What the settings ask for.\<close>

definition channel_of :: "(string \<times> 'f setting) list \<Rightarrow> string \<Rightarrow> string option" where
  "channel_of cfg key =
     map_of [(''R'', ''Red''), (''G'', ''Green''), (''B'', ''Blue'')] (map upper_char (text_setting cfg key))"

definition shown :: "'f blender \<Rightarrow> (string \<times> string) list \<Rightarrow> string \<Rightarrow> bool \<Rightarrow> ('f shade \<Rightarrow> 'f shade) \<Rightarrow> 'f shade" where
  "shown bl paths key non_color f =
     (case usable bl paths key of None \<Rightarrow> Constant | Some p \<Rightarrow> f (Picture p non_color))"

definition asked_roughness ::
  "'f maths \<Rightarrow> 'f blender \<Rightarrow> (string \<times> 'f setting) list \<Rightarrow> (string \<times> string) list \<Rightarrow> 'f shade" where
  "asked_roughness mt bl cfg paths =
     shown bl paths ''orm_path'' True (\<lambda>x.
       let ch = Part (case channel_of cfg ''rough_channel'' of None \<Rightarrow> ''Green'' | Some c \<Rightarrow> c) x
       in Scaled (float_setting mt cfg ''roughness_multiplier'')
            (if int_setting cfg ''invert_rough'' \<noteq> 0 then Inverted ch else ch))"

definition asked_metallic :: "'f blender \<Rightarrow> (string \<times> 'f setting) list \<Rightarrow> (string \<times> string) list \<Rightarrow> 'f shade" where
  "asked_metallic bl cfg paths =
     shown bl paths ''orm_path'' True (\<lambda>x.
       case channel_of cfg ''metal_channel'' of None \<Rightarrow> Constant | Some c \<Rightarrow> Part c x)"

definition sound_graph :: "'f graph \<Rightarrow> bool" where
  "sound_graph g \<longleftrightarrow> distinct (map fst (gr_links g))
     \<and> (\<forall>((n, i), (m, out)) \<in> set (gr_links g). n < length (gr_nodes g) \<and> m < length (gr_nodes g))"

lemmas graph_simps = add_node_def add_link_def image_node_def

lemma base_colorE:
  assumes "base_color bl paths \<lparr>gr_nodes = [P], gr_links = []\<rparr> = Inr g"
  obtains "usable bl paths ''texture_path'' = None" "g = \<lparr>gr_nodes = [P], gr_links = []\<rparr>"
  | p where "usable bl paths ''texture_path'' = Some p"
      "g = \<lparr>gr_nodes = [P, TexImage p False], gr_links = [((0, ''Base Color''), (1, ''Color''))]\<rparr>"
  using assms by (auto simp: base_color_def graph_simps result_simps split: option.splits if_splits)

lemma normal_mapE:
  assumes "normal_map bl paths g = Inr g'"
  obtains "usable bl paths ''normal_path'' = None" "g' = g"
  | p n where "usable bl paths ''normal_path'' = Some p" "n = length (gr_nodes g)"
      "g' = \<lparr>gr_nodes = gr_nodes g @ [NormalMap, TexImage p True],
             gr_links = gr_links g @ [((n, ''Color''), (Suc n, ''Color'')), ((0, ''Normal''), (n, ''Normal''))]\<rparr>"
  using assms by (cases g) (auto simp: normal_map_def graph_simps result_simps split: option.splits if_splits)

lemma orm_mapE:
  assumes "orm_map mt bl cfg paths g = Inr g'"
  obtains "usable bl paths ''orm_path'' = None" "g' = g"
  | p n where "usable bl paths ''orm_path'' = Some p" "n = length (gr_nodes g)"
      "\<exists>node sep_in outs mid rough mids mul. separator bl = (node, sep_in, outs)
        \<and> (mid, mids, rough, mul) = (if int_setting cfg ''invert_rough'' \<noteq> 0
             then ([InvertNode], [((n + 2, ''Color''), (n + 1, rough_channel outs cfg))], (n + 2, ''Color''), n + 3)
             else ([], [], (n + 1, rough_channel outs cfg), n + 2))
        \<and> g' = \<lparr>gr_nodes = gr_nodes g @ [TexImage p True, node] @ mid
                  @ [MultiplyBy (float_setting mt cfg ''roughness_multiplier'')],
             gr_links = gr_links g @ [((n + 1, sep_in), (n, ''Color''))] @ mids
               @ [((mul, ''0''), rough), ((0, ''Roughness''), (mul, ''Value''))]
               @ (case map_of outs (map upper_char (text_setting cfg ''metal_channel'')) of
                    None \<Rightarrow> [] | Some out \<Rightarrow> [((0, ''Metallic''), (n + 1, out))])\<rparr>"
  using assms
  by (cases g; cases "separator bl")
     (auto simp: orm_map_def graph_simps result_simps Let_def split: option.splits if_splits)

text \<open>The two versions of the separator give the same channels.\<close>

definition part_of :: "'f shader \<Rightarrow> string \<Rightarrow> string" where
  "part_of node out = (if node = SeparateRGB then full_channel out else out)"

lemma full_channels: "full_channel ''R'' = ''Red''" "full_channel ''G'' = ''Green''" "full_channel ''B'' = ''Blue''"
  by code_simp+

lemma separatorE:
  assumes "separator bl = (node, sep_in, outs)"
  obtains (recent) "node = SeparateColor" "sep_in = ''Color''" "outs = [(''R'', ''Red''), (''G'', ''Green''), (''B'', ''Blue'')]"
  | (older) "node = SeparateRGB" "sep_in = ''Image''" "outs = [(''R'', ''R''), (''G'', ''G''), (''B'', ''B'')]"
  using assms by (cases "bl_separate_color bl") (simp_all add: separator_def)

lemma separator_outs:
  assumes "separator bl = (node, sep_in, outs)"
  shows "map_option (part_of node) (map_of outs k) = map_of [(''R'', ''Red''), (''G'', ''Green''), (''B'', ''Blue'')] k"
  using assms
proof (cases rule: separatorE)
  case recent
  then have "part_of node = id" by (simp add: part_of_def fun_eq_iff)
  with recent show ?thesis by (simp add: option.map_id)
next
  case older
  then have "part_of node = full_channel" by (simp add: part_of_def fun_eq_iff)
  with older show ?thesis by (simp add: full_channels)
qed
lemma separator_part:
  assumes "separator bl = (node, sep_in, outs)"
  shows "channel_of cfg key = map_option (part_of node) (map_of outs (map upper_char (text_setting cfg key)))"
    and "part_of node (rough_channel outs cfg) = (case channel_of cfg ''rough_channel'' of None \<Rightarrow> ''Green'' | Some c \<Rightarrow> c)"
proof -
  note o = separator_outs [OF assms]
  show "channel_of cfg key = map_option (part_of node) (map_of outs (map upper_char (text_setting cfg key)))" for key
    by (simp only: o channel_of_def)
  have "map_option (part_of node) (map_of outs ''G'') = Some ''Green''" unfolding o by simp
  then have "part_of node (the (map_of outs ''G'')) = ''Green''" by (cases "map_of outs ''G''") simp_all
  then show "part_of node (rough_channel outs cfg) = (case channel_of cfg ''rough_channel'' of None \<Rightarrow> ''Green'' | Some c \<Rightarrow> c)"
    unfolding rough_channel_def channel_of_def o [symmetric] by (simp split: option.split)
qed

lemma material_traced:
  assumes "build_material mt bl cfg paths = Inr g"
  shows "sound_graph g
    \<and> trace (length (gr_nodes g)) g (0, ''Base Color'') = shown bl paths ''texture_path'' False id
    \<and> trace (length (gr_nodes g)) g (0, ''Normal'') = shown bl paths ''normal_path'' True Decoded
    \<and> trace (length (gr_nodes g)) g (0, ''Roughness'') = asked_roughness mt bl cfg paths
    \<and> trace (length (gr_nodes g)) g (0, ''Metallic'') = asked_metallic bl cfg paths"
proof -
  let ?P = "Principled (float_setting mt cfg ''metallic'') (float_setting mt cfg ''roughness'')"
  obtain g1 g2 where b: "base_color bl paths \<lparr>gr_nodes = [?P], gr_links = []\<rparr> = Inr g1"
    and n: "normal_map bl paths g1 = Inr g2" and r: "orm_map mt bl cfg paths g2 = Inr g"
    using assms by (auto simp: build_material_def result_simps)
  obtain node sep_in outs where s: "separator bl = (node, sep_in, outs)" by (cases "separator bl")
  note parts = separator_part(1) [OF s, of cfg "''metal_channel''"] separator_part(2) [OF s, of cfg, symmetric]
  note defs = sound_graph_def shown_def asked_roughness_def asked_metallic_def numeral_eq_Suc s parts part_of_def
  have node: "node = SeparateColor \<and> sep_in = ''Color'' \<or> node = SeparateRGB \<and> sep_in = ''Image''"
    using s by (auto elim: separatorE)
  show ?thesis
  proof (rule base_colorE [OF b]; rule normal_mapE [OF n]; rule orm_mapE [OF r]; use node in \<open>elim disjE conjE\<close>; 
    cases "int_setting cfg ''invert_rough'' = 0"; cases "map_of outs (map upper_char (text_setting cfg ''metal_channel''))")
  qed (simp_all add: defs)
qed

section \<open>Properties\<close>

text \<open>
  C38.  The node tree is the material the settings ask for: following the links back
  from the shader, its colour is the texture decoded as colour, its normal is the
  normal map, its roughness the chosen channel of the ORM map, inverted if so
  set, times the multiplier, and its metalness the chosen channel if there is
  one; what has no file is left to its constant.  Normals and the ORM map are read
  as plain values, a version of Blender without \<open>SeparateColor\<close> gets the same
  material, and every link joins two nodes that exist, no input being linked
  twice.
\<close>

theorem material_is_what_was_asked:
  assumes "build_material mt bl cfg paths = Inr g"
  shows "sound_graph g
    \<and> trace (length (gr_nodes g)) g (0, ''Base Color'') = shown bl paths ''texture_path'' False id
    \<and> trace (length (gr_nodes g)) g (0, ''Normal'') = shown bl paths ''normal_path'' True Decoded
    \<and> trace (length (gr_nodes g)) g (0, ''Roughness'') = asked_roughness mt bl cfg paths
    \<and> trace (length (gr_nodes g)) g (0, ''Metallic'') = asked_metallic bl cfg paths"
  using assms by (rule material_traced)

definition sample_blender :: "int blender" where
  "sample_blender = \<lparr>bl_loops = concat \<circ> map (\<lambda>(a, b, c). [a, b, c]), bl_bound_box = id, bl_exists = (\<lambda>p. p \<noteq> ''no.png''),
     bl_picture = (\<lambda>p. True), bl_separate_color = False\<rparr>"

definition sample_maths :: "int maths" where
  "sample_maths = \<lparr>mt_lit = (\<lambda>s. 1), mt_of_int = id, mt_sin = id, mt_cos = id, mt_tan = id, mt_atan = id, mt_radians = id\<rparr>"

definition gloss_config :: "(string \<times> int setting) list" where
  "gloss_config = AList.update ''invert_rough'' (IntSetting 1) (AList.update ''rough_channel'' (StrSetting ''r'') (DEFAULTS (\<lambda>s. 1)))"

definition gloss_paths :: "(string \<times> string) list" where
  "gloss_paths = [(''texture_path'', ''no.png''), (''normal_path'', ''n.png''), (''orm_path'', ''orm.png'')]"

lemma gloss_material:
  "build_material sample_maths sample_blender gloss_config gloss_paths =
     Inr \<lparr>gr_nodes = [Principled 1 1, NormalMap, TexImage ''n.png'' True, TexImage ''orm.png'' True, SeparateRGB, InvertNode, MultiplyBy 1],
          gr_links = [((1, ''Color''), (2, ''Color'')), ((0, ''Normal''), (1, ''Normal'')), ((4, ''Image''), (3, ''Color'')),
            ((5, ''Color''), (4, ''R'')), ((6, ''0''), (5, ''Color'')), ((0, ''Roughness''), (6, ''Value'')),
            ((0, ''Metallic''), (4, ''B''))]\<rparr>"
  by code_simp

theorem material_is_what_was_asked_witness:
  "\<exists>g. build_material sample_maths sample_blender gloss_config gloss_paths = Inr g
     \<and> trace (length (gr_nodes g)) g (0, ''Roughness'') = Scaled 1 (Inverted (Part ''Red'' (Picture ''orm.png'' True)))"
proof -
  have "asked_roughness sample_maths sample_blender gloss_config gloss_paths =
      Scaled 1 (Inverted (Part ''Red'' (Picture ''orm.png'' True)))" by code_simp
  with material_is_what_was_asked [OF gloss_material] gloss_material show ?thesis by metis
qed


end
