(* ===== verification/CameraFit.thy ===== *)
theory CameraFit
  imports RenderScene
begin

text \<open>
  What the fit of \<open>frame_camera\<close> achieves, with real numbers for the floating-point
  ones: every vertex of the model is in the picture of an orthographic camera, and
  in the picture of a perspective one as far as it is not much nearer than the
  centre of the model.
\<close>

section \<open>Exact arithmetic\<close>

text \<open>The value of a literal.\<close>

definition fixed_point :: "string \<Rightarrow> real" where
  "fixed_point s =
     (case cut_at ''.'' s of
        None \<Rightarrow> of_int (int_of_digits s)
      | Some (a, b) \<Rightarrow> of_int (int_of_digits (a @ b)) / 10 ^ length b)"

definition decimal :: "string \<Rightarrow> real" where
  "decimal s =
     (case cut_at ''e-'' s of
        None \<Rightarrow> fixed_point s
      | Some (m, e) \<Rightarrow> fixed_point m / 10 ^ nat (int_of_digits e))"

definition real_maths :: "real maths" where
  "real_maths = \<lparr>mt_lit = decimal, mt_of_int = of_int, mt_sin = sin, mt_cos = cos, mt_tan = tan, mt_atan = arctan,
     mt_radians = (\<lambda>x. x * pi / 180)\<rparr>"

lemma real_maths_simps [simp]:
  "mt_lit real_maths = decimal" "mt_of_int real_maths = of_int" "mt_sin real_maths = sin"
  "mt_cos real_maths = cos" "mt_tan real_maths = tan" "mt_atan real_maths = arctan"
  "mt_radians real_maths x = x * pi / 180"
  by (simp_all add: real_maths_def)

lemma literals [simp]:
  "decimal ''0.0'' = 0" "decimal ''1.0'' = 1" "decimal ''2.0'' = 2" "decimal ''4.0'' = 4" "decimal ''1e-6'' = 1 / 10 ^ 6"
proof -
  have "cut_at ''e-'' ''0.0'' = None" "cut_at ''e-'' ''1.0'' = None" "cut_at ''e-'' ''2.0'' = None" "cut_at ''e-'' ''4.0'' = None"
    "cut_at ''e-'' ''1e-6'' = Some (''1'', ''6'')" by code_simp+
  moreover have "cut_at ''.'' ''0.0'' = Some (''0'', ''0'')" "cut_at ''.'' ''1.0'' = Some (''1'', ''0'')"
    "cut_at ''.'' ''2.0'' = Some (''2'', ''0'')" "cut_at ''.'' ''4.0'' = Some (''4'', ''0'')" "cut_at ''.'' ''1'' = None" by code_simp+
  moreover have "int_of_digits ''00'' = 0" "int_of_digits ''10'' = 10" "int_of_digits ''20'' = 20" "int_of_digits ''40'' = 40"
    "int_of_digits ''1'' = 1" "int_of_digits ''6'' = 6" by code_simp+
  ultimately show "decimal ''0.0'' = 0" "decimal ''1.0'' = 1" "decimal ''2.0'' = 2" "decimal ''4.0'' = 4"
    "decimal ''1e-6'' = 1 / 10 ^ 6"
    by (simp_all add: decimal_def fixed_point_def)
qed

text \<open>What \<open>mathutils.Vector\<close> documents of its operations.\<close>

definition vector_laws :: "real vectors \<Rightarrow> bool" where
  "vector_laws vx \<longleftrightarrow> (\<forall>a b c x y z s.
     vx_add vx (a, b, c) (x, y, z) = (a + x, b + y, c + z) \<and>
     vx_sub vx (a, b, c) (x, y, z) = (a - x, b - y, c - z) \<and>
     vx_neg vx (a, b, c) = (- a, - b, - c) \<and>
     vx_scale vx (a, b, c) s = (a * s, b * s, c * s) \<and>
     (s \<noteq> 0 \<longrightarrow> vx_div vx (a, b, c) s = (a / s, b / s, c / s)) \<and>
     vx_dot vx (a, b, c) (x, y, z) = a * x + b * y + c * z \<and>
     vx_cross vx (a, b, c) (x, y, z) = (b * z - c * y, c * x - a * z, a * y - b * x) \<and>
     vx_length vx (a, b, c) = sqrt (a\<^sup>2 + b\<^sup>2 + c\<^sup>2) \<and>
     (let l = sqrt (a\<^sup>2 + b\<^sup>2 + c\<^sup>2)
      in vx_normalized vx (a, b, c) = (if l = 0 then (a, b, c) else (a / l, b / l, c / l))))"

lemma vector_simps:
  assumes "vector_laws vx"
  shows "vx_add vx (a, b, c) (x, y, z) = (a + x, b + y, c + z)"
    and "vx_sub vx (a, b, c) (x, y, z) = (a - x, b - y, c - z)"
    and "vx_neg vx (a, b, c) = (- a, - b, - c)"
    and "vx_scale vx (a, b, c) s = (a * s, b * s, c * s)"
    and "s \<noteq> 0 \<Longrightarrow> vx_div vx (a, b, c) s = (a / s, b / s, c / s)"
    and "vx_dot vx (a, b, c) (x, y, z) = a * x + b * y + c * z"
    and "vx_cross vx (a, b, c) (x, y, z) = (b * z - c * y, c * x - a * z, a * y - b * x)"
    and "vx_length vx (a, b, c) = sqrt (a\<^sup>2 + b\<^sup>2 + c\<^sup>2)"
    and "vx_normalized vx (a, b, c) = (if sqrt (a\<^sup>2 + b\<^sup>2 + c\<^sup>2) = 0 then (a, b, c)
      else (a / sqrt (a\<^sup>2 + b\<^sup>2 + c\<^sup>2), b / sqrt (a\<^sup>2 + b\<^sup>2 + c\<^sup>2), c / sqrt (a\<^sup>2 + b\<^sup>2 + c\<^sup>2)))"
  using assms unfolding vector_laws_def Let_def by blast+

section \<open>Boxes\<close>

text \<open>The corners of a box that holds the vertices: what Blender documents of \<open>bound_box\<close>.\<close>

definition encloses :: "real vec list \<Rightarrow> real vec list \<Rightarrow> bool" where
  "encloses bbox verts \<longleftrightarrow> (\<exists>xl xh yl yh zl zh. xl \<le> xh \<and> yl \<le> yh \<and> zl \<le> zh
     \<and> set bbox = {xl, xh} \<times> {yl, yh} \<times> {zl, zh}
     \<and> (\<forall>(x, y, z) \<in> set verts. xl \<le> x \<and> x \<le> xh \<and> yl \<le> y \<and> y \<le> yh \<and> zl \<le> z \<and> z \<le> zh))"

lemma py_min_Min: "xs \<noteq> [] \<Longrightarrow> py_min xs = Min (set xs)" for xs :: "real list"
proof -
  have "foldl min x xs = Min (set (x # xs))" for x :: real and xs
    by (induction xs arbitrary: x; case_tac "xs = []") (auto simp: ac_simps)
  then show "xs \<noteq> [] \<Longrightarrow> py_min xs = Min (set xs)" by (cases xs) (simp_all add: py_min_def)
qed

lemma py_max_Max: "xs \<noteq> [] \<Longrightarrow> py_max xs = Max (set xs)" for xs :: "real list"
proof -
  have "foldl max x xs = Max (set (x # xs))" for x :: real and xs
    by (induction xs arbitrary: x; case_tac "xs = []") (auto simp: ac_simps)
  then show "xs \<noteq> [] \<Longrightarrow> py_max xs = Max (set xs)" by (cases xs) (simp_all add: py_max_def)
qed

lemma box_ends:
  assumes "set bbox = {xl, xh} \<times> {yl, yh} \<times> {zl, zh}" and "xl \<le> xh" "yl \<le> yh" "zl \<le> (zh :: real)"
  shows "box_low bbox = (xl, yl, zl)" and "box_high bbox = (xh, yh, zh)"
proof -
  have n: "bbox \<noteq> []" using assms(1) by auto
  have "vec_x ` set bbox = {xl, xh}" "vec_y ` set bbox = {yl, yh}" "vec_z ` set bbox = {zl, zh}"
    unfolding assms(1) vec_x_def vec_y_def vec_z_def by force+
  with n assms(2-4) show "box_low bbox = (xl, yl, zl)" "box_high bbox = (xh, yh, zh)"
    by (simp_all add: box_low_def box_high_def py_min_Min py_max_Max)
qed

text \<open>The half extent along an axis, and that no point of the box is further out.\<close>

lemma abs_between: "l \<le> x \<Longrightarrow> x \<le> h \<Longrightarrow> \<bar>(x - (l + h) / 2) * a\<bar> \<le> (h - l) / 2 * \<bar>a\<bar>" for a :: real
proof -
  assume "l \<le> x" "x \<le> h"
  then have "\<bar>x - (l + h) / 2\<bar> \<le> (h - l) / 2" by (simp add: abs_le_iff field_simps)
  then show ?thesis unfolding abs_mult by (rule mult_right_mono) simp
qed

lemma end_reached: "l \<le> h \<Longrightarrow> \<exists>x \<in> {l, h}. (x - (l + h) / 2) * a = (h - l) / 2 * \<bar>a\<bar>" for a :: real
  by (cases "0 \<le> a") (auto simp: field_simps)

lemma within_half_extent:
  assumes "vector_laws vx" and "encloses bbox verts" and "v \<in> set verts"
  shows "\<bar>vx_dot vx (vx_sub vx v (box_center real_maths vx bbox)) axis\<bar>
    \<le> half_extent vx bbox (box_center real_maths vx bbox) axis"
proof -
  obtain a b c where axis: "axis = (a, b, c)" by (cases axis)
  obtain x y z where v: "v = (x, y, z)" by (cases v)
  obtain xl xh yl yh zl zh where e: "xl \<le> xh" "yl \<le> yh" "zl \<le> zh" and s: "set bbox = {xl, xh} \<times> {yl, yh} \<times> {zl, zh}"
    and i: "xl \<le> x" "x \<le> xh" "yl \<le> y" "y \<le> yh" "zl \<le> z" "z \<le> zh"
    using assms(2,3) unfolding encloses_def v by blast
  note vs = vector_simps [OF assms(1)]
  let ?c = "((xl + xh) / 2, (yl + yh) / 2, (zl + zh) / 2)"
  let ?w = "(xh - xl) / 2 * \<bar>a\<bar> + (yh - yl) / 2 * \<bar>b\<bar> + (zh - zl) / 2 * \<bar>c\<bar>"
  have center: "box_center real_maths vx bbox = ?c"
    by (simp add: box_center_def box_ends [OF s e] vs)
  have "\<bar>vx_dot vx (vx_sub vx v ?c) axis\<bar> \<le> ?w"
    using abs_between [OF i(1,2), of a] abs_between [OF i(3,4), of b] abs_between [OF i(5,6), of c]
    unfolding v axis vs by linarith
  also have "?w \<le> half_extent vx bbox ?c axis"
  proof -
    obtain x' y' z' where p: "x' \<in> {xl, xh}" "y' \<in> {yl, yh}" "z' \<in> {zl, zh}"
      and "(x' - (xl + xh) / 2) * a = (xh - xl) / 2 * \<bar>a\<bar>" "(y' - (yl + yh) / 2) * b = (yh - yl) / 2 * \<bar>b\<bar>"
        "(z' - (zl + zh) / 2) * c = (zh - zl) / 2 * \<bar>c\<bar>"
      using end_reached e by metis
    then have "vx_dot vx (vx_sub vx (x', y', z') ?c) axis = ?w" by (simp add: axis vs)
    then have "?w \<le> \<bar>vx_dot vx (vx_sub vx (x', y', z') ?c) axis\<bar>" by (metis abs_ge_self)
    moreover have in_box: "(x', y', z') \<in> set bbox" using p unfolding s by blast
    moreover from in_box have "bbox \<noteq> []" by auto
    ultimately show ?thesis
      unfolding half_extent_def by (subst py_max_Max) (auto simp del: times_divide_eq_left intro!: Max_ge_iff [THEN iffD2])
  qed
  finally show ?thesis by (simp only: center)
qed
section \<open>The axes\<close>

text \<open>The code takes \<open>x\<close> for the right when it looks straight down, and nearly so.\<close>

definition clear_of_vertical :: "real \<Rightarrow> bool" where
  "clear_of_vertical pitch \<longleftrightarrow> cos pitch = 0 \<or> 1 / 10 ^ 6 \<le> \<bar>cos pitch\<bar>"

lemma unit_back: "(cos p * sin y)\<^sup>2 + (- cos p * cos y)\<^sup>2 + (sin p)\<^sup>2 = (1 :: real)"
proof -
  have "(cos p * sin y)\<^sup>2 + (- cos p * cos y)\<^sup>2 + (sin p)\<^sup>2 = (cos p)\<^sup>2 * ((sin y)\<^sup>2 + (cos y)\<^sup>2) + (sin p)\<^sup>2"
    by (simp add: power_mult_distrib algebra_simps del: sin_cos_squared_add sin_cos_squared_add2)
  then show ?thesis by simp
qed

lemma flat_length: "sqrt ((- cos p * cos y)\<^sup>2 + (cos p * sin y)\<^sup>2) = \<bar>cos (p::real)\<bar>"
proof -
  have "(- cos p * cos y)\<^sup>2 + (cos p * sin y)\<^sup>2 = (cos p)\<^sup>2 * ((sin y)\<^sup>2 + (cos y)\<^sup>2)"
    by (simp add: power_mult_distrib algebra_simps del: sin_cos_squared_add sin_cos_squared_add2)
  then show ?thesis by simp
qed

lemma axes_straight:
  assumes "vector_laws vx" and "cos pitch = 0"
  shows "camera_axes real_maths vx yaw pitch = ((0, 0, sin pitch), (1, 0, 0), (0, - sin pitch, 0))"
proof -
  have "(sin pitch)\<^sup>2 = 1" using sin_cos_squared_add [of pitch] assms(2) by simp
  then show ?thesis
    using assms(2) by (simp add: camera_axes_def Let_def vector_simps [OF assms(1)])
qed

lemma axes_slanted:
  assumes "vector_laws vx" and "1 / 10 ^ 6 \<le> \<bar>cos pitch\<bar>"
  defines "s \<equiv> cos pitch / \<bar>cos pitch\<bar>"
  shows "camera_axes real_maths vx yaw pitch =
     ((cos pitch * sin yaw, - cos pitch * cos yaw, sin pitch), (- s * cos yaw, - s * sin yaw, 0),
      (- s * sin yaw * sin pitch, s * cos yaw * sin pitch, s * cos pitch))"
proof -
  note vs = vector_simps [OF assms(1)]
  have c: "cos pitch \<noteq> 0" using assms(2) by auto
  have s: "s * s = 1" using c by (simp add: s_def)
  have b: "vx_normalized vx (cos pitch * sin yaw, - cos pitch * cos yaw, sin pitch) =
      (cos pitch * sin yaw, - cos pitch * cos yaw, sin pitch)"
    by (simp only: vs unit_back) simp
  have r: "vx_cross vx (cos pitch * sin yaw, - cos pitch * cos yaw, sin pitch) (0, 0, 1) =
      (- cos pitch * cos yaw, - (cos pitch * sin yaw), 0)" by (simp add: vs)
  have l: "sqrt ((- cos pitch * cos yaw)\<^sup>2 + (- (cos pitch * sin yaw))\<^sup>2 + 0\<^sup>2) = \<bar>cos pitch\<bar>"
    using flat_length [of pitch yaw] by simp
  have rl: "vx_length vx (- cos pitch * cos yaw, - (cos pitch * sin yaw), 0) = \<bar>cos pitch\<bar>"
    by (simp only: vs l)
  have rn: "vx_normalized vx (- cos pitch * cos yaw, - (cos pitch * sin yaw), 0) = (- s * cos yaw, - s * sin yaw, 0)"
    using c by (simp only: vs l) (simp add: s_def)
  let ?u = "(- s * sin yaw * sin pitch, s * cos yaw * sin pitch, s * cos pitch)"
  have sc: "s * cos yaw * (cos pitch * cos yaw) + s * sin yaw * (cos pitch * sin yaw) = s * cos pitch"
    using sin_cos_squared_add [of yaw] by algebra
  have u: "vx_cross vx (- s * cos yaw, - s * sin yaw, 0) (cos pitch * sin yaw, - cos pitch * cos yaw, sin pitch) = ?u"
    using sc by (simp only: vs) simp
  have ul: "(- s * sin yaw * sin pitch)\<^sup>2 + (s * cos yaw * sin pitch)\<^sup>2 + (s * cos pitch)\<^sup>2 = 1"
    using s sin_cos_squared_add [of yaw] sin_cos_squared_add [of pitch] by algebra
  have un: "vx_normalized vx ?u = ?u" by (simp only: vs ul) simp
  have "\<not> \<bar>cos pitch\<bar> < 1 / 10 ^ 6" using assms(2) by simp
  then show ?thesis
    by (simp only: camera_axes_def Let_def real_maths_simps literals b r rl if_False rn u un)
qed

definition orthonormal :: "real vectors \<Rightarrow> real vec \<times> real vec \<times> real vec \<Rightarrow> bool" where
  "orthonormal vx = (\<lambda>(a, b, c). vx_dot vx a a = 1 \<and> vx_dot vx b b = 1 \<and> vx_dot vx c c = 1
     \<and> vx_dot vx a b = 0 \<and> vx_dot vx a c = 0 \<and> vx_dot vx b c = 0)"

lemma axes_orthonormal:
  assumes "vector_laws vx" and "clear_of_vertical pitch"
  shows "orthonormal vx (camera_axes real_maths vx yaw pitch)"
proof (cases "cos pitch = 0")
  case True
  have "(sin pitch)\<^sup>2 = 1" using sin_cos_squared_add [of pitch] True by simp
  then show ?thesis
    unfolding axes_straight [OF assms(1) True] orthonormal_def
    by (simp add: vector_simps [OF assms(1)] power2_eq_square)
next
  case False
  then have c: "1 / 10 ^ 6 \<le> \<bar>cos pitch\<bar>" using assms(2) by (simp add: clear_of_vertical_def)
  define s where "s = cos pitch / \<bar>cos pitch\<bar>"
  have s: "s * s = 1" using False by (simp add: s_def)
  define a b d e where "a = sin yaw" and "b = cos yaw" and "d = sin pitch" and "e = cos pitch"
  have t: "a * a = 1 - b * b" "d * d = 1 - e * e"
    using sin_cos_squared_add [of yaw] sin_cos_squared_add [of pitch]
    by (simp_all add: a_def b_def d_def e_def power2_eq_square)
  have "orthonormal vx ((e * a, - e * b, d), (- s * b, - s * a, 0), (- s * a * d, s * b * d, s * e))"
    unfolding orthonormal_def prod.case vector_simps [OF assms(1)]
    using s t by algebra
  then show ?thesis
    unfolding axes_slanted [OF assms(1) c] s_def a_def b_def d_def e_def .
qed


section \<open>The fit\<close>

lemma dot_shift:
  "vector_laws vx \<Longrightarrow> vx_dot vx (vx_sub vx v (vx_add vx c (vx_scale vx b d))) a = vx_dot vx (vx_sub vx v c) a - d * vx_dot vx b a"
  by (cases v; cases c; cases b; cases a) (simp add: vector_simps algebra_simps)

lemma dot_swap: "vector_laws vx \<Longrightarrow> vx_dot vx (vx_sub vx a b) c = - vx_dot vx (vx_sub vx b a) c"
  by (cases a; cases b; cases c) (simp add: vector_simps algebra_simps)

lemma cauchy: "\<bar>a * x + b * y + c * z\<bar> \<le> sqrt (a\<^sup>2 + b\<^sup>2 + c\<^sup>2) * sqrt (x\<^sup>2 + y\<^sup>2 + z\<^sup>2)" for a :: real
proof -
  have "(a * x + b * y + c * z)\<^sup>2 + ((a * y - b * x)\<^sup>2 + (b * z - c * y)\<^sup>2 + (c * x - a * z)\<^sup>2) =
      (a\<^sup>2 + b\<^sup>2 + c\<^sup>2) * (x\<^sup>2 + y\<^sup>2 + z\<^sup>2)" by algebra
  moreover have "0 \<le> (a * y - b * x)\<^sup>2 + (b * z - c * y)\<^sup>2 + (c * x - a * z)\<^sup>2" by simp
  ultimately have "(a * x + b * y + c * z)\<^sup>2 \<le> (a\<^sup>2 + b\<^sup>2 + c\<^sup>2) * (x\<^sup>2 + y\<^sup>2 + z\<^sup>2)" by linarith
  then show ?thesis by (simp add: real_le_rsqrt flip: real_sqrt_mult real_sqrt_abs)
qed

text \<open>The sphere around the box.\<close>

lemma within_radius:
  assumes "vector_laws vx" and "encloses bbox verts" and "v \<in> set verts" and "vx_dot vx axis axis = 1"
  shows "\<bar>vx_dot vx (vx_sub vx v (box_center real_maths vx bbox)) axis\<bar> \<le> box_radius real_maths vx bbox"
proof -
  obtain a b c where axis: "axis = (a, b, c)" by (cases axis)
  obtain x y z where v: "v = (x, y, z)" by (cases v)
  obtain xl xh yl yh zl zh where e: "xl \<le> xh" "yl \<le> yh" "zl \<le> zh" and s: "set bbox = {xl, xh} \<times> {yl, yh} \<times> {zl, zh}"
    and i: "xl \<le> x" "x \<le> xh" "yl \<le> y" "y \<le> yh" "zl \<le> z" "z \<le> zh"
    using assms(2,3) unfolding encloses_def v by blast
  note vs = vector_simps [OF assms(1)]
  let ?d = "sqrt ((x - (xl + xh) / 2)\<^sup>2 + (y - (yl + yh) / 2)\<^sup>2 + (z - (zl + zh) / 2)\<^sup>2)"
  have half: "(p - (l + h) / 2)\<^sup>2 \<le> ((h - l) / 2)\<^sup>2" if "l \<le> p" "p \<le> h" for l h p :: real
    using that by (intro power2_le_iff_abs_le [THEN iffD2]) (auto simp: abs_le_iff field_simps)
  have "\<bar>vx_dot vx (vx_sub vx v (box_center real_maths vx bbox)) axis\<bar> \<le> ?d * sqrt (a\<^sup>2 + b\<^sup>2 + c\<^sup>2)"
    using cauchy by (simp add: box_center_def box_ends [OF s e] v axis vs)
  also have "a\<^sup>2 + b\<^sup>2 + c\<^sup>2 = 1" using assms(4) by (simp add: axis vs power2_eq_square)
  also have "?d * sqrt 1 \<le> sqrt (((xh - xl) / 2)\<^sup>2 + ((yh - yl) / 2)\<^sup>2 + ((zh - zl) / 2)\<^sup>2)"
    using half [OF i(1,2)] half [OF i(3,4)] half [OF i(5,6)] by simp
  also have "\<dots> = sqrt ((xh - xl)\<^sup>2 + (yh - yl)\<^sup>2 + (zh - zl)\<^sup>2) / 2"
  proof -
    have "((xh - xl) / 2)\<^sup>2 + ((yh - yl) / 2)\<^sup>2 + ((zh - zl) / 2)\<^sup>2 = ((xh - xl)\<^sup>2 + (yh - yl)\<^sup>2 + (zh - zl)\<^sup>2) / 2\<^sup>2"
      by (simp add: power_divide add_divide_distrib)
    then show ?thesis by (simp only: real_sqrt_divide) simp
  qed
  also have "\<dots> \<le> box_radius real_maths vx bbox"
    by (simp add: box_radius_def box_ends [OF s e] vs)
  finally show ?thesis .
qed


text \<open>
  What a camera shows: a vertex is in front of it and no further from its axis,
  upwards and to the right, than half the height and the width of the picture at
  its depth.
\<close>

definition in_picture :: "real vectors \<Rightarrow> real vec \<times> real vec \<times> real vec \<Rightarrow> real \<Rightarrow> real camera \<Rightarrow> real vec \<Rightarrow> bool" where
  "in_picture vx = (\<lambda>(back, right, up) aspect cam v.
     let d = vx_sub vx v (cam_location cam);
         depth = - vx_dot vx d back;
         half = (case cam_lens cam of Ortho s \<Rightarrow> s / 2 | Persp a \<Rightarrow> depth * tan (a / 2))
     in 0 < depth \<and> \<bar>vx_dot vx d up\<bar> \<le> half \<and> \<bar>vx_dot vx d right\<bar> \<le> half * aspect)"

abbreviation set_axes :: "real vectors \<Rightarrow> (string \<times> real setting) list \<Rightarrow> real vec \<times> real vec \<times> real vec" where
  "set_axes vx cfg \<equiv> camera_axes real_maths vx (float_setting real_maths cfg ''yaw'' * pi / 180)
     (float_setting real_maths cfg ''pitch'' * pi / 180)"

definition orthographic :: "(string \<times> real setting) list \<Rightarrow> bool" where
  "orthographic cfg \<longleftrightarrow> map upper_char (text_setting cfg ''projection'') = ''ORTHO''"

text \<open>How far towards the camera a vertex is from the centre, against the distance of the camera.\<close>

definition near_side :: "real vectors \<Rightarrow> (string \<times> real setting) list \<Rightarrow> real vec list \<Rightarrow> real camera \<Rightarrow> real vec \<Rightarrow> bool" where
  "near_side vx cfg bbox cam v \<longleftrightarrow>
     (let ahead = (\<lambda>p. vx_dot vx (vx_sub vx p (box_center real_maths vx bbox)) (fst (set_axes vx cfg)))
      in (1 - 1 / float_setting real_maths cfg ''margin'') * ahead (cam_location cam) \<le> ahead v)"

lemma aspect_pos: "0 < int_setting cfg ''width'' \<Longrightarrow> 0 < view_aspect real_maths cfg"
  by (simp add: view_aspect_def)

lemma frame_cameraE:
  assumes "frame_camera real_maths vx cfg bbox = Inr (cam, center, radius)"
  obtains bk right up lens far where "set_axes vx cfg = (bk, right, up)"
    and "center = box_center real_maths vx bbox" and "radius = box_radius real_maths vx bbox"
    and "fit_lens real_maths cfg radius (half_extent vx bbox center right) (half_extent vx bbox center up) = Inr (lens, far)"
    and "cam_lens cam = lens" and "cam_location cam = vx_add vx center (vx_scale vx bk far)"
  using assms by (auto simp: frame_camera_def Let_def result_simps split: prod.splits)

lemma fits_ortho:
  assumes "fit_lens real_maths cfg radius half_w half_h = Inr (lens, far)" and "orthographic cfg"
    and "1 \<le> float_setting real_maths cfg ''margin''" and "0 < view_aspect real_maths cfg"
    and "0 \<le> half_w" and "0 \<le> half_h"
  obtains s where "lens = Ortho s" and "far = 4 * radius" and "half_h \<le> s / 2" and "half_w \<le> s / 2 * view_aspect real_maths cfg"
proof -
  let ?a = "view_aspect real_maths cfg" and ?m = "float_setting real_maths cfg ''margin''"
  have l: "lens = Ortho (2 * max half_h (half_w / ?a) * ?m)" "far = 4 * radius"
    using assms(1,2) by (auto simp: fit_lens_def orthographic_def Let_def result_simps fdiv_def split: if_splits)
  have b: "max half_h (half_w / ?a) \<le> max half_h (half_w / ?a) * ?m"
    using assms(3,5,6) mult_left_mono [of 1 ?m "max half_h (half_w / ?a)"] by (simp add: max.coboundedI1)
  then have "half_h \<le> max half_h (half_w / ?a) * ?m" by linarith
  moreover have "half_w \<le> max half_h (half_w / ?a) * ?m * ?a"
  proof -
    have "half_w / ?a \<le> max half_h (half_w / ?a) * ?m" using b by linarith
    then show ?thesis using assms(4) by (simp add: pos_divide_le_eq)
  qed
  ultimately show thesis using l by (intro that [of "2 * max half_h (half_w / ?a) * ?m"]) simp_all
qed

lemma half_tan: "0 < f \<Longrightarrow> f < 180 \<Longrightarrow> 0 < tan (f * pi / 180 / 2)"
  by (rule tan_gt_zero) (simp_all add: field_simps)

lemma fits_persp:
  assumes "fit_lens real_maths cfg radius half_w half_h = Inr (lens, far)" and "\<not> orthographic cfg"
    and "0 < float_setting real_maths cfg ''fov''" and "float_setting real_maths cfg ''fov'' < 180"
    and "1 \<le> float_setting real_maths cfg ''margin''" and "0 < view_aspect real_maths cfg"
  obtains a where "lens = Persp a" and "0 < tan (a / 2)"
    and "half_h \<le> far / float_setting real_maths cfg ''margin'' * tan (a / 2)"
    and "half_w \<le> far / float_setting real_maths cfg ''margin'' * tan (a / 2) * view_aspect real_maths cfg"
proof -
  let ?a = "view_aspect real_maths cfg" and ?m = "float_setting real_maths cfg ''margin''"
  let ?v = "float_setting real_maths cfg ''fov'' * pi / 180 / 2"
  have t: "0 < tan ?v" using assms(3,4) by (rule half_tan)
  have l: "lens = Persp (2 * ?v)" "far = max (half_h / tan ?v) (half_w / (tan ?v * ?a)) * ?m"
    using assms(1,2) by (auto simp: fit_lens_def orthographic_def Let_def result_simps fdiv_def tan_arctan split: if_splits)
  have d: "far / ?m = max (half_h / tan ?v) (half_w / (tan ?v * ?a))" using assms(5) l(2) by simp
  have h: "half_h \<le> far / ?m * tan ?v"
  proof -
    have "half_h / tan ?v \<le> far / ?m" unfolding d by simp
    then show ?thesis using t by (simp only: pos_divide_le_eq)
  qed
  have w: "half_w \<le> far / ?m * (tan ?v * ?a)"
  proof -
    have "half_w / (tan ?v * ?a) \<le> far / ?m" unfolding d by simp
    then show ?thesis using t assms(6) by (simp only: pos_divide_le_eq mult_pos_pos)
  qed
  have "2 * ?v / 2 = ?v" by simp
  with t h w show thesis by (intro that [OF l(1)]) (simp_all only: mult.assoc)
qed

lemma dot_ahead: "vector_laws vx \<Longrightarrow> vx_dot vx (vx_sub vx (vx_add vx c (vx_scale vx b d)) c) b = d * vx_dot vx b b"
  by (cases c; cases b) (simp add: vector_simps algebra_simps)

lemma fit_shows:
  assumes "vector_laws vx" and "encloses bbox verts" and "v \<in> set verts"
    and "frame_camera real_maths vx cfg bbox = Inr (cam, center, radius)"
    and "1 \<le> float_setting real_maths cfg ''margin''" and "0 < int_setting cfg ''width''"
    and "clear_of_vertical (float_setting real_maths cfg ''pitch'' * pi / 180)"
    and "orthographic cfg \<or> 0 < float_setting real_maths cfg ''fov'' \<and> float_setting real_maths cfg ''fov'' < 180
      \<and> \<not> near_side vx cfg bbox cam v"
  shows "in_picture vx (set_axes vx cfg) (view_aspect real_maths cfg) cam v"
  using assms(4)
proof (rule frame_cameraE)
  fix bk right up lens far
  assume axes: "set_axes vx cfg = (bk, right, up)"
    and center: "center = box_center real_maths vx bbox" and radius: "radius = box_radius real_maths vx bbox"
    and fit: "fit_lens real_maths cfg radius (half_extent vx bbox center right) (half_extent vx bbox center up) = Inr (lens, far)"
    and lens: "cam_lens cam = lens" and loc: "cam_location cam = vx_add vx center (vx_scale vx bk far)"
  note asp = aspect_pos [OF assms(6)]
  have o: "vx_dot vx bk bk = 1" "vx_dot vx bk right = 0" "vx_dot vx bk up = 0"
    using axes_orthonormal [OF assms(1,7), of "float_setting real_maths cfg ''yaw'' * pi / 180"]
    unfolding axes orthonormal_def by auto
  define ahead where "ahead = vx_dot vx (vx_sub vx v center) bk"
  have shift: "vx_dot vx (vx_sub vx v (cam_location cam)) up = vx_dot vx (vx_sub vx v center) up"
    "vx_dot vx (vx_sub vx v (cam_location cam)) right = vx_dot vx (vx_sub vx v center) right"
    "vx_dot vx (vx_sub vx v (cam_location cam)) bk = ahead - far"
    by (simp_all add: loc dot_shift [OF assms(1)] o ahead_def)
  have w: "\<bar>vx_dot vx (vx_sub vx v center) up\<bar> \<le> half_extent vx bbox center up"
    "\<bar>vx_dot vx (vx_sub vx v center) right\<bar> \<le> half_extent vx bbox center right"
    unfolding center by (rule within_half_extent [OF assms(1-3)])+
  have r: "\<bar>ahead\<bar> \<le> radius" unfolding ahead_def center radius by (rule within_radius [OF assms(1-3) o(1)])
  show ?thesis
  proof (cases "orthographic cfg")
    case True
    have "0 < radius" by (simp add: radius box_radius_def less_max_iff_disj)
    with r have depth: "0 < 4 * radius - ahead" by linarith
    from fits_ortho [OF fit True assms(5) asp] w obtain s where
      "lens = Ortho s" "far = 4 * radius" "half_extent vx bbox center up \<le> s / 2"
      "half_extent vx bbox center right \<le> s / 2 * view_aspect real_maths cfg"
      by (metis abs_ge_zero order_trans)
    with depth w show ?thesis unfolding axes by (simp add: in_picture_def Let_def shift lens)
  next
    case False
    let ?m = "float_setting real_maths cfg ''margin''"
    have near: "ahead < (1 - 1 / ?m) * far"
      using assms(8) False shift(3)
      by (simp add: near_side_def Let_def axes ahead_def center loc dot_ahead [OF assms(1)] o(1))
    obtain a where a: "lens = Persp a" "0 < tan (a / 2)"
      and h: "half_extent vx bbox center up \<le> far / ?m * tan (a / 2)"
      and wd: "half_extent vx bbox center right \<le> far / ?m * tan (a / 2) * view_aspect real_maths cfg"
      using fits_persp [OF fit False _ _ assms(5) asp] assms(8) False by metis
    have depth: "far / ?m < far - ahead" using near by (simp add: algebra_simps)
    have "0 \<le> far / ?m * tan (a / 2)" using h w(1) by linarith
    then have "0 \<le> far / ?m" using a(2) unfolding zero_le_mult_iff by linarith
    with depth have pos: "0 < far - ahead" by linarith
    have m: "far / ?m * tan (a / 2) \<le> (far - ahead) * tan (a / 2)"
      using depth a(2) by (intro mult_right_mono) auto
    have "far / ?m * tan (a / 2) * view_aspect real_maths cfg \<le> (far - ahead) * tan (a / 2) * view_aspect real_maths cfg"
      by (rule mult_right_mono [OF m]) (use asp in simp)
    then have "\<bar>vx_dot vx (vx_sub vx v center) up\<bar> \<le> (far - ahead) * tan (a / 2)"
      "\<bar>vx_dot vx (vx_sub vx v center) right\<bar> \<le> (far - ahead) * tan (a / 2) * view_aspect real_maths cfg"
      using h wd w m by linarith+
    with pos show ?thesis
      unfolding axes by (simp only: in_picture_def Let_def prod.case shift lens a(1) lens.case minus_diff_eq simp_thms)
  qed
qed

section \<open>Properties\<close>

lemma render_parts:
  assumes "render_main fl mt vx bl files argv = Inr sc"
    and "scene_inputs fl (mt_lit mt) files argv = Inr (m, cfg, paths, out)"
  obtains center radius where "frame_camera mt vx cfg (bl_bound_box bl (ms_verts m)) = Inr (sc_camera sc, center, radius)"
  using assms by (auto simp: render_main_def build_scene_def result_simps)


definition real_vectors :: "real vectors" where
  "real_vectors = \<lparr>
     vx_add = (\<lambda>(a, b, c) (x, y, z). (a + x, b + y, c + z)),
     vx_sub = (\<lambda>(a, b, c) (x, y, z). (a - x, b - y, c - z)),
     vx_neg = (\<lambda>(a, b, c). (- a, - b, - c)),
     vx_scale = (\<lambda>(a, b, c) s. (a * s, b * s, c * s)),
     vx_div = (\<lambda>(a, b, c) s. (a / s, b / s, c / s)),
     vx_dot = (\<lambda>(a, b, c) (x, y, z). a * x + b * y + c * z),
     vx_cross = (\<lambda>(a, b, c) (x, y, z). (b * z - c * y, c * x - a * z, a * y - b * x)),
     vx_length = (\<lambda>(a, b, c). sqrt (a\<^sup>2 + b\<^sup>2 + c\<^sup>2)),
     vx_normalized = (\<lambda>(a, b, c). let l = sqrt (a\<^sup>2 + b\<^sup>2 + c\<^sup>2) in if l = 0 then (a, b, c) else (a / l, b / l, c / l))\<rparr>"

lemma real_vectors_laws: "vector_laws real_vectors"
  unfolding vector_laws_def real_vectors_def by (simp add: Let_def)

definition real_box :: "real vec list \<Rightarrow> real vec list" where
  "real_box vs = (let (xl, yl, zl) = box_low vs; (xh, yh, zh) = box_high vs
     in concat (map (\<lambda>x. concat (map (\<lambda>y. map (\<lambda>z. (x, y, z)) [zl, zh]) [yl, yh])) [xl, xh]))"

lemma real_box_encloses: "vs \<noteq> [] \<Longrightarrow> encloses (real_box vs) vs"
proof -
  assume vs: "vs \<noteq> []"
  obtain xl yl zl xh yh zh where e: "box_low vs = (xl, yl, zl)" "box_high vs = (xh, yh, zh)"
    by (cases "box_low vs"; cases "box_high vs")
  have i: "xl \<le> x \<and> x \<le> xh \<and> yl \<le> y \<and> y \<le> yh \<and> zl \<le> z \<and> z \<le> zh" if "(x, y, z) \<in> set vs" for x y z
  proof -
    have "x \<in> vec_x ` set vs" "y \<in> vec_y ` set vs" "z \<in> vec_z ` set vs"
      using that by (force simp: vec_x_def vec_y_def vec_z_def)+
    then show ?thesis using e vs unfolding box_low_def box_high_def by (auto simp: py_min_Min py_max_Max)
  qed
  moreover obtain x y z where "(x, y, z) \<in> set vs" using vs by (metis list.set_sel(1) prod.exhaust)
  ultimately have "xl \<le> xh \<and> yl \<le> yh \<and> zl \<le> zh" by (meson order_trans)
  moreover have "set (real_box vs) = {xl, xh} \<times> {yl, yh} \<times> {zl, zh}" by (auto simp: real_box_def e)
  ultimately show ?thesis using i unfolding encloses_def by blast
qed

definition real_floats :: "real floats" where
  "real_floats = \<lparr>read_float = (\<lambda>s. map_option of_int (py_int s)), int_of_float = (\<lambda>x. Some \<lfloor>x\<rfloor>), one_minus = (\<lambda>x. 1 - x)\<rparr>"

definition real_blender :: "real blender" where
  "real_blender = \<lparr>bl_loops = concat \<circ> map (\<lambda>(a, b, c). [a, b, c]), bl_bound_box = real_box, bl_exists = (\<lambda>p. False),
     bl_picture = (\<lambda>p. False), bl_separate_color = True\<rparr>"

definition icon_files :: "string \<Rightarrow> string option" where
  "icon_files p = (if p = ''i.cfg'' then Some ''projection ortho'' else model_files p)"

lemma icon_inputs:
  "scene_inputs real_floats lit icon_files [''--smd'', ''a.smd'', ''--config'', ''i.cfg'', ''--out'', ''i.png''] =
     Inr (\<lparr>ms_verts = [(of_int 1, of_int 2, of_int 3), (of_int 4, of_int 2, of_int 3), (of_int 1, of_int 9, of_int 3)], ms_faces = [(0, 1, 2)], ms_uvs = [(of_int 5, of_int 6), (of_int 7, of_int 6), (of_int 5, of_int 8)],
            ms_normals = [(of_int 0, of_int 0, of_int 1), (of_int 0, of_int 0, of_int 1), (of_int 0, of_int 0, of_int 1)]\<rparr>, AList.update ''projection'' (StrSetting ''ortho'') (DEFAULTS lit),
          [(''texture_path'', []), (''normal_path'', []), (''orm_path'', []), (''envmap_path'', [])], ''i.png'')"
  by code_simp


definition icon_config :: "(string \<times> real setting) list" where
  "icon_config = AList.update ''projection'' (StrSetting ''ortho'') (DEFAULTS decimal)"

lemma config_values:
  "map_of (DEFAULTS lit) ''margin'' = Some (FloatSetting (lit ''1.12''))"
  "map_of (DEFAULTS lit) ''pitch'' = Some (FloatSetting (lit ''0.0''))"
  "map_of (DEFAULTS lit) ''yaw'' = Some (FloatSetting (lit ''0.0''))"
  "map_of (DEFAULTS lit) ''fov'' = Some (FloatSetting (lit ''32.0''))"
  "map_of (DEFAULTS lit) ''width'' = Some (IntSetting 1024)"
  "map_of (DEFAULTS lit) ''height'' = Some (IntSetting 512)"
  "map_of (DEFAULTS lit) ''projection'' = Some (StrSetting ''PERSP'')"
  by (simp_all add: DEFAULTS_def)

lemma more_literals [simp]: "decimal ''1.12'' = 112 / 100" "decimal ''32.0'' = 32"
proof -
  have "cut_at ''e-'' ''1.12'' = None" "cut_at ''e-'' ''32.0'' = None" by code_simp+
  moreover have "cut_at ''.'' ''1.12'' = Some (''1'', ''12'')" "cut_at ''.'' ''32.0'' = Some (''32'', ''0'')" by code_simp+
  moreover have "int_of_digits ''112'' = 112" "int_of_digits ''320'' = 320" by code_simp+
  ultimately show "decimal ''1.12'' = 112 / 100" "decimal ''32.0'' = 32" by (simp_all add: decimal_def fixed_point_def)
qed

lemma icon_settings:
  "float_setting real_maths icon_config ''margin'' = 112 / 100" "float_setting real_maths icon_config ''pitch'' = 0"
  "int_setting icon_config ''width'' = 1024" "int_setting icon_config ''height'' = 512" "orthographic icon_config"
proof -
  have "map upper_char ''ortho'' = ''ORTHO''" by code_simp
  then show "orthographic icon_config"
    by (simp add: orthographic_def icon_config_def text_setting_def update_conv' del: list.map)
qed (simp_all add: float_setting_def int_setting_def icon_config_def update_conv' config_values)

lemma frame_total:
  assumes "\<And>r w h. \<exists>l. fit_lens real_maths cfg r w h = Inr l"
  shows "\<exists>f. frame_camera real_maths vx cfg bbox = Inr f"
proof -
  obtain bk right up where a: "set_axes vx cfg = (bk, right, up)" by (cases "set_axes vx cfg")
  obtain lens far where "fit_lens real_maths cfg (box_radius real_maths vx bbox)
      (half_extent vx bbox (box_center real_maths vx bbox) right)
      (half_extent vx bbox (box_center real_maths vx bbox) up) = Inr (lens, far)"
    using assms by (metis surj_pair)
  with a show ?thesis by (simp add: frame_camera_def Let_def del: split_paired_Ex)
qed

lemma scene_total:
  assumes "\<exists>g. build_object mt bl m cfg paths = Inr g" and "\<exists>w. build_world mt bl cfg paths = Inr w"
    and "\<And>b. \<exists>f. frame_camera mt vx cfg b = Inr f"
  shows "\<exists>sc. build_scene mt vx bl (m, cfg, paths, out) = Inr sc"
proof -
  obtain cam center radius where "frame_camera mt vx cfg (bl_bound_box bl (ms_verts m)) = Inr (cam, center, radius)"
    using assms(3) by (metis surj_pair)
  with assms(1,2) show ?thesis by (auto simp: build_scene_def)
qed


text \<open>
  The perspective fit does not look at depth: with the default settings, a cube
  seen from the front has its near face outside of the picture.
\<close>

lemma tan_half_fov: "1 / 8 < tan (32 * pi / 180 / 2)"
proof -
  have "2 * arctan (1 / 8) = arctan (16 / 63)" using arctan_double [of "1 / 8"] by (simp add: power2_eq_square)
  moreover have "2 * arctan (16 / 63) = arctan (2016 / 3713)" using arctan_double [of "16 / 63"] by (simp add: power2_eq_square)
  moreover have "arctan (2016 / 3713) < arctan 1" by (simp add: arctan_less_iff)
  ultimately have "arctan (1 / 8) < pi / 16" by (simp add: arctan_one)
  also have "\<dots> < 32 * pi / 180 / 2" by simp
  also have "\<dots> = arctan (tan (32 * pi / 180 / 2))" by (rule arctan_tan [symmetric]) (simp_all add: field_simps)
  finally show ?thesis by (simp only: arctan_less_iff)
qed

definition cube :: "real vec list" where
  "cube = [(x, y, z). x \<leftarrow> [-1, 1], y \<leftarrow> [-1, 1], z \<leftarrow> [-1, 1]]"

lemma near_face_is_cut:
  assumes "vector_laws vx" and "frame_camera real_maths vx (DEFAULTS decimal) cube = Inr (cam, center, radius)"
  shows "encloses cube [(1, -1, 1)]"
    and "\<not> in_picture vx (set_axes vx (DEFAULTS decimal)) (view_aspect real_maths (DEFAULTS decimal)) cam (1, -1, 1)"
proof -
  let ?cfg = "DEFAULTS decimal"
  note vs = vector_simps [OF assms(1)]
  have cube: "set cube = {-1, 1} \<times> {-1, 1} \<times> {-1, 1}" by (auto simp: cube_def)
  then show "encloses cube [(1, -1, 1)]" unfolding encloses_def by (intro exI [of _ "-1"] exI [of _ 1]) simp
  have v: "float_setting real_maths ?cfg ''yaw'' = 0" "float_setting real_maths ?cfg ''pitch'' = 0"
    "float_setting real_maths ?cfg ''fov'' = 32" "float_setting real_maths ?cfg ''margin'' = 112 / 100"
    "view_aspect real_maths ?cfg = 2" "\<not> orthographic ?cfg"
    by (simp_all add: float_setting_def config_values view_aspect_def int_setting_def orthographic_def text_setting_def upper_char_def)
  have axes: "set_axes vx ?cfg = ((0, -1, 0), (-1, 0, 0), (0, 0, 1))"
    using axes_slanted [OF assms(1), of 0 0] by (simp add: v)
  have c: "box_center real_maths vx cube = (0, 0, 0)" by (simp add: box_center_def box_ends [OF cube] vs)
  let ?t = "tan (32 * pi / 180 / 2)"
  have t: "1 / 8 < ?t" by (rule tan_half_fov)
  have h: "half_extent vx cube (0, 0, 0) (0, 0, 1) = 1" "half_extent vx cube (0, 0, 0) (-1, 0, 0) = 1"
    by (simp_all add: half_extent_def cube_def vs py_max_def)
  have "1 / (?t * 2) \<le> 1 / ?t" using t by (simp add: field_simps)
  then have "max (1 / ?t) (1 / (?t * 2)) = 1 / ?t" by (rule max_absorb1)
  then have "fit_lens real_maths ?cfg (box_radius real_maths vx cube) 1 1 = Inr (Persp (2 * (32 * pi / 180 / 2)), 1 / ?t * (112 / 100))"
    using t v(6) by (simp add: fit_lens_def v fdiv_def orthographic_def Let_def tan_arctan)
  then have cam: "cam_lens cam = Persp (2 * (32 * pi / 180 / 2))" "cam_location cam = (0, - (1 / ?t * (112 / 100)), 0)"
    using assms(2) axes by (auto simp: frame_camera_def Let_def c h vs)
  have "\<not> 1 \<le> (1 / ?t * (112 / 100) - 1) * ?t" using t by (simp add: algebra_simps)
  then show "\<not> in_picture vx (set_axes vx ?cfg) (view_aspect real_maths ?cfg) cam (1, -1, 1)"
    unfolding axes by (simp add: in_picture_def Let_def cam vs algebra_simps)
qed

end
