(* ===== verification/Spec2Isabelle.thy ===== *)
theory Spec2Isabelle
  imports TheaterBuild VpkReaders WorkshopHistory Loadouts AuditMain ContentMain VoteIndexFile WeaponClone CameraFit
begin

text \<open>
  A verification library for the Python tools of an Insurgency (2014) game server
  repository: what its servers and clients are built from, and how what is
  written by one tool is read by the next.  Paths below are under \<open>src/\<close>.

  The parts and how they interact.  \<open>tools/theater-build/build.py\<close> flattens
  theater sources (KeyValues files that \<open>#base\<close> one another) into the files the
  servers load; \<open>tools/weapon-clone/generate.py\<close> writes a region of one of these
  sources.  \<open>tools/workshop/workshop_lock.py\<close> pins the workshop items the servers
  subscribe to and generates from the lockfile the stages of a Dockerfile and an
  \<open>acf\<close> file per server; \<open>tools/workshop/pack_vpk.py\<close> packs a directory into a VPK.
  \<open>tools/bspaudit\<close> reads maps (\<open>bsplib.py\<close>), collects the materials a client has
  (\<open>collect_content_index.py\<close>) and reports those a map refers to that it has not
  (\<open>audit.py\<close>).  \<open>fastdl/tools/mapvote_images.py\<close> indexes the items of the lockfile
  and makes the images the map vote lacks; \<open>fastdl/tools/render_icon.py\<close> renders an
  icon from a model.  \<open>tools/migrate_loadouts.py\<close> turns a MySQL dump into a
  PostgreSQL insert.

  Theories and sources.
  \<^item> \<open>Prelude\<close>, \<open>PyText\<close>, \<open>Matching\<close>, \<open>Dicts\<close>, \<open>Bytes\<close>, \<open>Digests\<close>, \<open>TextEdit\<close>: results
    that may be an error (\<open>Inl\<close> is a raised exception), Python's strings, regular
    expressions as matchers, dictionaries in insertion order, \<open>struct\<close> fields and
    encodings over 8-bit words, MD5, SHA-256 and CRC-32 over 32-bit words, edits of a
    text by position.  \<open>Prelude\<close> has the interfaces \<open>layering\<close> (the upper of two
    values keeps showing) and \<open>codec\<close> (decoding inverts encoding).
  \<^item> \<open>KeyValues\<close>, \<open>TheaterMerge\<close>, \<open>TheaterLoad\<close>, \<open>TheaterOrphans\<close>, \<open>TheaterBuild\<close>:
    \<open>build.py\<close>, one theory for the reader and writer, \<open>merge\<close>, \<open>Loader\<close>,
    \<open>drop_orphan_attachments\<close> and the commands.  \<open>Sync\<close> has the loop over generated
    files and the interface \<open>generator\<close>, which the theater build, the workshop
    rendering and the weapon-clone generator interpret.
  \<^item> \<open>VpkTree\<close>, \<open>Vpk\<close>, \<open>VpkReaders\<close>: \<open>pack_vpk.py\<close> and the two other readers of a VPK,
    \<open>vpk_entries\<close> and \<open>vpk_names\<close>, as interpretations of one interface, \<open>vpk_reader\<close>.
  \<^item> \<open>WorkshopLock\<close>, \<open>WorkshopRefresh\<close>, \<open>Splice\<close>, \<open>WorkshopRender\<close>: \<open>workshop_lock.py\<close>,
    from the subscriptions to the files that are written.  \<open>Json\<close> is what \<open>json.dump\<close>
    and \<open>json.load\<close> do, \<open>LockFile\<close> the text of the lockfile, an interpretation of
    \<open>codec\<close>, and \<open>WorkshopHistory\<close> the commands over a repository through its life.
  \<^item> \<open>Bsp\<close>, \<open>BspAudit\<close>, \<open>AuditFindings\<close>, \<open>AuditMain\<close>, \<open>ContentIndex\<close>, \<open>ContentMain\<close>:
    \<open>tools/bspaudit\<close>, the last of each program being its command.
  \<^item> \<open>VoteScan\<close>, \<open>VoteIndex\<close>, \<open>VoteImages\<close>, \<open>VoteReport\<close>: \<open>mapvote_images.py\<close>, in the
    order of the file; \<open>VoteIndexFile\<close>: the JSON file its index is kept in.
  \<^item> \<open>WeaponClone\<close>: \<open>generate.py\<close>.  \<open>Loadouts\<close>: \<open>migrate_loadouts.py\<close>.
  \<^item> \<open>RenderIcon\<close>, \<open>RenderScene\<close>, \<open>CameraFit\<close>: \<open>render_icon.py\<close>, what it reads, the scene
    it builds of it, and what the fit of its camera achieves.

  What the lemmas show.  Readers and writers: printing a theater and parsing it,
  packing and verifying or listing a VPK, an \<open>acf\<close> file and its manifests, a model
  and its mesh, a dump and its statement, a JSON value and its text are inverse to
  each other, and where an input is cut short the error is stated.  Merging: the
  loop over children with their identities refines an overlay of trees, and loading
  is the fold of it that an inductive relation specifies.  Generated files: writing
  replaces the generated regions of a document and nothing else, and checking after
  writing finds nothing.  State that lives long: the lockfile's buckets and pins,
  the index of items, its file and the image files, with what each operation
  changes of them and what it leaves; what holds of every lockfile that any
  sequence of commands and edits can leave is proved by induction on the reachable
  repositories.  The scene: its node tree is the material the settings ask for; an
  orthographic camera shows the whole model, a perspective one what is not too near
  to it, and a cube is shown to be cut off by the default one.  Composition: a
  material that was packed is collected, listed and not reported by the audit, from
  command to command.

  Bounds.  Only \<open>load\<close> takes fuel: a theater that reaches itself by \<open>#base\<close> makes the
  code recurse without end; it is shown that fuel above the rank of a file in an
  acyclic chain never runs out, and that the results with any fuel are the ones a
  relation without fuel gives.  Every other loop is a total function.  Sizes that a
  \<open>struct\<close> field must hold are hypotheses or errors, written out.  Strings are \<open>char\<close> lists: a code point above 255 is outside the
  model.

  Parameters, for what is not under \<open>src/\<close>: the answers of the Steam web API and of web
  servers, what a run of steamcmd leaves on the disk, the listing of a zip file, the
  theater reader \<open>kv\<close> that \<open>generate.py\<close> imports and that the repository does not
  hold, Blender with its vectors, and floating-point numbers, for which the camera's
  fit has the real ones.  A disk is a map or a listing.

  Not modelled: argument parsing and the text printed on a terminal, but for the
  lines of the audit; the JSON report of the audit; the Windows registry, where
  Steam may be found as well; the requests themselves in \<open>mapvote_images.py\<close>; what
  Blender draws of a scene; the plugins and servers in SourcePawn, Go, C and shell,
  which are other languages.
\<close>

section \<open>Properties that span components\<close>

text \<open>
  From the packer to the audit: a material in a directory that was packed is
  listed by the collector, which finds the VPK by its name anywhere below a
  folder it scans, and the audit of a map that refers to it with the index that
  was written does not report it.
\<close>

lemma packed_is_scanned:
  assumes "packable c" and "build c = Inr (b, arc, entries)" and "\<forall>p \<in> set (all_paths c). plain_path p"
    and "''materials/'' @ n @ ''.vmt'' \<in> set (all_paths c)" and "index_name n"
    and "(dirpath, filenames) \<in> set (walk_dirs d)" and "fn \<in> set filenames"
    and "suffix ''_dir.vpk'' (py_lower fn)" and "read_file d (rel_path dirpath fn) = b"
  shows "n \<in> scan_dir d {}"
proof -
  have "set (vpk_entries b) = set (all_paths c)"
    using readers_list_files(1) [OF assms(1-3)] by (rule mset_eq_setD)
  then have "n \<in> scan_file d dirpath fn"
    using assms(4,8,9) entry_names_material [OF assms(5)]
    by (auto simp: scan_file_def Let_def is_dir_vpk_def intro!: bexI [of _ "''materials/'' @ n @ ''.vmt''"])
  with assms(6,7) show ?thesis by (force simp: scan_dir_eq)
qed

lemma listed_is_resolved:
  "n \<in> known \<Longrightarrow> audit namelist (Some known) m = Inr r \<Longrightarrow> n \<notin> fst ` set (rp_missing r)"
  by (cases m) (auto simp: audit_def result_simps Let_def missing_of_def resolved_def)

lemma packed_material_is_resolved:
  assumes "packable c" and "build c = Inr (b, arc, entries)" and "\<forall>p \<in> set (all_paths c). plain_path p"
    and "''materials/'' @ n @ ''.vmt'' \<in> set (all_paths c)" and "index_name n"
    and "d \<in> set (games @ shops)" and "(dirpath, filenames) \<in> set (walk_dirs d)" and "fn \<in> set filenames"
    and "suffix ''_dir.vpk'' (py_lower fn)" and "read_file d (rel_path dirpath fn) = b"
    and "audit namelist (Some (load_content_index (collect_index games shops))) m = Inr r"
  shows "n \<notin> fst ` set (rp_missing r)"
proof -
  have "n \<in> scan_all (games @ shops)"
    using packed_is_scanned [OF assms(1-5,7-10)] assms(6) by (auto simp: scan_all_eq)
  then have "n \<in> load_content_index (collect_index games shops)"
    unfolding collect_index_all using finite_scan_all assms(5) by (intro load_index_mem)
  then show ?thesis using assms(11) by (rule listed_is_resolved)
qed


definition rug_content :: content where
  "rug_content = \<lparr>walk_dirs = [(''materials/decals'', [''rug.vmt''])], read_file = \<lambda>_. [7]\<rparr>"

lemma rug_packable: "packable rug_content" "all_paths rug_content = [''materials/decals/rug.vmt'']"
  "\<forall>p \<in> set (all_paths rug_content). plain_path p"
  by code_simp+

lemma rug_collect:
  "collect rug_content = Inr
     [\<lparr>e_ext = ''vmt'', e_path = ''materials/decals'', e_base = ''rug'', e_full = ''materials/decals/rug.vmt''\<rparr>]"
  by code_simp

lemma rug_builds: "\<exists>b arc entries. build rug_content = Inr (b, arc, entries)"
proof -
  have "sum_list (map (entry_room \<circ> entry_key) entries) < 4294967295" if "collect rug_content = Inr entries" for entries
    using that [unfolded rug_collect] by (auto simp: entry_room_def entry_key_def utf8_encode_def encode_char_def)
  moreover have "sum_list (map (length \<circ> read_file rug_content) (all_paths rug_content)) < 4294967296"
    by (simp add: rug_packable(2)) (simp add: rug_content_def)
  ultimately show ?thesis using build_total [OF rug_packable(1)] by (fastforce simp: rug_packable(2))
qed

definition rug_client :: "bytes \<Rightarrow> client" where
  "rug_client b = two_drives\<lparr>cl_tree := (\<lambda>_.
     \<lparr>walk_dirs = [(''insurgency'', [''decals_dir.vpk''])], read_file = (\<lambda>_. b)\<rparr>)\<rparr>"


end
